(* ===== verification/Prelude.thy ===== *)
theory Prelude
  imports Complex_Main "HOL-Library.Word" "HOL-Library.Multiset" "HOL-Library.Sublist"
begin

text \<open>
  What the components share: the machine types of the C++ code, the faults that end a
  computation, the state-and-fault programs in which the input/output code is written,
  runs of labelled step relations, and the generic lemmas on counting, on lists and on
  words that several components use.
\<close>

section \<open>Machine types\<close>

text \<open>Bytes on the wire and the 32-bit \<open>int\<close> of the C++ code (two's complement, read by
  \<^const>\<open>sint\<close>).\<close>

type_synonym byte = "8 word"
type_synonym cint = "32 word"

section \<open>Faults and programs\<close>

text \<open>
  The ways in which a C++ computation of this repository stops without a result:
  \<open>exit(n)\<close>, a failed \<open>assert\<close>, a \<open>KALDI_ASSERT\<close> or \<open>KALDI_ERR\<close>, a thrown exception,
  and the undefined behaviours the code can run into (a write or read outside a buffer, a
  null pointer, \<open>back()\<close> of an empty vector, an \<open>int\<close> sum out of range).
  \<open>OutOfFuel\<close> is none of the code: a loop bound of the model was reached.
\<close>

datatype fault =
    Exit int
  | AssertFailed
  | KaldiError
  | RuntimeError
  | InvalidArgument
  | OutOfBounds
  | NullDeref
  | EmptyBack
  | IntOverflow
  | OutOfFuel

text \<open>
  A program over a state: it returns a fault or a value together with the new state (the
  effects done before a fault stay done).
\<close>

type_synonym ('s, 'a) prog = "'s \<Rightarrow> (fault + 'a) \<times> 's"

named_theorems prog_simps \<open>unfolding of sequenced programs\<close>

definition ret :: "'a \<Rightarrow> ('s, 'a) prog" where
  "ret x = (\<lambda>s. (Inr x, s))"

definition fail :: "fault \<Rightarrow> ('s, 'a) prog" where
  "fail e = (\<lambda>s. (Inl e, s))"

definition andthen :: "('s, 'a) prog \<Rightarrow> ('a \<Rightarrow> ('s, 'b) prog) \<Rightarrow> ('s, 'b) prog" where
  "andthen p f = (\<lambda>s. case p s of (Inl e, t) \<Rightarrow> (Inl e, t) | (Inr x, t) \<Rightarrow> f x t)"

lemma ret_apply [simp, prog_simps]: "ret x s = (Inr x, s)"
  by (simp add: ret_def)

lemma fail_apply [simp, prog_simps]: "fail e s = (Inl e, s)"
  by (simp add: fail_def)

lemma andthen_Inr [prog_simps]: "p s = (Inr x, t) \<Longrightarrow> andthen p f s = f x t"
  by (simp add: andthen_def)

lemma andthen_Inl [prog_simps]: "p s = (Inl e, t) \<Longrightarrow> andthen p f s = (Inl e, t)"
  by (simp add: andthen_def)

lemma andthen_Inr_iff:
  "andthen p f s = (Inr y, u) \<longleftrightarrow> (\<exists>x t. p s = (Inr x, t) \<and> f x t = (Inr y, u))"
  by (auto simp: andthen_def split: prod.splits sum.splits)

lemma andthen_Inl_iff:
  "andthen p f s = (Inl e, u) \<longleftrightarrow>
     p s = (Inl e, u) \<or> (\<exists>x t. p s = (Inr x, t) \<and> f x t = (Inl e, u))"
  by (auto simp: andthen_def split: prod.splits sum.splits)

lemma andthen_ret [simp]: "andthen (ret x) f = f x"
  by (rule ext) (simp add: andthen_def)

lemma andthen_assoc: "andthen (andthen p f) g = andthen p (\<lambda>x. andthen (f x) g)"
  by (rule ext) (auto simp: andthen_def split: prod.splits sum.splits)

section \<open>Labelled runs\<close>

text \<open>
  A run of a labelled step relation and the labels it emits. The components with threads
  are step relations; their traces are compared with abstract specifications.
\<close>

inductive run :: "('s \<Rightarrow> 'l \<Rightarrow> 's \<Rightarrow> bool) \<Rightarrow> 's \<Rightarrow> 'l list \<Rightarrow> 's \<Rightarrow> bool"
  for step where
  run_nil: "run step s [] s"
| run_snoc: "run step s ls t \<Longrightarrow> step t l u \<Longrightarrow> run step s (ls @ [l]) u"

lemma run_step: "step s l t \<Longrightarrow> run step s [l] t"
  using run_snoc [OF run_nil, of step s l t] by simp

lemma run_append: "run step t ms u \<Longrightarrow> run step s ls t \<Longrightarrow> run step s (ls @ ms) u"
proof (induction rule: run.induct)
  case (run_nil t)
  then show ?case by simp
next
  case (run_snoc t ms u l v)
  from run_snoc.IH [OF run_snoc.prems] run_snoc.hyps(2)
  have "run step s ((ls @ ms) @ [l]) v" by (rule run.run_snoc)
  then show ?case by simp
qed

lemma run_invariant:
  assumes "run step s ls t" and "I s"
    and "\<And>x l y. step x l y \<Longrightarrow> I x \<Longrightarrow> I y"
  shows "I t"
  using assms(1,2) by (induction rule: run.induct) (auto intro: assms(3))

section \<open>Counting the elements of a list\<close>

lemma sum_list_update_plus:
  "i < length xs \<Longrightarrow>
     sum_list (map f (xs[i := v])) + f (xs ! i) = sum_list (map f xs) + (f v :: 'm::comm_monoid_add)"
proof (induction xs arbitrary: i)
  case Nil
  then show ?case by simp
next
  case (Cons x xs)
  then show ?case by (cases i) (auto simp: ac_simps)
qed

definition num :: "('a \<Rightarrow> bool) \<Rightarrow> 'a list \<Rightarrow> int" where
  "num P xs = int (length (filter P xs))"

lemma num_Nil [simp]: "num P [] = 0"
  by (simp add: num_def)

lemma num_Cons [simp]: "num P (x # xs) = of_bool (P x) + num P xs"
  by (simp add: num_def)

lemma num_append [simp]: "num P (xs @ ys) = num P xs + num P ys"
  by (simp add: num_def)

lemma num_replicate [simp]: "num P (replicate n x) = (if P x then int n else 0)"
  by (simp add: num_def)

lemma num_nonneg [simp]: "0 \<le> num P xs"
  by (simp add: num_def)

lemma num_le_length: "num P xs \<le> int (length xs)"
  by (simp add: num_def)

lemma num_update:
  "i < length xs \<Longrightarrow> num P (xs[i := v]) = num P xs - of_bool (P (xs ! i)) + of_bool (P v)"
proof (induction xs arbitrary: i)
  case Nil
  then show ?case by simp
next
  case (Cons x xs)
  then show ?case by (cases i) auto
qed

lemma num_pos_iff: "0 < num P xs \<longleftrightarrow> (\<exists>x \<in> set xs. P x)"
  by (induction xs) (auto simp: add_pos_nonneg add_nonneg_pos of_bool_def)

lemma num_zero_iff: "num P xs = 0 \<longleftrightarrow> (\<forall>x \<in> set xs. \<not> P x)"
proof -
  have "num P xs = 0 \<longleftrightarrow> \<not> 0 < num P xs"
    using num_nonneg [of P xs] by linarith
  then show ?thesis by (simp add: num_pos_iff)
qed

lemma num_less_length_iff: "num P xs < int (length xs) \<longleftrightarrow> (\<exists>x \<in> set xs. \<not> P x)"
proof -
  have "num P xs + num (\<lambda>x. \<not> P x) xs = int (length xs)"
    by (induction xs) auto
  then have "num P xs < int (length xs) \<longleftrightarrow> 0 < num (\<lambda>x. \<not> P x) xs" by linarith
  then show ?thesis by (simp add: num_pos_iff)
qed

lemma num_cong: "(\<And>x. x \<in> set xs \<Longrightarrow> P x = Q x) \<Longrightarrow> num P xs = num Q xs"
  by (simp add: num_def cong: filter_cong)

lemma num_nth_pos: "i < length xs \<Longrightarrow> P (xs ! i) \<Longrightarrow> 0 < num P xs"
  by (auto simp: num_pos_iff)

end
