(* ===== verification/Traceback.thy ===== *)
theory Traceback
  imports Prelude
begin

text \<open>
  The tracebacks of \<open>OnlineFasterDecoder\<close> (\<open>online-faster-decoder.cc\<close>). Tokens do not change
  once they are made (\<open>arc_\<close>, \<open>prev_\<close>, \<open>weight_\<close> are set by the constructor), so a token pointer is
  represented by the tokens it reaches through \<open>prev_\<close>, itself first; the empty list is
  \<open>NULL\<close>. A token carries its address: equal pointers are equal lists. Costs are exact reals;
  \<^const>\<open>None\<close> is the infinite cost \<open>Weight::Zero()\<close>. The decoding graph, \<open>RemoveEpsLocal\<close>, the
  comparison of tokens and \<open>ReachedFinal\<close> belong to OpenFst and Kaldi: they are parameters.
\<close>

record token =
  tok_addr :: nat
  ilabel :: int
  olabel :: int
  arc_weight :: real
  nextstate :: int
  tok_weight :: real

type_synonym tokptr = "token list"

record graph =
  fst_start :: int
  fst_final :: "int \<Rightarrow> real option"

record larc =
  l_ilabel :: int
  l_olabel :: int
  l_weight :: "real \<times> real"

text \<open>
  An output lattice as it is built: the number of states, the arcs with their source and
  target, and the final weight. The start state is 0 when there is a state.
\<close>

record lattice =
  lat_states :: nat
  lat_arcs :: "(nat \<times> larc \<times> nat) list"
  lat_final :: "(nat \<times> real \<times> real) option"

definition empty_lattice :: lattice where
  "empty_lattice = \<lparr>lat_states = 0, lat_arcs = [], lat_final = None\<rparr>"

section \<open>MakeLattice\<close>

definition prev_weight :: "tokptr \<Rightarrow> real" where
  "prev_weight p = (if p = [] then 0 else tok_weight (hd p))"

definition lattice_arc :: "token \<Rightarrow> tokptr \<Rightarrow> larc" where
  "lattice_arc tok prev =
     (let tot_cost = tok_weight tok - prev_weight prev;
          graph_cost = arc_weight tok; ac_cost = tot_cost - graph_cost
      in \<lparr>l_ilabel = ilabel tok, l_olabel = olabel tok, l_weight = (graph_cost, ac_cost)\<rparr>)"

text \<open>The loop \<open>for (tok = start; tok != end; tok = tok->prev_)\<close>: the arcs, each with the
  \<open>nextstate\<close> of its token, which the test behind the loop looks at.\<close>

fun arcs_back :: "tokptr \<Rightarrow> tokptr \<Rightarrow> fault + (larc \<times> int) list" where
  "arcs_back end [] = (if end = [] then Inr [] else Inl NullDeref)"
| "arcs_back end (tok # prev) =
     (if tok # prev = end then Inr []
      else case arcs_back end prev of
          Inl e \<Rightarrow> Inl e
        | Inr arcs \<Rightarrow> Inr ((lattice_arc tok prev, nextstate tok) # arcs))"

definition drop_fake :: "graph \<Rightarrow> (larc \<times> int) list \<Rightarrow> fault + larc list" where
  "drop_fake g arcs_reverse =
     (if arcs_reverse = [] then Inl EmptyBack
      else if snd (last arcs_reverse) = fst_start g then Inr (map fst (butlast arcs_reverse))
      else Inr (map fst arcs_reverse))"

fun add_arcs :: "larc list \<Rightarrow> nat \<Rightarrow> lattice \<Rightarrow> nat \<times> lattice" where
  "add_arcs [] cur L = (cur, L)"
| "add_arcs (arc # arcs) cur L =
     (let new = lat_states L
      in add_arcs arcs new
           (L\<lparr>lat_states := new + 1, lat_arcs := lat_arcs L @ [(cur, arc, new)]\<rparr>))"

definition build_lattice :: "larc list \<Rightarrow> real option \<Rightarrow> lattice" where
  "build_lattice arcs_reverse final_weight =
     (case add_arcs (rev arcs_reverse) 0 (empty_lattice\<lparr>lat_states := 1\<rparr>) of (cur, L) \<Rightarrow>
        L\<lparr>lat_final := Some (cur, case final_weight of Some w \<Rightarrow> (w, 0) | None \<Rightarrow> (0, 0))\<rparr>)"

definition MakeLattice :: "graph \<Rightarrow> (lattice \<Rightarrow> lattice) \<Rightarrow> tokptr \<Rightarrow> tokptr \<Rightarrow> fault + lattice" where
  "MakeLattice g RemoveEpsLocal start end =
     (if start = [] then Inr empty_lattice
      else case arcs_back end start of
          Inl e \<Rightarrow> Inl e
        | Inr arcs_reverse \<Rightarrow> (case drop_fake g arcs_reverse of
            Inl e \<Rightarrow> Inl e
          | Inr arcs \<Rightarrow>
              Inr (RemoveEpsLocal (build_lattice arcs (fst_final g (nextstate (hd start)))))))"

section \<open>The immortal token\<close>

definition emits :: "tokptr \<Rightarrow> bool" where
  "emits p \<longleftrightarrow> p \<noteq> [] \<and> ilabel (hd p) \<noteq> 0"

definition skip_nonemitting :: "tokptr \<Rightarrow> tokptr" where
  "skip_nonemitting p = dropWhile (\<lambda>t. ilabel t = 0) p"

text \<open>The first loop, over the active tokens, which dereferences \<open>NULL\<close> when a token has no
  emitting ancestor; \<open>unordered_set\<close> as a list without duplicates.\<close>

fun first_emitting :: "tokptr list \<Rightarrow> fault + tokptr list" where
  "first_emitting [] = Inr []"
| "first_emitting (p # ps) =
     (let tok = skip_nonemitting p in
      if tok = [] then Inl NullDeref
      else case first_emitting ps of Inl e \<Rightarrow> Inl e | Inr ts \<Rightarrow> Inr (List.insert tok ts))"

definition prev_emitting :: "tokptr list \<Rightarrow> tokptr list" where
  "prev_emitting emitting =
     remdups (filter (\<lambda>p. p \<noteq> []) (map (\<lambda>p. skip_nonemitting (tl p)) emitting))"

lemma skip_nonemitting_length: "length (skip_nonemitting p) \<le> length p"
  by (simp add: skip_nonemitting_def length_dropWhile_le)

lemma prev_emitting_smaller:
  assumes "emitting \<noteq> []"
  shows "sum_list (map (\<lambda>p. Suc (length p)) (prev_emitting emitting))
    < sum_list (map (\<lambda>p. Suc (length p)) emitting)"
proof -
  have le: "sum_list (map f (remdups xs)) \<le> sum_list (map (f :: _ \<Rightarrow> nat) xs)" for f and xs :: "tokptr list"
    by (induction xs) auto
  have "sum_list (map (\<lambda>p. Suc (length p)) (filter (\<lambda>p. p \<noteq> [])
      (map (\<lambda>p. skip_nonemitting (tl p)) ps))) + (if ps = [] then 0 else 1)
    \<le> sum_list (map (\<lambda>p. Suc (length p)) ps)" for ps
  proof (induction ps)
    case (Cons p ps)
    have "length (skip_nonemitting (tl p)) \<le> length p - 1"
      using skip_nonemitting_length [of "tl p"] by simp
    then show ?case using Cons by (cases p) (auto simp: skip_nonemitting_def split: if_splits)
  qed simp
  from this [of emitting] assms show ?thesis
    unfolding prev_emitting_def
    by (intro le_less_trans [OF le [of "\<lambda>p. Suc (length p)"]]) simp
qed

function find_the_one :: "tokptr list \<Rightarrow> tokptr option" where
  "find_the_one emitting =
     (if length emitting = 1 then Some (hd emitting)
      else if emitting = [] then None
      else find_the_one (prev_emitting emitting))"
  by pat_completeness auto
termination
  by (relation "measure (\<lambda>e. sum_list (map (\<lambda>p. Suc (length p)) e))")
    (auto intro: prev_emitting_smaller)

declare find_the_one.simps [simp del]

text \<open>The decoder's two traceback pointers and the list of active tokens with their states.\<close>

record traces =
  immortal_tok :: tokptr
  prev_immortal_tok :: tokptr

definition UpdateImmortalToken :: "tokptr list \<Rightarrow> traces \<Rightarrow> fault + traces" where
  "UpdateImmortalToken toks d =
     (case first_emitting toks of
        Inl e \<Rightarrow> Inl e
      | Inr emitting \<Rightarrow> (case find_the_one emitting of
          Some the_one \<Rightarrow> Inr \<lparr>immortal_tok = the_one, prev_immortal_tok = immortal_tok d\<rparr>
        | None \<Rightarrow> Inr d))"

definition PartialTraceback ::
  "graph \<Rightarrow> (lattice \<Rightarrow> lattice) \<Rightarrow> tokptr list \<Rightarrow> traces \<Rightarrow> fault + lattice option \<times> traces" where
  "PartialTraceback g RemoveEpsLocal toks d =
     (case UpdateImmortalToken toks d of
        Inl e \<Rightarrow> Inl e
      | Inr d' \<Rightarrow>
          if immortal_tok d' = prev_immortal_tok d' then Inr (None, d')
          else (case MakeLattice g RemoveEpsLocal (immortal_tok d') (prev_immortal_tok d') of
              Inl e \<Rightarrow> Inl e
            | Inr L \<Rightarrow> Inr (Some L, d')))"

section \<open>The best token\<close>

definition best_active :: "(token \<Rightarrow> token \<Rightarrow> bool) \<Rightarrow> tokptr list \<Rightarrow> tokptr" where
  "best_active worse toks =
     foldl (\<lambda>best p. if best = [] \<or> worse (hd best) (hd p) then p else best) [] toks"

text \<open>Cost comparison with \<^const>\<open>None\<close> as infinity.\<close>

definition cost_less :: "real \<Rightarrow> real option \<Rightarrow> bool" where
  "cost_less w b = (case b of None \<Rightarrow> True | Some v \<Rightarrow> w < v)"

definition best_final :: "graph \<Rightarrow> (int \<times> tokptr) list \<Rightarrow> tokptr" where
  "best_final g toks = snd (foldl (\<lambda>(bw, best) (key, p).
     case fst_final g key of
       None \<Rightarrow> (bw, best)
     | Some f \<Rightarrow> let w = tok_weight (hd p) + f in
         if cost_less w bw then (Some w, p) else (bw, best)) (None, []) toks)"

definition FinishTraceBack :: "graph \<Rightarrow> (lattice \<Rightarrow> lattice) \<Rightarrow> (token \<Rightarrow> token \<Rightarrow> bool) \<Rightarrow> bool
    \<Rightarrow> (int \<times> tokptr) list \<Rightarrow> traces \<Rightarrow> fault + lattice" where
  "FinishTraceBack g RemoveEpsLocal worse ReachedFinal toks d =
     (let best_tok = (if \<not> ReachedFinal then best_active worse (map snd toks) else best_final g toks)
      in MakeLattice g RemoveEpsLocal best_tok (immortal_tok d))"

fun arcs_back_n :: "int \<Rightarrow> tokptr \<Rightarrow> (larc \<times> int) list" where
  "arcs_back_n nframes [] = []"
| "arcs_back_n nframes (tok # prev) =
     (if 0 < nframes then
        (lattice_arc tok prev, nextstate tok)
          # arcs_back_n (if ilabel tok \<noteq> 0 then nframes - 1 else nframes) prev
      else [])"

definition TracebackNFrames :: "graph \<Rightarrow> (lattice \<Rightarrow> lattice) \<Rightarrow> (token \<Rightarrow> token \<Rightarrow> bool) \<Rightarrow> int
    \<Rightarrow> tokptr list \<Rightarrow> fault + lattice" where
  "TracebackNFrames g RemoveEpsLocal worse nframes toks =
     (let best_tok = best_active worse toks in
      if best_tok = [] then Inr empty_lattice
      else case drop_fake g (arcs_back_n nframes best_tok) of
          Inl e \<Rightarrow> Inl e
        | Inr arcs \<Rightarrow>
            Inr (RemoveEpsLocal (build_lattice arcs (fst_final g (nextstate (hd best_tok))))))"

section \<open>The immortal token is the latest common emitting ancestor\<close>

text \<open>
  The ancestors of a token are the suffixes of its list. The decoder works frame by frame, so
  all active tokens have the same number of emitting arcs behind them.
\<close>

definition depth :: "tokptr \<Rightarrow> nat" where
  "depth p = length (filter (\<lambda>t. ilabel t \<noteq> 0) p)"

definition same_depth :: "tokptr list \<Rightarrow> bool" where
  "same_depth toks \<longleftrightarrow> (\<forall>p \<in> set toks. \<forall>q \<in> set toks. depth p = depth q)"

definition common_emitting :: "tokptr list \<Rightarrow> tokptr \<Rightarrow> bool" where
  "common_emitting toks c \<longleftrightarrow> emits c \<and> (\<forall>p \<in> set toks. suffix c p)"

definition latest_common :: "tokptr list \<Rightarrow> tokptr \<Rightarrow> bool" where
  "latest_common toks c \<longleftrightarrow> common_emitting toks c \<and> (\<forall>c'. common_emitting toks c' \<longrightarrow> suffix c' c)"

lemma same_depthD: "same_depth toks \<Longrightarrow> p \<in> set toks \<Longrightarrow> q \<in> set toks \<Longrightarrow> depth p = depth q"
  unfolding same_depth_def by blast

lemma depth_simps [simp]:
  "depth [] = 0" "depth (t # p) = (if ilabel t \<noteq> 0 then 1 else 0) + depth p"
  "depth (p @ q) = depth p + depth q"
  by (simp_all add: depth_def)

lemma skip_Nil_iff: "skip_nonemitting p = [] \<longleftrightarrow> depth p = 0"
  by (induction p) (simp_all add: skip_nonemitting_def)

lemma depth_skip [simp]: "depth (skip_nonemitting p) = depth p"
  by (induction p) (simp_all add: skip_nonemitting_def)

lemma emits_skip: "skip_nonemitting p \<noteq> [] \<Longrightarrow> emits (skip_nonemitting p)"
  unfolding emits_def skip_nonemitting_def using hd_dropWhile [of "\<lambda>t. ilabel t = 0" p] by blast

lemma suffix_skip: "suffix (skip_nonemitting p) p"
  by (simp add: skip_nonemitting_def suffix_dropWhile)

lemma emitting_suffix_skip: "emits c \<Longrightarrow> suffix c p \<Longrightarrow> suffix c (skip_nonemitting p)"
  by (induction p) (auto simp: skip_nonemitting_def emits_def suffix_Cons)

lemma suffix_skip_iff: "emits c \<Longrightarrow> suffix c (skip_nonemitting p) \<longleftrightarrow> suffix c p"
  using emitting_suffix_skip suffix_skip suffix_order.trans by blast

lemma depth_suffix: "suffix c p \<Longrightarrow> depth c \<le> depth p"
  by (auto simp: suffix_def)

lemma emits_depth: "emits c \<Longrightarrow> 0 < depth c"
  by (cases c) (simp_all add: emits_def)

lemma emits_suffix_same_depth: "emits q \<Longrightarrow> suffix p q \<Longrightarrow> depth p = depth q \<Longrightarrow> p = q"
  by (cases q) (auto simp: suffix_Cons emits_def dest: depth_suffix)

lemma first_emitting_eq:
  "first_emitting toks = (if \<forall>p \<in> set toks. 0 < depth p
     then Inr (foldr (\<lambda>p. List.insert (skip_nonemitting p)) toks []) else Inl NullDeref)"
  by (induction toks) (auto simp: skip_Nil_iff Let_def)

lemma set_insert_skips: "set (foldr (\<lambda>p. List.insert (skip_nonemitting p)) toks []) = skip_nonemitting ` set toks"
  by (induction toks) auto

lemma distinct_insert_skips: "distinct (foldr (\<lambda>p. List.insert (skip_nonemitting p)) toks [])"
  by (induction toks) auto

lemma common_emitting_step:
  assumes "same_depth E" and "\<forall>p \<in> set E. emits p" and "distinct E" and "1 < length E"
    and c: "common_emitting E c" and p: "p \<in> set E"
  shows "suffix c (skip_nonemitting (tl p))"
proof -
  have "c \<noteq> p"
  proof
    assume eq: "c = p"
    have card: "card (set E) \<noteq> 1" using distinct_card [OF assms(3)] assms(4) by linarith
    have "set E \<noteq> {p}"
    proof
      assume eq: "set E = {p}"
      have "card (set E) = 1" unfolding eq by simp
      with card show False ..
    qed
    with p obtain q where q: "q \<in> set E" "q \<noteq> p" by blast
    then have "suffix p q" using c eq by (simp add: common_emitting_def)
    moreover have "depth p = depth q" by (rule same_depthD [OF assms(1) p q(1)])
    moreover have "emits q" using assms(2) q(1) by blast
    ultimately have "p = q" using emits_suffix_same_depth by blast
    with q show False by simp
  qed
  moreover have "suffix c p" using c p by (simp add: common_emitting_def)
  ultimately have "suffix c (tl p)" by (cases p) (auto simp: suffix_Cons)
  then show ?thesis using c by (simp add: suffix_skip_iff common_emitting_def)
qed

lemma emits_tl_depth: "emits p \<Longrightarrow> Suc (depth (tl p)) = depth p"
  by (cases p) (simp_all add: emits_def)

lemma prev_emitting_props:
  assumes "same_depth E" and "\<forall>p \<in> set E. emits p"
  shows "same_depth (prev_emitting E)" "\<forall>p \<in> set (prev_emitting E). emits p"
    "distinct (prev_emitting E)"
proof -
  have *: "\<exists>q \<in> set E. p = skip_nonemitting (tl q) \<and> Suc (depth p) = depth q"
    if "p \<in> set (prev_emitting E)" for p
  proof -
    from that obtain q where q: "q \<in> set E" "p = skip_nonemitting (tl q)"
      by (auto simp: prev_emitting_def)
    then have "Suc (depth p) = depth q" using emits_tl_depth assms(2) by simp
    with q show ?thesis by blast
  qed
  show "same_depth (prev_emitting E)"
    using assms(1) * unfolding same_depth_def by (metis nat.inject)
  show "\<forall>p \<in> set (prev_emitting E). emits p" by (auto simp: prev_emitting_def intro: emits_skip)
  show "distinct (prev_emitting E)" by (simp add: prev_emitting_def)
qed

lemma prev_emitting_common:
  assumes "same_depth E" and "\<forall>p \<in> set E. emits p" and "distinct E" and "1 < length E"
  shows "common_emitting E c \<longleftrightarrow> prev_emitting E \<noteq> [] \<and> common_emitting (prev_emitting E) c"
proof
  assume c: "common_emitting E c"
  from assms(4) obtain p where p: "p \<in> set E" by (cases E) auto
  then have s: "suffix c (skip_nonemitting (tl p))" by (rule common_emitting_step [OF assms c])
  then have "skip_nonemitting (tl p) \<noteq> []" using c by (auto simp: common_emitting_def emits_def)
  then have "skip_nonemitting (tl p) \<in> set (prev_emitting E)"
    using p by (auto simp: prev_emitting_def)
  then have "prev_emitting E \<noteq> []" by auto
  moreover have "common_emitting (prev_emitting E) c"
    using c common_emitting_step [OF assms c] by (auto simp: common_emitting_def prev_emitting_def)
  ultimately show "prev_emitting E \<noteq> [] \<and> common_emitting (prev_emitting E) c" ..
next
  assume r: "prev_emitting E \<noteq> [] \<and> common_emitting (prev_emitting E) c"
  then obtain q where q: "q \<in> set E" "skip_nonemitting (tl q) \<noteq> []"
    by (auto simp: prev_emitting_def filter_empty_conv)
  then have "1 < depth q" using emits_tl_depth [of q] assms(2) by (simp add: skip_Nil_iff)
  then have in_prev: "skip_nonemitting (tl p) \<in> set (prev_emitting E)" if "p \<in> set E" for p
  proof -
    have "depth p = depth q" by (rule same_depthD [OF assms(1) that q(1)])
    moreover have "emits p" using that assms(2) by blast
    ultimately have "depth (tl p) \<noteq> 0" using emits_tl_depth [of p] \<open>1 < depth q\<close> by simp
    then show ?thesis using that by (auto simp: prev_emitting_def skip_Nil_iff)
  qed
  have "suffix c p" if "p \<in> set E" for p
  proof -
    have "suffix c (skip_nonemitting (tl p))" "emits c"
      using r in_prev [OF that] by (auto simp: common_emitting_def)
    then have "suffix c (tl p)" by (simp add: suffix_skip_iff)
    then show ?thesis by (cases p) (auto simp: suffix_Cons)
  qed
  then show "common_emitting E c"
    using r by (auto simp: common_emitting_def)
qed

lemma find_the_one_latest:
  "same_depth E \<Longrightarrow> \<forall>p \<in> set E. emits p \<Longrightarrow> distinct E \<Longrightarrow> E \<noteq> [] \<Longrightarrow>
     (case find_the_one E of Some c \<Rightarrow> latest_common E c | None \<Rightarrow> \<forall>c. \<not> common_emitting E c)"
proof (induction E rule: find_the_one.induct)
  case (1 E)
  show ?case
  proof (cases "length E = 1")
    case True
    then obtain p where p: "E = [p]" by (cases E) auto
    then have "find_the_one E = Some p" by (subst find_the_one.simps) simp
    with "1.prems" p show ?thesis by (simp add: latest_common_def common_emitting_def)
  next
    case False
    then have len: "1 < length E" using "1.prems"(4) by (cases E) auto
    note common = prev_emitting_common [OF "1.prems"(1-3) len]
    show ?thesis
    proof (cases "prev_emitting E = []")
      case True
      then have "find_the_one E = None"
        using False "1.prems"(4) by (simp add: find_the_one.simps)
      with common True show ?thesis by simp
    next
      case ne: False
      have "find_the_one E = find_the_one (prev_emitting E)"
        using False "1.prems"(4) by (simp add: find_the_one.simps [of E])
      with "1.IH" [OF False "1.prems"(4) prev_emitting_props [OF "1.prems"(1,2)] ne] common ne
      show ?thesis by (simp add: latest_common_def split: option.splits)
    qed
  qed
qed

lemma immortal_search:
  assumes "same_depth toks" and "\<forall>p \<in> set toks. 0 < depth p" and "toks \<noteq> []"
  shows "\<exists>d'. UpdateImmortalToken toks d = Inr d'
    \<and> (if \<exists>c. common_emitting toks c
       then latest_common toks (immortal_tok d') \<and> prev_immortal_tok d' = immortal_tok d
       else d' = d)"
proof -
  define E where "E = foldr (\<lambda>p. List.insert (skip_nonemitting p)) toks []"
  have E: "first_emitting toks = Inr E" "set E = skip_nonemitting ` set toks" "distinct E"
    using assms(2) by (simp_all add: E_def first_emitting_eq set_insert_skips distinct_insert_skips)
  then have "set E \<noteq> {}" using assms(3) by simp
  then have "E \<noteq> []" by auto
  note E = E this
  have props: "same_depth E" "\<forall>p \<in> set E. emits p"
    using assms(2) unfolding same_depth_def E(2)
    by (auto simp: skip_Nil_iff intro!: emits_skip intro: same_depthD [OF assms(1)])
  have common: "common_emitting E c \<longleftrightarrow> common_emitting toks c" for c
    using E(2) by (auto simp: common_emitting_def suffix_skip_iff)
  have latest: "latest_common E c \<longleftrightarrow> latest_common toks c" for c
    by (simp add: latest_common_def common)
  have ex: "\<exists>c. common_emitting toks c" if "latest_common toks c" for c
    using that by (auto simp: latest_common_def)
  show ?thesis
  proof (cases "find_the_one E")
    case None
    then have "\<not> (\<exists>c. common_emitting toks c)"
      using find_the_one_latest [OF props E(3,4)] common by simp
    then show ?thesis using None E(1) by (simp add: UpdateImmortalToken_def)
  next
    case (Some c)
    then have "latest_common toks c" using find_the_one_latest [OF props E(3,4)] latest by simp
    then show ?thesis using Some E(1) ex by (auto simp: UpdateImmortalToken_def)
  qed
qed

text \<open>
  C19. \<open>UpdateImmortalToken\<close> finds the latest common ancestor: as long as every active token
  has an emitting ancestor, it does not dereference \<open>NULL\<close>, and its new immortal token is an
  emitting ancestor of all active tokens of which every other common emitting ancestor is an
  ancestor; without one, nothing changes.
\<close>

theorem immortal_is_latest_common_ancestor:
  assumes "same_depth toks" and "\<forall>p \<in> set toks. 0 < depth p" and "toks \<noteq> []"
  shows "\<exists>d'. UpdateImmortalToken toks d = Inr d'
    \<and> (if \<exists>c. common_emitting toks c
       then latest_common toks (immortal_tok d') \<and> prev_immortal_tok d' = immortal_tok d
       else d' = d)"
  by (rule immortal_search [OF assms])

section \<open>What MakeLattice builds\<close>

text \<open>The arcs of the tokens \<open>p\<close> in front of the pointer \<open>e\<close>.\<close>

fun segment :: "tokptr \<Rightarrow> tokptr \<Rightarrow> (larc \<times> int) list" where
  "segment [] e = []"
| "segment (t # p) e = (lattice_arc t (p @ e), nextstate t) # segment p e"

lemma segment_last: "p \<noteq> [] \<Longrightarrow> segment p e \<noteq> [] \<and> snd (last (segment p e)) = nextstate (last p)"
  by (induction p) auto

lemma segment_olabels: "map (\<lambda>a. l_olabel (fst a)) (segment p e) = map olabel p"
  by (induction p) (simp_all add: lattice_arc_def Let_def)

lemma arcs_back_append: "arcs_back e (p @ e) = Inr (segment p e)"
proof (induction p)
  case Nil
  then show ?case by (cases e) simp_all
next
  case (Cons t p)
  have "t # p @ e \<noteq> e" by (metis append_Cons append_self_conv2 list.distinct(1))
  then show ?case using Cons by simp
qed

lemma arcs_back_not_suffix: "\<not> suffix e s \<Longrightarrow> arcs_back e s = Inl NullDeref"
  by (induction s) (auto simp: suffix_Cons)

lemma add_arcs_chain:
  "add_arcs arcs cur L = (if arcs = [] then cur else lat_states L + length arcs - 1,
     L\<lparr>lat_states := lat_states L + length arcs,
       lat_arcs := lat_arcs L @ zip (cur # [lat_states L..<lat_states L + length arcs])
         (zip arcs [lat_states L..<lat_states L + length arcs])\<rparr>)"
proof (induction arcs arbitrary: cur L)
  case (Cons a arcs)
  have "[lat_states L..<lat_states L + length (a # arcs)]
      = lat_states L # [Suc (lat_states L)..<Suc (lat_states L) + length arcs]"
    by (simp add: upt_rec)
  then show ?case using Cons by (simp add: Let_def)
qed simp

lemma build_lattice_chain:
  "build_lattice arcs f = \<lparr>lat_states = length arcs + 1,
     lat_arcs = zip [0..<length arcs] (zip (rev arcs) [1..<length arcs + 1]),
     lat_final = Some (length arcs, case f of Some w \<Rightarrow> (w, 0) | None \<Rightarrow> (0, 0))\<rparr>"
proof -
  have "zip (0 # [1..<1 + length arcs]) (zip (rev arcs) [1..<1 + length arcs])
      = zip [0..<length arcs] (zip (rev arcs) [1..<length arcs + 1])"
    by (rule nth_equalityI) (auto simp: nth_Cons nth_append split: nat.splits)
  then show ?thesis by (auto simp: build_lattice_def add_arcs_chain empty_lattice_def)
qed

text \<open>
  \<open>MakeLattice\<close> of a token and one of its proper ancestors builds the linear lattice of
  the arcs between them, oldest first, without the oldest one when its target is the start
  state of the graph; for a pointer that is not an ancestor it runs into \<open>NULL\<close>, and for the
  token itself into \<open>back()\<close> of an empty vector.
\<close>

theorem MakeLattice_outcome:
  assumes "start \<noteq> []"
  shows "MakeLattice g RemoveEpsLocal start end =
    (if \<not> suffix end start then Inl NullDeref
     else if start = end then Inl EmptyBack
     else let p = take (length start - length end) start;
              arcs = map fst (segment p end);
              real_arcs = (if nextstate (last p) = fst_start g then butlast arcs else arcs);
              n = length real_arcs
       in Inr (RemoveEpsLocal \<lparr>lat_states = n + 1,
            lat_arcs = zip [0..<n] (zip (rev real_arcs) [1..<n + 1]),
            lat_final = Some (n, case fst_final g (nextstate (hd start)) of
                Some w \<Rightarrow> (w, 0) | None \<Rightarrow> (0, 0))\<rparr>))"
proof (cases "suffix end start")
  case False
  then show ?thesis using assms by (simp add: MakeLattice_def arcs_back_not_suffix)
next
  case True
  then obtain p where p: "start = p @ end" by (auto simp: suffix_def)
  then have tk: "take (length start - length end) start = p" by simp
  show ?thesis
  proof (cases "p = []")
    case True
    then show ?thesis using p assms arcs_back_append [of "end" "[]"]
      by (simp add: MakeLattice_def drop_fake_def)
  next
    case False
    then have "drop_fake g (segment p end) =
        Inr (if nextstate (last p) = fst_start g then butlast (map fst (segment p end))
          else map fst (segment p end))"
      using segment_last [of p "end"] by (auto simp: drop_fake_def map_butlast)
    moreover have "start \<noteq> end" using p False by simp
    ultimately show ?thesis
      using assms True arcs_back_append [of "end" p] p
      by (simp add: MakeLattice_def tk build_lattice_chain Let_def)
  qed
qed

section \<open>The pieces of a session\<close>

text \<open>
  The words of a path from the root token (which is no arc of the graph), and what the two
  functions of OpenFst and Kaldi are relied on for: \<open>RemoveEpsLocal\<close> keeps the words of a
  linear lattice, and \<open>GetLinearSymbolSequence\<close> reads them, without epsilons.
\<close>

definition path_words :: "tokptr \<Rightarrow> int list" where
  "path_words p = filter (\<lambda>l. l \<noteq> 0) (map olabel (rev (butlast p)))"

definition lattice_words :: "lattice \<Rightarrow> int list" where
  "lattice_words L = filter (\<lambda>l. l \<noteq> 0) (map (\<lambda>(i, arc, j). l_olabel arc) (lat_arcs L))"

definition fst_ok :: "(lattice \<Rightarrow> lattice) \<Rightarrow> (lattice \<Rightarrow> int list) \<Rightarrow> bool" where
  "fst_ok RemoveEpsLocal symbols \<longleftrightarrow>
     (\<forall>arcs f. symbols (RemoveEpsLocal (build_lattice arcs f))
        = filter (\<lambda>l. l \<noteq> 0) (map l_olabel (rev arcs)))"

text \<open>The generations of active tokens at the calls: frame-synchronous, from one root, no arc
  back into the start state, and each generation descends from the one before.\<close>

definition tokens_rooted :: "graph \<Rightarrow> token \<Rightarrow> tokptr list \<Rightarrow> bool" where
  "tokens_rooted g r0 T \<longleftrightarrow> T \<noteq> []
     \<and> (\<forall>p \<in> set T. suffix [r0] p \<and> (\<forall>t \<in> set (butlast p). nextstate t \<noteq> fst_start g))"

definition tokens_ok :: "graph \<Rightarrow> token \<Rightarrow> tokptr list \<Rightarrow> bool" where
  "tokens_ok g r0 T \<longleftrightarrow> tokens_rooted g r0 T \<and> same_depth T \<and> (\<forall>p \<in> set T. 0 < depth p)"

lemmas tokens_ok_simps = tokens_ok_def tokens_rooted_def

fun generations :: "graph \<Rightarrow> token \<Rightarrow> tokptr list list \<Rightarrow> bool" where
  "generations g r0 [] \<longleftrightarrow> True"
| "generations g r0 [T] \<longleftrightarrow> tokens_ok g r0 T"
| "generations g r0 (T # T' # Ts) \<longleftrightarrow> tokens_ok g r0 T
     \<and> (\<forall>q \<in> set T'. \<exists>p \<in> set T. suffix p q) \<and> generations g r0 (T' # Ts)"

fun partials :: "graph \<Rightarrow> (lattice \<Rightarrow> lattice) \<Rightarrow> tokptr list list \<Rightarrow> traces
    \<Rightarrow> fault + lattice list \<times> traces" where
  "partials g rmeps [] d = Inr ([], d)"
| "partials g rmeps (T # Ts) d =
     (case PartialTraceback g rmeps T d of
        Inl e \<Rightarrow> Inl e
      | Inr (L, d') \<Rightarrow> (case partials g rmeps Ts d' of
          Inl e \<Rightarrow> Inl e
        | Inr (Ls, d'') \<Rightarrow> Inr ((case L of Some l \<Rightarrow> [l] | None \<Rightarrow> []) @ Ls, d'')))"

lemma path_words_append: "e \<noteq> [] \<Longrightarrow>
    path_words (p @ e) = path_words e @ filter (\<lambda>l. l \<noteq> 0) (map olabel (rev p))"
  by (simp add: path_words_def butlast_append)

lemma MakeLattice_words:
  assumes "fst_ok rmeps symbols" and "e \<noteq> []" and "p \<noteq> []"
    and "\<forall>t \<in> set (butlast (p @ e)). nextstate t \<noteq> fst_start g"
  shows "\<exists>L. MakeLattice g rmeps (p @ e) e = Inr L \<and> path_words (p @ e) = path_words e @ symbols L"
proof -
  let ?arcs = "map fst (segment p e)"
  have "last p \<in> set (butlast (p @ e))" using assms(2,3) by (simp add: butlast_append)
  with assms(4) have "nextstate (last p) \<noteq> fst_start g" by blast
  then have fake: "drop_fake g (segment p e) = Inr ?arcs"
    using segment_last [OF assms(3), of e] by (simp add: drop_fake_def)
  have ol: "map l_olabel ?arcs = map olabel p"
    using segment_olabels [of p e] by (simp add: comp_def)
  have "map l_olabel (rev ?arcs) = map olabel (rev p)" by (simp only: rev_map [symmetric] ol)
  then have "path_words (p @ e) = path_words e
      @ symbols (rmeps (build_lattice ?arcs (fst_final g (nextstate (hd (p @ e))))))"
    using assms(1,2) by (simp add: fst_ok_def path_words_append)
  moreover have "MakeLattice g rmeps (p @ e) e
      = Inr (rmeps (build_lattice ?arcs (fst_final g (nextstate (hd (p @ e))))))"
    using assms(2) fake by (simp add: MakeLattice_def arcs_back_append)
  ultimately show ?thesis by blast
qed

text \<open>The state between two calls: the immortal token is an ancestor of all active tokens.\<close>

definition traces_ok :: "token \<Rightarrow> tokptr list \<Rightarrow> traces \<Rightarrow> bool" where
  "traces_ok r0 T d \<longleftrightarrow> suffix [r0] (immortal_tok d) \<and> (\<forall>p \<in> set T. suffix (immortal_tok d) p)
     \<and> (emits (immortal_tok d) \<or> immortal_tok d = [r0] \<and> prev_immortal_tok d = [r0])"

lemma UpdateImmortalToken_grows:
  assumes T: "tokens_ok g r0 T" and d: "traces_ok r0 T d"
  shows "\<exists>d'. UpdateImmortalToken T d = Inr d' \<and> traces_ok r0 T d'
    \<and> suffix (immortal_tok d) (immortal_tok d') \<and> prev_immortal_tok d' = immortal_tok d"
proof -
  have T': "same_depth T" "\<forall>p \<in> set T. 0 < depth p" "T \<noteq> []" "\<forall>p \<in> set T. suffix [r0] p"
    using T by (auto simp: tokens_ok_simps)
  obtain d' where d': "UpdateImmortalToken T d = Inr d'" "if \<exists>c. common_emitting T c
      then latest_common T (immortal_tok d') \<and> prev_immortal_tok d' = immortal_tok d else d' = d"
    using immortal_search [OF T'(1-3)] by blast
  show ?thesis
  proof (cases "\<exists>c. common_emitting T c")
    case False
    then have "\<not> emits (immortal_tok d)" using d by (auto simp: common_emitting_def traces_ok_def)
    then show ?thesis using d' False d by (auto simp: traces_ok_def)
  next
    case True
    with d' have new: "latest_common T (immortal_tok d')" "prev_immortal_tok d' = immortal_tok d"
      by auto
    from T'(3) obtain p where p: "p \<in> set T" by (cases T) auto
    have sp: "suffix (immortal_tok d') p" "emits (immortal_tok d')"
      using new(1) p by (auto simp: latest_common_def common_emitting_def)
    have r0: "suffix [r0] (immortal_tok d')"
    proof -
      have "suffix [r0] p" using T'(4) p by blast
      then have "suffix [r0] (immortal_tok d') \<or> suffix (immortal_tok d') [r0]"
        using sp(1) suffix_same_cases by blast
      then show ?thesis using sp(2) by (auto simp: suffix_Cons emits_def)
    qed
    have "suffix (immortal_tok d) (immortal_tok d')"
    proof (cases "emits (immortal_tok d)")
      case True
      then have "common_emitting T (immortal_tok d)"
        using d by (auto simp: common_emitting_def traces_ok_def)
      then show ?thesis using new(1) by (auto simp: latest_common_def)
    next
      case False
      then show ?thesis using d r0 by (auto simp: traces_ok_def)
    qed
    moreover have "traces_ok r0 T d'"
      using new(1) sp(2) r0 by (auto simp: traces_ok_def latest_common_def common_emitting_def)
    ultimately show ?thesis using d'(1) new(2) by blast
  qed
qed

lemma PartialTraceback_words:
  assumes ok: "fst_ok rmeps symbols" and T: "tokens_ok g r0 T" and d: "traces_ok r0 T d"
  shows "\<exists>Lo d'. PartialTraceback g rmeps T d = Inr (Lo, d') \<and> traces_ok r0 T d'
    \<and> path_words (immortal_tok d') =
        path_words (immortal_tok d) @ (case Lo of Some L \<Rightarrow> symbols L | None \<Rightarrow> [])"
proof -
  obtain d' where d': "UpdateImmortalToken T d = Inr d'" "traces_ok r0 T d'"
    "suffix (immortal_tok d) (immortal_tok d')" "prev_immortal_tok d' = immortal_tok d"
    using UpdateImmortalToken_grows [OF T d] by blast
  show ?thesis
  proof (cases "immortal_tok d' = immortal_tok d")
    case True
    then show ?thesis using d' by (auto simp: PartialTraceback_def)
  next
    case False
    with d'(3) obtain p where p: "immortal_tok d' = p @ immortal_tok d" "p \<noteq> []"
      by (auto simp: suffix_def)
    have ne: "immortal_tok d \<noteq> []" using d by (auto simp: traces_ok_def)
    from T obtain q where q: "q \<in> set T" "\<forall>t \<in> set (butlast q). nextstate t \<noteq> fst_start g"
      unfolding tokens_ok_simps by (metis ex_in_conv set_empty)
    with d'(2) obtain x where "q = x @ immortal_tok d'" by (auto simp: traces_ok_def suffix_def)
    with q(2) p ne have "\<forall>t \<in> set (butlast (p @ immortal_tok d)). nextstate t \<noteq> fst_start g"
      by (simp add: butlast_append)
    from MakeLattice_words [OF ok ne p(2) this] obtain L
      where "MakeLattice g rmeps (p @ immortal_tok d) (immortal_tok d) = Inr L"
        "path_words (p @ immortal_tok d) = path_words (immortal_tok d) @ symbols L"
      by blast
    then show ?thesis using d' p False by (auto simp: PartialTraceback_def)
  qed
qed

lemma traces_ok_descend:
  "traces_ok r0 T d \<Longrightarrow> \<forall>q \<in> set T'. \<exists>p \<in> set T. suffix p q \<Longrightarrow> traces_ok r0 T' d"
  unfolding traces_ok_def using suffix_order.trans by blast

lemma partials_words:
  assumes ok: "fst_ok rmeps symbols"
  shows "generations g r0 (Ts @ [T]) \<Longrightarrow> traces_ok r0 (hd (Ts @ [T])) d \<Longrightarrow>
    \<exists>out d'. partials g rmeps Ts d = Inr (out, d') \<and> traces_ok r0 T d'
      \<and> path_words (immortal_tok d') = path_words (immortal_tok d) @ concat (map symbols out)"
proof (induction Ts arbitrary: d)
  case (Cons T1 Ts)
  obtain T2 Ts' where T2: "Ts @ [T] = T2 # Ts'" by (cases Ts) auto
  with Cons.prems(1) have gen: "tokens_ok g r0 T1" "generations g r0 (Ts @ [T])"
    "\<forall>q \<in> set T2. \<exists>p \<in> set T1. suffix p q"
    by simp_all
  obtain Lo d1 where d1: "PartialTraceback g rmeps T1 d = Inr (Lo, d1)" "traces_ok r0 T1 d1"
    "path_words (immortal_tok d1) =
      path_words (immortal_tok d) @ (case Lo of Some L \<Rightarrow> symbols L | None \<Rightarrow> [])"
    using PartialTraceback_words [OF ok gen(1), of d] Cons.prems(2) by auto
  have "traces_ok r0 (hd (Ts @ [T])) d1" using traces_ok_descend [OF d1(2) gen(3)] T2 by simp
  from Cons.IH [OF gen(2) this] obtain out d' where
    "partials g rmeps Ts d1 = Inr (out, d')" "traces_ok r0 T d'"
    "path_words (immortal_tok d') = path_words (immortal_tok d1) @ concat (map symbols out)"
    by blast
  then show ?case using d1 by (cases Lo) auto
qed simp

lemma generations_last: "generations g r0 (Ts @ [T]) \<Longrightarrow> tokens_ok g r0 T"
proof (induction Ts)
  case (Cons T1 Ts)
  then show ?case by (cases Ts) auto
qed simp

text \<open>
  The best token, stated without the loops: the first of those with the lowest cost. The cost is
  that of the path, and with the final cost of its state when a final state is reached
  (\<^const>\<open>None\<close> where the state is not final).
\<close>

definition at_most :: "real \<Rightarrow> real option \<Rightarrow> bool" where
  "at_most w b = (case b of None \<Rightarrow> True | Some v \<Rightarrow> w \<le> v)"

definition first_min :: "real option list \<Rightarrow> nat \<Rightarrow> bool" where
  "first_min cs i \<longleftrightarrow> i < length cs \<and> (case cs ! i of None \<Rightarrow> False
     | Some c \<Rightarrow> (\<forall>j < i. cost_less c (cs ! j)) \<and> (\<forall>j < length cs. at_most c (cs ! j)))"

definition path_cost :: "graph \<Rightarrow> bool \<Rightarrow> int \<times> tokptr \<Rightarrow> real option" where
  "path_cost g reached x =
     (if reached then map_option (\<lambda>f. tok_weight (hd (snd x)) + f) (fst_final g (fst x))
      else Some (tok_weight (hd (snd x))))"

definition first_best :: "graph \<Rightarrow> bool \<Rightarrow> (int \<times> tokptr) list \<Rightarrow> tokptr \<Rightarrow> bool" where
  "first_best g reached toks best \<longleftrightarrow>
     (\<exists>i < length toks. first_min (map (path_cost g reached) toks) i \<and> best = snd (toks ! i))"

lemma first_min_keep:
  "first_min cs i \<Longrightarrow> cs ! i = Some c \<Longrightarrow> at_most c x \<Longrightarrow> first_min (cs @ [x]) i"
  by (auto simp: first_min_def nth_append less_Suc_eq)

lemma first_min_new:
  "first_min cs i \<Longrightarrow> cs ! i = Some c \<Longrightarrow> w < c \<Longrightarrow> first_min (cs @ [Some w]) (length cs)"
  by (auto simp: first_min_def nth_append less_Suc_eq cost_less_def at_most_def split: option.splits)

lemma first_min_start: "set cs \<subseteq> {None} \<Longrightarrow> first_min (cs @ [Some w]) (length cs)"
  by (auto simp: first_min_def nth_append less_Suc_eq cost_less_def at_most_def split: option.splits)
    (metis insert_absorb insert_not_empty nth_mem option.distinct(1) singletonD subsetD)+

lemma first_min_unique: "first_min cs i \<Longrightarrow> first_min cs j \<Longrightarrow> i = j"
  by (rule linorder_cases [of i j])
    (force simp: first_min_def cost_less_def at_most_def split: option.splits)+

lemma best_final_first:
  assumes "\<exists>(k, p) \<in> set toks. fst_final g k \<noteq> None"
  shows "first_best g True toks (best_final g toks)"
proof -
  define f :: "real option \<times> tokptr \<Rightarrow> int \<times> tokptr \<Rightarrow> real option \<times> tokptr"
    where "f = (\<lambda>(bw, best) (key, p). case fst_final g key of
       None \<Rightarrow> (bw, best)
     | Some f \<Rightarrow> let w = tok_weight (hd p) + f in
         if cost_less w bw then (Some w, p) else (bw, best))"
  let ?cs = "map (path_cost g True)"
  have inv: "case foldl f (None, []) ps of
      (None, best) \<Rightarrow> set (?cs ps) \<subseteq> {None}
    | (Some c, best) \<Rightarrow> \<exists>i. first_min (?cs ps) i \<and> ?cs ps ! i = Some c \<and> best = snd (ps ! i)" for ps
  proof (induction ps rule: rev_induct)
    case (snoc x ps)
    obtain key p where x: "x = (key, p)" by fastforce
    obtain bw best where b: "foldl f (None, []) ps = (bw, best)" by fastforce
    show ?case
    proof (cases "fst_final g key")
      case None
      then have fx: "f y x = y" "path_cost g True x = None" for y by (simp_all add: f_def x path_cost_def split: prod.split)
      show ?thesis
      proof (cases bw)
        case None
        then show ?thesis using snoc b fx by simp
      next
        case (Some c)
        then obtain i where i: "first_min (?cs ps) i" "?cs ps ! i = Some c" "best = snd (ps ! i)"
          using snoc b by auto
        then have "i < length ps" by (simp add: first_min_def)
        with first_min_keep [OF i(1,2), of None] i fx(2) Some show ?thesis
          by (auto simp: b fx(1) at_most_def nth_append intro!: exI [of _ i])
      qed
    next
      case (Some v)
      let ?w = "tok_weight (hd p) + v"
      have c: "path_cost g True x = Some ?w" and sx: "snd x = p" using Some by (simp_all add: x path_cost_def)
      have fx: "f (bw, best) x = (if cost_less ?w bw then (Some ?w, p) else (bw, best))" for bw best
        by (simp add: f_def x Some Let_def)
      show ?thesis
      proof (cases bw)
        case None
        then show ?thesis using snoc b first_min_start [of "?cs ps" ?w]
          by (auto simp: fx c sx cost_less_def nth_append intro!: exI [of _ "length ps"])
      next
        case (Some c0)
        then obtain i where i: "first_min (?cs ps) i" "?cs ps ! i = Some c0" "best = snd (ps ! i)"
          using snoc b by auto
        then have len: "i < length ps" by (simp add: first_min_def)
        show ?thesis
        proof (cases "?w < c0")
          case True
          then show ?thesis using first_min_new [OF i(1,2)] Some c
            by (auto simp: b fx sx cost_less_def nth_append intro!: exI [of _ "length ps"])
        next
          case False
          then show ?thesis using first_min_keep [OF i(1,2), of "Some ?w"] i(2,3) Some c len
            by (auto simp: b fx cost_less_def at_most_def nth_append intro!: exI [of _ i])
        qed
      qed
    qed
  qed simp
  obtain bw best where b: "foldl f (None, []) toks = (bw, best)" by fastforce
  have "bw \<noteq> None"
  proof
    assume "bw = None"
    then have "set (?cs toks) \<subseteq> {None}" using inv [of toks] b by simp
    moreover obtain k p where "(k, p) \<in> set toks" "fst_final g k \<noteq> None" using assms by blast
    ultimately show False by (force simp: path_cost_def)
  qed
  then show ?thesis using inv [of toks] b
    by (auto simp: first_best_def best_final_def f_def [symmetric] first_min_def)
qed

lemma best_active_first:
  assumes "toks \<noteq> []" and "[] \<notin> snd ` set toks" and worse: "\<forall>a b. worse a b \<longleftrightarrow> tok_weight b < tok_weight a"
  shows "first_best g False toks (best_active worse (map snd toks))"
proof -
  let ?f = "\<lambda>best p. if best = [] \<or> worse (hd best) (hd p) then p else best"
  let ?cs = "map (path_cost g False)"
  have "ps \<noteq> [] \<Longrightarrow> [] \<notin> snd ` set ps \<Longrightarrow>
      \<exists>i. first_min (?cs ps) i \<and> foldl ?f [] (map snd ps) = snd (ps ! i)" for ps
  proof (induction ps rule: rev_induct)
    case (snoc x ps)
    let ?w = "tok_weight (hd (snd x))"
    have c: "path_cost g False x = Some ?w" by (simp add: path_cost_def)
    show ?case
    proof (cases "ps = []")
      case True
      then show ?thesis using first_min_start [of "[]" ?w] c by (auto intro!: exI [of _ 0])
    next
      case False
      then obtain i where i: "first_min (?cs ps) i" "foldl ?f [] (map snd ps) = snd (ps ! i)"
        using snoc by auto
      then have len: "i < length ps" by (simp add: first_min_def)
      then have "snd (ps ! i) \<noteq> []" using snoc.prems(2) by (metis Un_iff image_eqI nth_mem set_append)
      have ci: "?cs ps ! i = Some (tok_weight (hd (snd (ps ! i))))"
        using len by (simp add: path_cost_def)
      show ?thesis
      proof (cases "?w < tok_weight (hd (snd (ps ! i)))")
        case True
        then show ?thesis using first_min_new [OF i(1) ci] i(2) worse c
          by (auto simp: nth_append intro!: exI [of _ "length ps"])
      next
        case False
        then show ?thesis using first_min_keep [OF i(1) ci, of "Some ?w"] i(2) worse c len \<open>snd (ps ! i) \<noteq> []\<close>
          by (auto simp: at_most_def nth_append intro!: exI [of _ i])
      qed
    qed
  qed simp
  from this [OF assms(1,2)] show ?thesis
    by (auto simp: first_best_def best_active_def first_min_def)
qed

lemma first_best_unique: "first_best g reached toks b \<Longrightarrow> first_best g reached toks b' \<Longrightarrow> b = b'"
  by (auto simp: first_best_def dest: first_min_unique)

lemma first_best_in: "first_best g reached toks best \<Longrightarrow> best \<in> snd ` set toks"
  by (auto simp: first_best_def)

lemma FinishTraceBack_words:
  assumes ok: "fst_ok rmeps symbols" and T: "tokens_rooted g r0 (map snd toks)"
    and d: "traces_ok r0 (map snd toks) d"
    and reached: "reached \<longrightarrow> (\<exists>(k, p) \<in> set toks. fst_final g k \<noteq> None)"
    and worse: "\<forall>a b. worse a b \<longleftrightarrow> tok_weight b < tok_weight a"
  shows "\<exists>best. first_best g reached toks best \<and> (if best = immortal_tok d
    then FinishTraceBack g rmeps worse reached toks d = Inl EmptyBack
    else \<exists>L. FinishTraceBack g rmeps worse reached toks d = Inr L
      \<and> path_words best = path_words (immortal_tok d) @ symbols L)"
proof -
  let ?T = "map snd toks"
  define best where "best = (if \<not> reached then best_active worse ?T else best_final g toks)"
  have "[] \<notin> set ?T" using T by (auto simp: tokens_rooted_def)
  then have first: "first_best g reached toks best"
    using best_active_first [OF _ _ worse, of toks g] best_final_first [of toks g] reached T
    by (cases reached) (auto simp: best_def tokens_rooted_def)
  note best = first_best_in [OF this]
  then obtain p where p: "best = p @ immortal_tok d" using d by (auto simp: traces_ok_def suffix_def)
  have ne: "immortal_tok d \<noteq> []" using d by (auto simp: traces_ok_def)
  have finish: "FinishTraceBack g rmeps worse reached toks d = MakeLattice g rmeps best (immortal_tok d)"
    by (simp add: FinishTraceBack_def best_def)
  show ?thesis
  proof (cases "p = []")
    case True
    then have "FinishTraceBack g rmeps worse reached toks d = Inl EmptyBack"
      using finish p ne arcs_back_append [of "immortal_tok d" "[]"]
      by (simp add: MakeLattice_def drop_fake_def)
    moreover have "best = immortal_tok d" using p True by simp
    ultimately show ?thesis using first by metis
  next
    case False
    have "\<forall>t \<in> set (butlast (p @ immortal_tok d)). nextstate t \<noteq> fst_start g"
      using T best p by (auto simp: tokens_rooted_def)
    from MakeLattice_words [OF ok ne False this] obtain L where
      "MakeLattice g rmeps (p @ immortal_tok d) (immortal_tok d) = Inr L"
      "path_words (p @ immortal_tok d) = path_words (immortal_tok d) @ symbols L"
      by auto
    moreover have "best \<noteq> immortal_tok d" using p False by simp
    ultimately show ?thesis using first finish p by metis
  qed
qed


text \<open>Without an active token the search finds nothing, both pointers stay, and the piece
  between them is returned a second time.\<close>

lemma PartialTraceback_repeats:
  "PartialTraceback g rmeps [] d =
     (if immortal_tok d = prev_immortal_tok d then Inr (None, d)
      else case MakeLattice g rmeps (immortal_tok d) (prev_immortal_tok d) of
          Inl e \<Rightarrow> Inl e | Inr L \<Rightarrow> Inr (Some L, d))"
  by (simp add: PartialTraceback_def UpdateImmortalToken_def find_the_one.simps)

section \<open>Witnesses\<close>

definition tok_at :: "nat \<Rightarrow> int \<Rightarrow> int \<Rightarrow> int \<Rightarrow> token" where
  "tok_at a il ol st = \<lparr>tok_addr = a, ilabel = il, olabel = ol, arc_weight = 1, nextstate = st,
     tok_weight = real a\<rparr>"

definition small_graph :: graph where
  "small_graph = \<lparr>fst_start = 0, fst_final = (\<lambda>s. if s = 3 then Some 1 else None)\<rparr>"

text \<open>A root, one frame with two tokens, one frame in which both descend from the first.\<close>

definition tokens1 :: "tokptr list" where
  "tokens1 = [[tok_at 1 5 7 1, tok_at 0 0 0 0], [tok_at 2 6 8 2, tok_at 0 0 0 0]]"

definition tokens2 :: "tokptr list" where
  "tokens2 = [[tok_at 3 5 9 3, tok_at 1 5 7 1, tok_at 0 0 0 0],
    [tok_at 4 6 0 2, tok_at 1 5 7 1, tok_at 0 0 0 0]]"

lemma zip_arcs_olabels: "length is = length arcs \<Longrightarrow> length arcs = length js \<Longrightarrow>
    map (\<lambda>(i, arc, j). l_olabel arc) (zip is (zip arcs js)) = map l_olabel arcs"
  by (induction "is" arcs js rule: list_induct3) simp_all

lemma lattice_words_ok: "fst_ok (\<lambda>L. L) lattice_words"
  by (simp add: fst_ok_def lattice_words_def build_lattice_chain zip_arcs_olabels del: upt_Suc)

lemma tokens_concrete: "generations small_graph (tok_at 0 0 0 0) [tokens1, tokens2]"
  by (simp add: tokens_ok_simps same_depth_def tokens1_def tokens2_def small_graph_def tok_at_def
      suffix_Cons)

theorem immortal_is_latest_common_ancestor_witness:
  "\<exists>d'. UpdateImmortalToken tokens2 \<lparr>immortal_tok = [tok_at 0 0 0 0], prev_immortal_tok = [tok_at 0 0 0 0]\<rparr>
      = Inr d' \<and> latest_common tokens2 (immortal_tok d')"
proof -
  have "common_emitting tokens2 [tok_at 1 5 7 1, tok_at 0 0 0 0]"
    by (simp add: common_emitting_def emits_def tokens2_def tok_at_def suffix_Cons)
  moreover have "same_depth tokens2" "\<forall>p \<in> set tokens2. 0 < depth p" "tokens2 \<noteq> []"
    by (simp_all add: same_depth_def tokens2_def tok_at_def)
  ultimately show ?thesis
    using immortal_is_latest_common_ancestor [of tokens2
        "\<lparr>immortal_tok = [tok_at 0 0 0 0], prev_immortal_tok = [tok_at 0 0 0 0]\<rparr>"] by metis
qed

theorem MakeLattice_outcome_witness:
  "MakeLattice small_graph (\<lambda>L. L) [tok_at 1 5 7 0, tok_at 0 0 0 0] [tok_at 0 0 0 0]
     = Inr \<lparr>lat_states = 1, lat_arcs = [], lat_final = Some (0, 0, 0)\<rparr>"
  by (subst MakeLattice_outcome) (simp_all add: small_graph_def tok_at_def Let_def suffix_Cons)


end
