(* ===== verification/Phones.thy ===== *)
theory Phones
  imports Traceback
begin

text \<open>
  The split of an alignment into phones and the end-of-utterance test of
  \<open>online-faster-decoder.cc\<close>. The transition model is Kaldi's: a record of the lookups that the
  code uses. Indices are natural numbers as in the code; an access outside a vector is a fault.
\<close>

record tmodel =
  tid_state :: "int \<Rightarrow> int"
  is_self_loop :: "int \<Rightarrow> bool"
  is_final_tid :: "int \<Rightarrow> bool"
  state_phone :: "int \<Rightarrow> int"
  state_hmm :: "int \<Rightarrow> int"
  tid_phone :: "int \<Rightarrow> int"

section \<open>IsReordered\<close>

fun reordered_loop :: "tmodel \<Rightarrow> int list \<Rightarrow> fault + bool option" where
  "reordered_loop tm (a # b # r) =
     (if tid_state tm a \<noteq> tid_state tm b then
        (if is_self_loop tm a \<and> is_self_loop tm b then Inl KaldiError
         else if is_self_loop tm a then Inr (Some True)
         else if is_self_loop tm b then Inr (Some False)
         else reordered_loop tm (b # r))
      else reordered_loop tm (b # r))"
| "reordered_loop tm _ = Inr None"

definition IsReordered :: "tmodel \<Rightarrow> int list \<Rightarrow> fault + bool" where
  "IsReordered tm alignment =
     (case reordered_loop tm alignment of
        Inl e \<Rightarrow> Inl e
      | Inr (Some b) \<Rightarrow> Inr b
      | Inr None \<Rightarrow>
          if alignment = [] then Inr False
          else if is_self_loop tm (hd alignment) then Inr False
          else if is_self_loop tm (last alignment) then Inr True
          else Inr False)"

section \<open>SplitToPhones\<close>

text \<open>The inner loop of the reordered case (lines 267 to 272): the last index of the phone.\<close>

function self_loops_end :: "tmodel \<Rightarrow> int list \<Rightarrow> nat \<Rightarrow> fault + nat" where
  "self_loops_end tm al i =
     (if i + 1 < length al \<and> is_self_loop tm (al ! (i + 1)) then
        (if tid_state tm (al ! i) = tid_state tm (al ! (i + 1)) then self_loops_end tm al (i + 1)
         else Inl AssertFailed)
      else Inr i)"
  by pat_completeness auto
termination
  by (relation "measure (\<lambda>(tm, al, i). length al - i)") auto

declare self_loops_end.simps [simp del]

lemma self_loops_end_bounds:
  "self_loops_end tm al i = Inr j \<Longrightarrow> i < length al \<Longrightarrow> i \<le> j \<and> j < length al"
proof (induction tm al i rule: self_loops_end.induct)
  case (1 tm al i)
  then show ?case
    by (auto simp: self_loops_end.simps [of tm al i] split: if_splits)
qed

function end_points_loop ::
  "tmodel \<Rightarrow> bool \<Rightarrow> int list \<Rightarrow> nat \<Rightarrow> bool \<Rightarrow> nat list \<Rightarrow> fault + bool \<times> nat list" where
  "end_points_loop tm reordered al i was_ok ends =
     (if i < length al then
        if is_final_tid tm (al ! i) then
          if \<not> reordered then end_points_loop tm reordered al (i + 1) was_ok (ends @ [i + 1])
          else (case self_loops_end tm al i of
              Inl e \<Rightarrow> Inl e
            | Inr j \<Rightarrow> end_points_loop tm reordered al (j + 1) was_ok (ends @ [j + 1]))
        else if i + 1 = length al then
          end_points_loop tm reordered al (i + 1) False (ends @ [i + 1])
        else
          (let this_state = tid_state tm (al ! i); next_state = tid_state tm (al ! (i + 1)) in
           if this_state = next_state then end_points_loop tm reordered al (i + 1) was_ok ends
           else if state_phone tm this_state \<noteq> state_phone tm next_state
             then end_points_loop tm reordered al (i + 1) False (ends @ [i + 1])
             else end_points_loop tm reordered al (i + 1) was_ok ends)
      else Inr (was_ok, ends))"
  by pat_completeness auto
termination
  by (relation "measure (\<lambda>(tm, r, al, i, w, e). length al - i)")
    (auto dest: self_loops_end_bounds)

declare end_points_loop.simps [simp del]

fun split_parts :: "tmodel \<Rightarrow> int list \<Rightarrow> nat \<Rightarrow> bool \<Rightarrow> nat list \<Rightarrow> fault + bool \<times> int list list" where
  "split_parts tm al cur was_ok [] = Inr (was_ok, [])"
| "split_parts tm al cur was_ok (e # es) =
     (if length al \<le> cur \<or> length al < e then Inl OutOfBounds
      else case split_parts tm al e
          (if state_hmm tm (tid_state tm (al ! cur)) \<noteq> 0 then False else was_ok) es of
          Inl f \<Rightarrow> Inl f
        | Inr (ok, ps) \<Rightarrow> Inr (ok, map ((!) al) [cur..<e] # ps))"

definition SplitToPhonesInternal :: "tmodel \<Rightarrow> int list \<Rightarrow> bool \<Rightarrow> fault + bool \<times> int list list" where
  "SplitToPhonesInternal tm alignment reordered =
     (if alignment = [] then Inr (True, [])
      else case end_points_loop tm reordered alignment 0 True [] of
          Inl e \<Rightarrow> Inl e
        | Inr (was_ok, end_points) \<Rightarrow> split_parts tm alignment 0 was_ok end_points)"

definition SplitToPhones :: "tmodel \<Rightarrow> int list \<Rightarrow> fault + bool \<times> int list list" where
  "SplitToPhones tm alignment =
     (case IsReordered tm alignment of
        Inl e \<Rightarrow> Inl e
      | Inr reordered \<Rightarrow> SplitToPhonesInternal tm alignment reordered)"

section \<open>EndOfUtterance\<close>

record utt_opts =
  inter_utt_sil :: nat
  max_utt_len :: nat

definition EndOfUtterance :: "graph \<Rightarrow> (lattice \<Rightarrow> lattice) \<Rightarrow> (lattice \<Rightarrow> int list)
    \<Rightarrow> (token \<Rightarrow> token \<Rightarrow> bool) \<Rightarrow> tmodel \<Rightarrow> int set \<Rightarrow> utt_opts \<Rightarrow> nat \<Rightarrow> tokptr list \<Rightarrow> fault + bool" where
  "EndOfUtterance g RemoveEpsLocal isymbols_of worse tm silence_set opts utt_frames toks =
     (let sil_frm = inter_utt_sil opts div (1 + utt_frames div max_utt_len opts) in
      case TracebackNFrames g RemoveEpsLocal worse (int sil_frm) toks of
        Inl e \<Rightarrow> Inl e
      | Inr trace \<Rightarrow> (case SplitToPhones tm (isymbols_of trace) of
          Inl e \<Rightarrow> Inl e
        | Inr (ok, split) \<Rightarrow> Inr (list_all (\<lambda>p. tid_phone tm (hd p) \<in> silence_set) split)))"

section \<open>The split cuts the alignment\<close>

fun increasing :: "nat \<Rightarrow> nat list \<Rightarrow> nat \<Rightarrow> bool" where
  "increasing a [] n \<longleftrightarrow> a = n"
| "increasing a (e # es) n \<longleftrightarrow> a < e \<and> increasing e es n"

lemma increasing_le: "increasing a es n \<Longrightarrow> a \<le> n"
  by (induction a es n rule: increasing.induct) auto

lemma split_parts_total:
  "increasing cur es (length al) \<Longrightarrow>
     \<exists>ok ps. split_parts tm al cur w es = Inr (ok, ps) \<and> concat ps = drop cur al \<and> [] \<notin> set ps"
proof (induction es arbitrary: cur w)
  case (Cons e es)
  then have e: "cur < e" "e \<le> length al" using increasing_le by auto
  have "map ((!) al) [cur..<e] = take (e - cur) (drop cur al)"
    using e by (intro nth_equalityI) auto
  moreover have "take (e - cur) (drop cur al) @ drop e al = drop cur al"
    using e by (metis append_take_drop_id drop_drop le_add_diff_inverse2 less_imp_le_nat)
  moreover have "increasing e es (length al)" using Cons.prems by simp
  from Cons.IH [OF this] obtain ok ps where "split_parts tm al e
      (if state_hmm tm (tid_state tm (al ! cur)) \<noteq> 0 then False else w) es = Inr (ok, ps)"
    "concat ps = drop e al" "[] \<notin> set ps"
    by blast
  ultimately show ?case using e by auto
qed simp

text \<open>The end points found so far, then the rest: the last one is the end of the alignment.\<close>

lemma end_points_increasing:
  "end_points_loop tm r al i w ends = Inr (ok, es) \<Longrightarrow> i \<le> length al \<Longrightarrow>
     \<exists>fs. es = ends @ fs \<and> (i < length al \<longrightarrow> (\<exists>e fs'. fs = e # fs' \<and> i < e \<and> increasing e fs' (length al)))
       \<and> (i = length al \<longrightarrow> fs = [])"
proof (induction tm r al i w ends arbitrary: ok es rule: end_points_loop.induct)
  case (1 tm r al i w ends)
  note simps = end_points_loop.simps [of tm r al i w ends]
  have step: "\<exists>fs. es = ends @ fs \<and> (\<exists>e fs'. fs = e # fs' \<and> i < e \<and> increasing e fs' (length al))"
    if "es = (ends @ [k]) @ fs" "i < k" "k \<le> length al"
      "k < length al \<longrightarrow> (\<exists>e fs'. fs = e # fs' \<and> k < e \<and> increasing e fs' (length al))"
      "k = length al \<longrightarrow> fs = []" for k fs
    using that by (cases "k = length al") auto
  show ?case
  proof (cases "i < length al")
    case False
    then have "end_points_loop tm r al i w ends = Inr (w, ends)" by (subst simps) simp
    then show ?thesis using "1.prems" False by auto
  next
    case i: True
    consider (fin) "is_final_tid tm (al ! i)" "\<not> r" | (finr) "is_final_tid tm (al ! i)" r
      | (last) "\<not> is_final_tid tm (al ! i)" "i + 1 = length al"
      | (same) "\<not> is_final_tid tm (al ! i)" "i + 1 \<noteq> length al"
          "tid_state tm (al ! i) = tid_state tm (al ! (i + 1))
           \<or> state_phone tm (tid_state tm (al ! i)) = state_phone tm (tid_state tm (al ! (i + 1)))"
      | (diff) "\<not> is_final_tid tm (al ! i)" "i + 1 \<noteq> length al"
          "tid_state tm (al ! i) \<noteq> tid_state tm (al ! (i + 1))"
          "state_phone tm (tid_state tm (al ! i)) \<noteq> state_phone tm (tid_state tm (al ! (i + 1)))"
      by blast
    then show ?thesis
    proof cases
      case fin
      have "end_points_loop tm r al i w ends = end_points_loop tm r al (i + 1) w (ends @ [i + 1])"
        by (subst simps) (simp add: fin i)
      with "1.IH"(1) [OF i fin, of ok es] "1.prems" i obtain fs where "es = (ends @ [i + 1]) @ fs"
        "i + 1 < length al \<longrightarrow> (\<exists>e fs'. fs = e # fs' \<and> i + 1 < e \<and> increasing e fs' (length al))"
        "i + 1 = length al \<longrightarrow> fs = []"
        by auto
      then show ?thesis using step [of "i + 1" fs] i by auto
    next
      case finr
      have eq: "end_points_loop tm r al i w ends = (case self_loops_end tm al i of
          Inl e \<Rightarrow> Inl e | Inr j \<Rightarrow> end_points_loop tm r al (j + 1) w (ends @ [j + 1]))"
        by (subst simps) (simp add: finr i)
      with "1.prems" obtain j where j: "self_loops_end tm al i = Inr j"
        by (auto split: sum.splits)
      then have b: "i \<le> j" "j < length al" using self_loops_end_bounds i by blast+
      from "1.IH"(2) [OF i finr(1) _ j, of ok es] "1.prems" j b finr eq
      obtain fs where "es = (ends @ [j + 1]) @ fs"
        "j + 1 < length al \<longrightarrow> (\<exists>e fs'. fs = e # fs' \<and> j + 1 < e \<and> increasing e fs' (length al))"
        "j + 1 = length al \<longrightarrow> fs = []"
        by auto
      then show ?thesis using step [of "j + 1" fs] i b by auto
    next
      case last
      with "1.IH"(3) [OF i last, of ok es] "1.prems" i obtain fs where
        "es = (ends @ [i + 1]) @ fs" "i + 1 = length al \<longrightarrow> fs = []"
        by (auto simp: simps)
      then show ?thesis using step [of "i + 1" fs] i last by auto
    next
      case same
      then have "i + 1 < length al" using i by simp
      moreover obtain fs where "es = ends @ fs"
        "i + 1 < length al \<longrightarrow> (\<exists>e fs'. fs = e # fs' \<and> i + 1 < e \<and> increasing e fs' (length al))"
        using "1.IH"(4,6) [OF i same(1,2) refl refl] "1.prems" i same
        by (auto simp: simps Let_def split: if_splits)
      ultimately show ?thesis by auto
    next
      case diff
      then have "i + 1 < length al" using i by simp
      moreover obtain fs where "es = (ends @ [i + 1]) @ fs"
        "i + 1 < length al \<longrightarrow> (\<exists>e fs'. fs = e # fs' \<and> i + 1 < e \<and> increasing e fs' (length al))"
        using "1.IH"(5) [OF i diff(1,2) refl refl diff(3,4), of ok es] "1.prems" i diff
        by (auto simp: simps Let_def)
      ultimately show ?thesis using step [of "i + 1" fs] by auto
    qed
  qed
qed

lemma self_loops_end_Inl: "self_loops_end tm al i = Inl e \<Longrightarrow> e = AssertFailed"
  by (induction tm al i rule: self_loops_end.induct)
    (simp add: self_loops_end.simps split: if_splits)

lemma end_points_done [simp]: "end_points_loop tm r al (length al) w ends = Inr (w, ends)"
  by (subst end_points_loop.simps) simp

lemma end_points_Inl: "end_points_loop tm r al i w ends = Inl e \<Longrightarrow> e = AssertFailed"
proof (induction tm r al i w ends rule: end_points_loop.induct)
  case (1 tm r al i w ends)
  from "1.prems" show ?case
    by (subst (asm) end_points_loop.simps)
      (auto split: if_splits sum.splits simp: Let_def dest: self_loops_end_Inl "1.IH")
qed

lemma reordered_Inl: "reordered_loop tm al = Inl e \<Longrightarrow> e = KaldiError"
  by (induction tm al rule: reordered_loop.induct) (auto split: if_splits)

text \<open>
  Whatever the alignment, a split that does not fail an assertion cuts it into consecutive
  non-empty pieces: nothing is lost or repeated, and no access is outside a vector.
\<close>

theorem split_is_partition:
  "(\<forall>ok ps. SplitToPhones tm al = Inr (ok, ps) \<longrightarrow> concat ps = al \<and> [] \<notin> set ps)
   \<and> (\<forall>e. SplitToPhones tm al = Inl e \<longrightarrow> e = KaldiError \<or> e = AssertFailed)"
proof -
  have internal: "(\<exists>ok ps. SplitToPhonesInternal tm al r = Inr (ok, ps) \<and> concat ps = al \<and> [] \<notin> set ps)
      \<or> SplitToPhonesInternal tm al r = Inl AssertFailed" for r
  proof (cases "al = []")
    case True
    then show ?thesis
      by (intro disjI1 exI [of _ True] exI [of _ "[]"]) (simp add: SplitToPhonesInternal_def)
  next
    case False
    show ?thesis
    proof (cases "end_points_loop tm r al 0 True []")
      case (Inl e)
      then show ?thesis using end_points_Inl [OF Inl] False by (simp add: SplitToPhonesInternal_def)
    next
      case (Inr res)
      obtain w es where we: "res = (w, es)" by fastforce
      from end_points_increasing [of tm r al 0 True "[]" w es] Inr we False
      have "increasing 0 es (length al)" by auto
      from split_parts_total [OF this, of tm w] show ?thesis
        using Inr we False by (auto simp: SplitToPhonesInternal_def)
    qed
  qed
  show ?thesis
  proof (cases "IsReordered tm al")
    case (Inl e)
    then have "e = KaldiError"
      using reordered_Inl [of tm al]
      by (auto simp: IsReordered_def split: sum.splits option.splits if_splits)
    then show ?thesis using Inl by (simp add: SplitToPhones_def)
  next
    case (Inr r)
    then have "SplitToPhones tm al = SplitToPhonesInternal tm al r" by (simp add: SplitToPhones_def)
    with internal [of r] show ?thesis by auto
  qed
qed

section \<open>Alignments made of phones\<close>

text \<open>
  One phone of an alignment: transitions that are not final, of one phone, then a final one,
  then, if transitions were reordered, self-loops of the final state; the first one leaves
  state 0 of the phone's model.
\<close>

definition is_phone :: "tmodel \<Rightarrow> bool \<Rightarrow> int list \<Rightarrow> bool" where
  "is_phone tm r p \<longleftrightarrow> (\<exists>q f ls. p = q @ f # ls \<and> (r \<or> ls = []) \<and> is_final_tid tm f
     \<and> (\<forall>x \<in> set q. \<not> is_final_tid tm x
          \<and> state_phone tm (tid_state tm x) = state_phone tm (tid_state tm f))
     \<and> (\<forall>x \<in> set ls. is_self_loop tm x \<and> tid_state tm x = tid_state tm f)
     \<and> state_hmm tm (tid_state tm (hd p)) = 0)"

fun phones_ok :: "tmodel \<Rightarrow> bool \<Rightarrow> int list list \<Rightarrow> bool" where
  "phones_ok tm r [] \<longleftrightarrow> True"
| "phones_ok tm r (p # ps) \<longleftrightarrow> is_phone tm r p
     \<and> (r \<longrightarrow> (\<forall>p' ps'. ps = p' # ps' \<longrightarrow> \<not> is_self_loop tm (hd p'))) \<and> phones_ok tm r ps"

lemma is_phone_not_Nil: "is_phone tm r p \<Longrightarrow> p \<noteq> []"
  by (auto simp: is_phone_def)

lemma self_loops_end_run:
  "al = xs @ f # ls @ ys \<Longrightarrow> \<forall>x \<in> set ls. is_self_loop tm x \<and> tid_state tm x = tid_state tm f \<Longrightarrow>
     (ys = [] \<or> \<not> is_self_loop tm (hd ys)) \<Longrightarrow>
     self_loops_end tm al (length xs) = Inr (length xs + length ls)"
proof (induction ls arbitrary: xs f)
  case Nil
  then have "\<not> (length xs + 1 < length al \<and> is_self_loop tm (al ! (length xs + 1)))"
    by (cases ys) (auto simp: nth_append)
  then have "self_loops_end tm al (length xs) = Inr (length xs)"
    by (subst self_loops_end.simps) (simp only: if_False)
  then show ?case by simp
next
  case (Cons l ls)
  have "al = (xs @ [f]) @ l # ls @ ys" using Cons.prems(1) by simp
  from Cons.IH [OF this] Cons.prems(2,3)
  have "self_loops_end tm al (length (xs @ [f])) = Inr (length (xs @ [f]) + length ls)" by auto
  moreover have "length xs + 1 < length al \<and> is_self_loop tm (al ! (length xs + 1))
      \<and> tid_state tm (al ! length xs) = tid_state tm (al ! (length xs + 1))"
    using Cons.prems(1,2) by (auto simp: nth_append)
  then have "self_loops_end tm al (length xs) = self_loops_end tm al (length xs + 1)"
    by (subst self_loops_end.simps) (simp only: if_True simp_thms)
  ultimately show ?case by simp
qed

lemma end_points_skip:
  "al = xs @ q @ f # ys \<Longrightarrow> \<forall>x \<in> set q. \<not> is_final_tid tm x
      \<and> state_phone tm (tid_state tm x) = state_phone tm (tid_state tm f) \<Longrightarrow>
     end_points_loop tm r al (length xs) w ends = end_points_loop tm r al (length xs + length q) w ends"
proof (induction q arbitrary: xs)
  case (Cons x q)
  have al: "al = (xs @ [x]) @ q @ f # ys" using Cons.prems(1) by simp
  have nx: "al ! length xs = x" "length xs < length al" "length xs + 1 < length al"
    using Cons.prems(1) by (auto simp: nth_append)
  have "al ! (length xs + 1) = hd (q @ [f])"
    using Cons.prems(1) by (cases q) (auto simp: nth_append)
  moreover have "hd (q @ [f]) \<in> set (q @ [f])" by (cases q) auto
  ultimately have "state_phone tm (tid_state tm (al ! (length xs + 1)))
      = state_phone tm (tid_state tm x)"
    using Cons.prems(2) by auto
  then have "end_points_loop tm r al (length xs) w ends
      = end_points_loop tm r al (length (xs @ [x])) w ends"
    using Cons.prems(2) nx
    by (subst end_points_loop.simps) (simp add: Let_def)
  with Cons.IH [OF al] Cons.prems(2) show ?case by simp
qed simp

fun ends_of :: "nat \<Rightarrow> int list list \<Rightarrow> nat list" where
  "ends_of n [] = []"
| "ends_of n (p # ps) = (n + length p) # ends_of (n + length p) ps"

lemma end_points_phones:
  "phones_ok tm r ps \<Longrightarrow> al = xs @ concat ps \<Longrightarrow>
     end_points_loop tm r al (length xs) w ends = Inr (w, ends @ ends_of (length xs) ps)"
proof (induction ps arbitrary: xs ends)
  case Nil
  then show ?case by (subst end_points_loop.simps) simp
next
  case (Cons p ps)
  from Cons.prems(1) obtain q f ls where p: "p = q @ f # ls" "r \<or> ls = []" "is_final_tid tm f"
    "\<forall>x \<in> set q. \<not> is_final_tid tm x
        \<and> state_phone tm (tid_state tm x) = state_phone tm (tid_state tm f)"
    "\<forall>x \<in> set ls. is_self_loop tm x \<and> tid_state tm x = tid_state tm f"
    by (auto simp: is_phone_def)
  let ?i = "length xs + length q"
  have al: "al = xs @ q @ f # (ls @ concat ps)" using Cons.prems(2) p(1) by simp
  have i: "?i < length al" "al ! ?i = f" using al by (auto simp: nth_append)
  have ne: "hd (concat ps) = hd (hd ps)" if "ps \<noteq> []"
    using that Cons.prems(1) is_phone_not_Nil by (cases ps) auto
  have "end_points_loop tm r al (length xs) w ends = end_points_loop tm r al ?i w ends"
    by (rule end_points_skip [OF al p(4)])
  also have "\<dots> = end_points_loop tm r al (length (xs @ p)) w (ends @ [length (xs @ p)])"
  proof (cases r)
    case True
    have "concat ps = [] \<or> \<not> is_self_loop tm (hd (concat ps))"
      using Cons.prems(1) True ne by (cases ps) auto
    then have "self_loops_end tm al ?i = Inr (?i + length ls)"
      using self_loops_end_run [of al "xs @ q" f ls "concat ps" tm] al p(5) by simp
    then show ?thesis using True i p(1,3)
      by (subst end_points_loop.simps) (simp add: add.assoc)
  next
    case False
    then show ?thesis using i p(1-3) by (subst end_points_loop.simps) simp
  qed
  also have "\<dots> = Inr (w, (ends @ [length (xs @ p)]) @ ends_of (length (xs @ p)) ps)"
    using Cons.prems by (intro Cons.IH) auto
  finally show ?case by simp
qed

lemma split_parts_phones:
  "phones_ok tm r ps \<Longrightarrow> al = xs @ concat ps \<Longrightarrow>
     split_parts tm al (length xs) w (ends_of (length xs) ps) = Inr (w, ps)"
proof (induction ps arbitrary: xs)
  case (Cons p ps)
  have p: "p \<noteq> []" "state_hmm tm (tid_state tm (hd p)) = 0"
    using Cons.prems(1) by (auto simp: is_phone_def)
  have al: "al = (xs @ p) @ concat ps" using Cons.prems(2) by simp
  have "map ((!) al) [length xs..<length xs + length p] = p"
    by (rule nth_equalityI) (auto simp: al nth_append)
  moreover have "al ! length xs = hd p" using p(1) by (cases p) (auto simp: al nth_append)
  moreover have "length xs < length al" "length xs + length p \<le> length al" using p(1) al by auto
  ultimately show ?case using Cons.IH [OF _ al] Cons.prems(1) p by simp
qed simp

text \<open>
  C23. An alignment that consists of phones is split into exactly these phones and passes the
  consistency checks, with or without reordered self-loops.
\<close>

theorem split_finds_phones:
  assumes "phones_ok tm r ps"
  shows "SplitToPhonesInternal tm (concat ps) r = Inr (True, ps)"
proof (cases "concat ps = []")
  case True
  then have "ps = []" using assms by (cases ps) (auto simp: is_phone_def)
  then show ?thesis by (simp add: SplitToPhonesInternal_def)
next
  case False
  then show ?thesis
    using end_points_phones [OF assms, of "concat ps" "[]" True "[]"]
      split_parts_phones [OF assms, of "concat ps" "[]" True]
    by (simp add: SplitToPhonesInternal_def del: concat_eq_Nil_conv)
qed

section \<open>Witnesses\<close>

text \<open>Two phones of two states each; a transition number is 10 times its state, plus 1 for a
  self-loop, plus 2 for a final transition.\<close>

definition toy_tm :: tmodel where
  "toy_tm = \<lparr>tid_state = (\<lambda>t. t div 10), is_self_loop = (\<lambda>t. t mod 10 = 1),
     is_final_tid = (\<lambda>t. t mod 10 = 2), state_phone = (\<lambda>s. s div 10), state_hmm = (\<lambda>s. s mod 10),
     tid_phone = (\<lambda>t. t div 100)\<rparr>"

theorem split_is_partition_witness:
  "concat [[101, 100, 112], [200, 212 :: int]] = [101, 100, 112, 200, 212]
   \<and> SplitToPhones toy_tm [101, 100, 112, 200, 212] = Inr (True, [[101, 100, 112], [200, 212]])"
proof -
  have "SplitToPhones toy_tm [101, 100, 112, 200, 212] = Inr (True, [[101, 100, 112], [200, 212]])"
    by code_simp
  with split_is_partition [of toy_tm "[101, 100, 112, 200, 212]"] show ?thesis by blast
qed

theorem split_finds_phones_witness:
  "SplitToPhonesInternal toy_tm (concat [[100, 112, 111], [200, 212]]) True
     = Inr (True, [[100, 112, 111], [200, 212]])"
proof (rule split_finds_phones)
  have "is_phone toy_tm True [100, 112, 111]"
    unfolding is_phone_def by (rule exI [of _ "[100]"]) (auto simp: toy_tm_def)
  moreover have "is_phone toy_tm True [200, 212]"
    unfolding is_phone_def by (rule exI [of _ "[200]"]) (auto simp: toy_tm_def)
  ultimately show "phones_ok toy_tm True [[100, 112, 111], [200, 212]]"
    by (simp add: toy_tm_def)
qed

end
