(* ===== verification/Windows.thy ===== *)
theory Windows
  imports Prelude
begin

text \<open>
  Windows over a stream of feature vectors, as the normalisation, the LDA and the delta input
  keep them: an interface with one operation, which appends a vector and drops the oldest,
  and the arithmetic of circular buffers.
\<close>

locale sliding_window =
  fixes push :: "'b \<Rightarrow> 'a \<Rightarrow> 'b"
    and win :: "'b \<Rightarrow> 'a list"
    and ok :: "'b \<Rightarrow> bool"
  assumes push_ok: "ok b \<Longrightarrow> ok (push b x)"
    and push_win: "ok b \<Longrightarrow> win (push b x) = tl (win b) @ [x]"
    and win_not_Nil: "ok b \<Longrightarrow> win b \<noteq> []"
begin

lemma pushes_ok: "ok b \<Longrightarrow> ok (foldl push b xs)"
  by (induction xs arbitrary: b) (simp_all add: push_ok)

lemma win_push_length: "ok b \<Longrightarrow> length (win (push b x)) = length (win b)"
  using push_win [of b x] win_not_Nil [of b] by (cases "win b") simp_all

lemma pushes_win: "ok b \<Longrightarrow> win (foldl push b xs) = drop (length xs) (win b @ xs)"
proof (induction xs arbitrary: b)
  case (Cons x xs)
  have "win (foldl push (push b x) xs) = drop (length xs) ((tl (win b) @ [x]) @ xs)"
    using Cons.IH [OF push_ok [OF Cons.prems]] by (simp only: push_win [OF Cons.prems])
  moreover have "win b @ x # xs = hd (win b) # (tl (win b) @ [x]) @ xs"
    using win_not_Nil [OF Cons.prems] by simp
  then have "drop (length (x # xs)) (win b @ x # xs) = drop (length xs) ((tl (win b) @ [x]) @ xs)"
    by (metis drop_Suc_Cons length_Cons)
  ultimately show ?case by (simp only: foldl_Cons)
qed simp

lemma pushes_win_length: "ok b \<Longrightarrow> length (win (foldl push b xs)) = length (win b)"
  by (simp add: pushes_win)

text \<open>The window while the vectors come in, one after the other.\<close>

fun windows :: "'b \<Rightarrow> 'a list \<Rightarrow> 'a list list" where
  "windows b [] = []"
| "windows b (x # xs) = win (push b x) # windows (push b x) xs"

lemma windows_nth: "ok b \<Longrightarrow> i < length xs \<Longrightarrow>
    windows b xs ! i = take (length (win b)) (drop (Suc i) (win b @ xs))"
proof (induction xs arbitrary: b i)
  case (Cons x xs)
  have len: "length (win (push b x)) = length (win b)" using Cons.prems by (simp add: win_push_length)
  have split: "win b @ x # xs = hd (win b) # win (push b x) @ xs"
    using win_not_Nil [OF Cons.prems(1)] by (simp add: push_win [OF Cons.prems(1)])
  show ?case
  proof (cases i)
    case 0
    have "drop (Suc 0) (win b @ x # xs) = win (push b x) @ xs" using split by (metis drop0 drop_Suc_Cons)
    then show ?thesis using 0 len by (simp del: drop_append)
  next
    case (Suc j)
    have "windows (push b x) xs ! j = take (length (win (push b x))) (drop (Suc j) (win (push b x) @ xs))"
      using Cons.prems Suc by (intro Cons.IH) (auto intro: push_ok)
    moreover have "drop (Suc (Suc j)) (win b @ x # xs) = drop (Suc j) (win (push b x) @ xs)"
      using split by (metis drop_Suc_Cons)
    ultimately show ?thesis using len Suc by (simp del: drop_append)
  qed
qed simp

lemma windows_length [simp]: "length (windows b xs) = length xs"
  by (induction xs arbitrary: b) simp_all

lemma windows_append: "windows b (xs @ ys) = windows b xs @ windows (foldl push b xs) ys"
  by (induction xs arbitrary: b) simp_all

end

section \<open>Circular buffers\<close>

definition ring_contents :: "'a list \<Rightarrow> nat \<Rightarrow> 'a list" where
  "ring_contents cells oldest = drop oldest cells @ take oldest cells"

lemma length_ring_contents [simp]: "oldest \<le> length cells \<Longrightarrow> length (ring_contents cells oldest) = length cells"
  by (simp add: ring_contents_def)

lemma ring_push:
  assumes "oldest < length cells"
  shows "ring_contents (cells[oldest := x]) ((oldest + 1) mod length cells)
    = tl (ring_contents cells oldest) @ [x]"
proof (cases "oldest + 1 = length cells")
  case True
  then have "cells[oldest := x] = take oldest cells @ [x]"
    using assms by (simp add: upd_conv_take_nth_drop)
  moreover have "tl (drop oldest cells) = []" using True by (simp add: tl_drop drop_Suc [symmetric])
  ultimately show ?thesis
    using True by (simp add: ring_contents_def)
next
  case False
  with assms have m: "Suc oldest mod length cells = Suc oldest" by simp
  have "drop oldest cells \<noteq> []" using assms by simp
  then have "tl (ring_contents cells oldest) = drop (oldest + 1) cells @ take oldest cells"
    by (simp add: ring_contents_def tl_drop drop_Suc)
  moreover have "take (oldest + 1) (cells[oldest := x]) = take oldest cells @ [x]"
    using assms by (simp add: take_Suc_conv_app_nth)
  ultimately show ?thesis by (simp add: m ring_contents_def)
qed

lemma set_ring_contents: "oldest \<le> length cells \<Longrightarrow> set (ring_contents cells oldest) = set cells"
  by (simp add: ring_contents_def) (metis Un_commute append_take_drop_id set_append)

text \<open>Sums over a circular buffer do not depend on where it starts.\<close>

lemma sum_list_ring: "sum_list (map f (ring_contents cells oldest)) = (sum_list (map f cells) :: 'm::comm_monoid_add)"
proof -
  have "sum_list (map f cells) = sum_list (map f (take oldest cells)) + sum_list (map f (drop oldest cells))"
    by (metis append_take_drop_id map_append sum_list_append)
  then show ?thesis by (simp add: ring_contents_def add.commute)
qed

end
