(* ===== verification/Cmn.thy ===== *)
theory Cmn
  imports Windows
begin

text \<open>
  Cepstral mean and variance normalisation (\<open>online-cmn.cc\<close>). A feature vector is a list of
  \<open>dim\<close> numbers, a matrix its number of columns with its rows. Numbers are exact reals.
\<close>

section \<open>Vectors and matrices\<close>

type_synonym vec = "real list"

record matrix =
  num_cols :: nat
  rows :: "vec list"

definition vec_add :: "vec \<Rightarrow> vec \<Rightarrow> vec" where
  "vec_add u v = map2 (+) u v"

definition vec_sub :: "vec \<Rightarrow> vec \<Rightarrow> vec" where
  "vec_sub u v = map2 (-) u v"

definition vec_zero :: "nat \<Rightarrow> vec" where
  "vec_zero n = replicate n 0"

definition vec_sum :: "nat \<Rightarrow> vec list \<Rightarrow> vec" where
  "vec_sum n vs = foldl vec_add (vec_zero n) vs"

lemma length_vec [simp]:
  "length (vec_add u v) = min (length u) (length v)"
  "length (vec_sub u v) = min (length u) (length v)" "length (vec_zero n) = n"
  by (simp_all add: vec_add_def vec_sub_def vec_zero_def)

lemma nth_vec [simp]:
  "d < length u \<Longrightarrow> d < length v \<Longrightarrow> vec_add u v ! d = u ! d + v ! d"
  "d < length u \<Longrightarrow> d < length v \<Longrightarrow> vec_sub u v ! d = u ! d - v ! d"
  "d < n \<Longrightarrow> vec_zero n ! d = 0"
  by (simp_all add: vec_add_def vec_sub_def vec_zero_def)

lemma length_vec_sum: "\<forall>v \<in> set vs. length v = n \<Longrightarrow> length (vec_sum n vs) = n"
proof -
  have "\<forall>v \<in> set vs. length v = n \<Longrightarrow> length u = n \<Longrightarrow> length (foldl vec_add u vs) = n" for u
    by (induction vs arbitrary: u) simp_all
  then show "\<forall>v \<in> set vs. length v = n \<Longrightarrow> ?thesis" by (simp add: vec_sum_def)
qed

lemma nth_vec_sum:
  "\<forall>v \<in> set vs. length v = n \<Longrightarrow> d < n \<Longrightarrow> vec_sum n vs ! d = sum_list (map (\<lambda>v. v ! d) vs)"
proof -
  have "\<forall>v \<in> set vs. length v = n \<Longrightarrow> d < n \<Longrightarrow> length u = n \<Longrightarrow>
      foldl vec_add u vs ! d = u ! d + sum_list (map (\<lambda>v. v ! d) vs)" for u
    by (induction vs arbitrary: u) simp_all
  then show "\<forall>v \<in> set vs. length v = n \<Longrightarrow> d < n \<Longrightarrow> ?thesis" by (simp add: vec_sum_def)
qed

section \<open>OnlineCMN\<close>

record cmn =
  oldest_row :: nat
  cdim :: nat
  hist :: nat
  stats :: "vec list"
  norm_vec :: vec
  features_cached :: nat

definition OnlineCMN_new :: "nat \<Rightarrow> nat \<Rightarrow> cmn" where
  "OnlineCMN_new d h = \<lparr>oldest_row = 0, cdim = d, hist = h,
     stats = replicate h (vec_zero d), norm_vec = [], features_cached = 0\<rparr>"

text \<open>The loop that fills the history: the state and the rows that are left.\<close>

fun fill_history :: "cmn \<Rightarrow> vec list \<Rightarrow> cmn \<times> vec list" where
  "fill_history c [] = (c, [])"
| "fill_history c (r # rs) =
     (if features_cached c < hist c then
        fill_history (c\<lparr>stats := (stats c)[features_cached c := r],
          features_cached := features_cached c + 1\<rparr>) rs
      else (c, r # rs))"

definition replace_oldest :: "cmn \<Rightarrow> vec \<Rightarrow> cmn" where
  "replace_oldest c r = c\<lparr>stats := (stats c)[oldest_row c := r],
     oldest_row := (oldest_row c + 1) mod hist c\<rparr>"

definition ComputeMean :: "cmn \<Rightarrow> vec list \<Rightarrow> vec list" where
  "ComputeMean c feats =
     (let sum = vec_sum (cdim c) (take (features_cached c) (stats c));
          norm = map (\<lambda>x. x / real (features_cached c)) sum
      in map (\<lambda>f. vec_sub f norm) feats)"

text \<open>
  \<open>Compute\<close>: the mean and the inverse standard deviation over the cached rows. An element of
  zero variance becomes infinite or not a number, which is the result \<^const>\<open>None\<close>.
\<close>

definition cmvn_mean :: "cmn \<Rightarrow> vec" where
  "cmvn_mean c = map (\<lambda>x. x * (1 / real (features_cached c)))
     (vec_sum (cdim c) (take (features_cached c) (stats c)))"

definition cmvn_var :: "cmn \<Rightarrow> vec" where
  "cmvn_var c = map2 (\<lambda>x m. x * (1 / real (features_cached c)) - m * m)
     (vec_sum (cdim c) (map (map (\<lambda>x. x * x)) (take (features_cached c) (stats c)))) (cmvn_mean c)"

definition CMN_Compute :: "cmn \<Rightarrow> vec list \<Rightarrow> vec list option" where
  "CMN_Compute c feats =
     (let m = cmvn_mean c; var = cmvn_var c in
      if feats \<noteq> [] \<and> 0 \<in> set var then None
      else Some (map (\<lambda>f. map2 (*) (vec_sub f m) (map (\<lambda>x. sqrt (1 / x)) var)) feats))"

definition ApplyCmvn2 :: "cmn \<Rightarrow> matrix \<Rightarrow> fault + vec list option \<times> cmn" where
  "ApplyCmvn2 c feats =
     (if num_cols feats \<noteq> cdim c then Inl KaldiError
      else case fill_history c (rows feats) of (c1, rest) \<Rightarrow>
        let c2 = foldl replace_oldest c1 rest in Inr (CMN_Compute c2 (rows feats), c2))"

text \<open>\<open>ApplyCmvn\<close>: the rolling mean, updated row by row.\<close>

definition roll_mean :: "cmn \<Rightarrow> vec \<Rightarrow> cmn" where
  "roll_mean c r = replace_oldest (c\<lparr>norm_vec :=
     map2 (\<lambda>(n, s) x. n - s / real (hist c) + x / real (hist c))
       (zip (norm_vec c) (stats c ! oldest_row c)) r\<rparr>) r"

definition ApplyCmvn :: "cmn \<Rightarrow> matrix \<Rightarrow> fault + vec list \<times> cmn" where
  "ApplyCmvn c feats =
     (if num_cols feats \<noteq> cdim c then Inl KaldiError
      else case fill_history c (rows feats) of (c1, rest) \<Rightarrow>
        if features_cached c1 \<noteq> hist c1 then Inr (ComputeMean c1 (rows feats), c1)
        else let c2 = (if norm_vec c1 = [] then
                 c1\<lparr>norm_vec := map (\<lambda>x. x / real (hist c1)) (vec_sum (cdim c1) (take (hist c1) (stats c1)))\<rparr>
               else c1);
               c3 = foldl roll_mean c2 rest
          in Inr (map (\<lambda>f. vec_sub f (norm_vec c3)) (rows feats), c3))"

section \<open>The history window\<close>

text \<open>The vectors that count, oldest first: all seen until the history is full, then the last
  ones.\<close>

definition history :: "cmn \<Rightarrow> vec list" where
  "history c = (if features_cached c < hist c then take (features_cached c) (stats c)
     else ring_contents (stats c) (oldest_row c))"

definition cmn_ok :: "cmn \<Rightarrow> bool" where
  "cmn_ok c \<longleftrightarrow> 0 < hist c \<and> length (stats c) = hist c \<and> features_cached c \<le> hist c
     \<and> oldest_row c < hist c \<and> (features_cached c < hist c \<longrightarrow> oldest_row c = 0)
     \<and> (\<forall>r \<in> set (stats c). length r = cdim c)"

definition cmn_full :: "cmn \<Rightarrow> bool" where
  "cmn_full c \<longleftrightarrow> 0 < hist c \<and> length (stats c) = hist c \<and> features_cached c = hist c
     \<and> oldest_row c < hist c"

lemma replace_oldest_simps [simp]:
  "cdim (replace_oldest c r) = cdim c" "hist (replace_oldest c r) = hist c"
  "features_cached (replace_oldest c r) = features_cached c" "norm_vec (replace_oldest c r) = norm_vec c"
  by (simp_all add: replace_oldest_def)

interpretation cmnwin: sliding_window replace_oldest history cmn_full
proof
  fix c :: cmn and r
  assume ok: "cmn_full c"
  show "cmn_full (replace_oldest c r)" using ok by (simp add: cmn_full_def replace_oldest_def)
  show "history (replace_oldest c r) = tl (history c) @ [r]"
    using ok ring_push [of "oldest_row c" "stats c" r]
    by (simp add: history_def cmn_full_def replace_oldest_def)
  show "history c \<noteq> []" using ok
    by (auto simp: history_def cmn_full_def ring_contents_def)
qed

definition last_n :: "nat \<Rightarrow> 'a list \<Rightarrow> 'a list" where
  "last_n n xs = drop (length xs - n) xs"

lemma last_n_append: "last_n n (last_n n xs @ ys) = last_n n (xs @ ys)"
proof (cases "length xs \<le> n")
  case True
  then show ?thesis by (simp add: last_n_def)
next
  case False
  then have "length xs - n + n = length xs" by simp
  then show ?thesis by (simp add: last_n_def add.commute)
qed

lemma fill_history_props:
  "cmn_ok c \<Longrightarrow> \<forall>r \<in> set rs. length r = cdim c \<Longrightarrow> fill_history c rs = (c', rest) \<Longrightarrow>
     cmn_ok c' \<and> cdim c' = cdim c \<and> hist c' = hist c \<and> norm_vec c' = norm_vec c
     \<and> (rest \<noteq> [] \<longrightarrow> features_cached c' = hist c) \<and> set rest \<subseteq> set rs
     \<and> history c' @ rest = history c @ rs \<and> (features_cached c = hist c \<longrightarrow> c' = c)
     \<and> length (history c') = features_cached c'"
proof (induction rs arbitrary: c)
  case Nil
  then show ?case by (auto simp: cmn_ok_def history_def)
next
  case (Cons r rs)
  show ?case
  proof (cases "features_cached c < hist c")
    case False
    then show ?thesis using Cons.prems by (auto simp: cmn_ok_def history_def)
  next
    case True
    let ?c = "c\<lparr>stats := (stats c)[features_cached c := r], features_cached := features_cached c + 1\<rparr>"
    have "\<forall>x \<in> set ((stats c)[features_cached c := r]). length x = cdim c"
      using Cons.prems(1,2) set_update_subset_insert [of "stats c" "features_cached c" r]
      unfolding cmn_ok_def by fastforce
    then have ok: "cmn_ok ?c"
      using Cons.prems(1) True by (simp add: cmn_ok_def)
    have "history ?c = history c @ [r]"
      using Cons.prems(1) True
      by (auto simp: history_def cmn_ok_def ring_contents_def take_Suc_conv_app_nth
          upd_conv_take_nth_drop)
    then show ?thesis using Cons.IH [OF ok] Cons.prems(2,3) True by auto
  qed
qed

lemma pushes_props:
  "cmn_ok c \<Longrightarrow> features_cached c = hist c \<Longrightarrow> \<forall>r \<in> set rs. length r = cdim c \<Longrightarrow>
     cmn_ok (foldl replace_oldest c rs) \<and> cdim (foldl replace_oldest c rs) = cdim c
     \<and> hist (foldl replace_oldest c rs) = hist c
     \<and> features_cached (foldl replace_oldest c rs) = features_cached c"
proof (induction rs arbitrary: c)
  case (Cons r rs)
  have "\<forall>x \<in> set ((stats c)[oldest_row c := r]). length x = cdim c"
    using Cons.prems set_update_subset_insert [of "stats c" "oldest_row c" r]
    unfolding cmn_ok_def by fastforce
  then have "cmn_ok (replace_oldest c r)"
    using Cons.prems(1,2) by (simp add: cmn_ok_def replace_oldest_def)
  then show ?case using Cons.IH [of "replace_oldest c r"] Cons.prems by simp
qed simp

lemma cmn_full_iff: "cmn_ok c \<Longrightarrow> cmn_full c \<longleftrightarrow> features_cached c = hist c"
  by (auto simp: cmn_ok_def cmn_full_def)

lemma history_all_length: "cmn_ok c \<Longrightarrow> \<forall>r \<in> set (history c). length r = cdim c"
  by (auto simp: history_def cmn_ok_def set_ring_contents dest: in_set_takeD)

lemma sum_history:
  assumes "cmn_ok c"
  shows "sum_list (map f (take (features_cached c) (stats c))) = (sum_list (map f (history c)) :: real)"
    and "length (history c) = features_cached c"
  using assms by (auto simp: history_def cmn_ok_def sum_list_ring)

text \<open>What both methods leave behind: the last \<open>hist\<close> vectors of the stream.\<close>

lemma history_after:
  assumes ok: "cmn_ok c" and len: "\<forall>r \<in> set rs. length r = cdim c"
    and fill: "fill_history c rs = (c1, rest)"
  shows "let c2 = foldl replace_oldest c1 rest in cmn_ok c2 \<and> cdim c2 = cdim c \<and> hist c2 = hist c
    \<and> history c2 = last_n (hist c) (history c @ rs)"
proof -
  note props = fill_history_props [OF ok len fill]
  show ?thesis
  proof (cases "rest = []")
    case True
    have "length (history c1) \<le> hist c" using props by (auto simp: cmn_ok_def)
    then show ?thesis using True props by (auto simp: last_n_def Let_def)
  next
    case False
    then have full: "features_cached c1 = hist c1" "cmn_ok c1" using props by auto
    then have "history (foldl replace_oldest c1 rest) = drop (length rest) (history c1 @ rest)"
      using cmnwin.pushes_win [of c1 rest] cmn_full_iff by blast
    moreover have "history c1 @ rest = history c @ rs" "length (history c1) = hist c"
      using props full False by auto
    moreover have "\<forall>r \<in> set rest. length r = cdim c1" using props len by auto
    ultimately show ?thesis
      using pushes_props [OF full(2,1), of rest] props
      unfolding last_n_def Let_def by (metis add_diff_cancel_left' length_append)
  qed
qed

section \<open>The normalised features\<close>

definition mean :: "real list \<Rightarrow> real" where
  "mean xs = sum_list xs / real (length xs)"

definition variance :: "real list \<Rightarrow> real" where
  "variance xs = sum_list (map (\<lambda>x. (x - mean xs) * (x - mean xs)) xs) / real (length xs)"

definition column :: "nat \<Rightarrow> vec list \<Rightarrow> real list" where
  "column d vs = map (\<lambda>v. v ! d) vs"

lemma variance_squares:
  assumes "xs \<noteq> []"
  shows "variance xs = sum_list (map (\<lambda>x. x * x) xs) / real (length xs) - mean xs * mean xs"
proof -
  let ?n = "real (length xs)" and ?m = "mean xs"
  have n: "?n \<noteq> 0" using assms by simp
  have "sum_list (map (\<lambda>x. (x - m) * (x - m)) xs)
      = sum_list (map (\<lambda>x. x * x) xs) - 2 * m * sum_list xs + real (length xs) * (m * m)" for m
    by (induction xs) (simp_all add: algebra_simps)
  from this [of ?m] have expand: "sum_list (map (\<lambda>x. (x - ?m) * (x - ?m)) xs)
      = sum_list (map (\<lambda>x. x * x) xs) - 2 * ?m * sum_list xs + ?n * (?m * ?m)" .
  have "sum_list xs = ?n * ?m" using n by (simp add: mean_def)
  then have "2 * ?m * sum_list xs = ?n * (?m * ?m) + ?n * (?m * ?m)" by simp
  with expand have "sum_list (map (\<lambda>x. (x - ?m) * (x - ?m)) xs)
      = sum_list (map (\<lambda>x. x * x) xs) - ?n * (?m * ?m)" by linarith
  then show ?thesis using n by (simp add: variance_def diff_divide_distrib)
qed

lemma cmvn_lengths:
  assumes "cmn_ok c"
  shows "length (cmvn_mean c) = cdim c" "length (cmvn_var c) = cdim c"
proof -
  have len: "\<forall>r \<in> set (take (features_cached c) (stats c)). length r = cdim c"
    using assms by (auto simp: cmn_ok_def dest: in_set_takeD)
  then have len2: "\<forall>r \<in> set (map (map (\<lambda>x. x * x)) (take (features_cached c) (stats c))). length r = cdim c"
    by simp
  show "length (cmvn_mean c) = cdim c" using length_vec_sum [OF len] by (simp add: cmvn_mean_def)
  then show "length (cmvn_var c) = cdim c" using length_vec_sum [OF len2] by (simp add: cmvn_var_def)
qed

lemma cmvn_stats:
  assumes ok: "cmn_ok c" and d: "d < cdim c"
  shows "cmvn_mean c ! d = mean (column d (history c))"
    "history c \<noteq> [] \<Longrightarrow> cmvn_var c ! d = variance (column d (history c))"
proof -
  let ?rows = "take (features_cached c) (stats c)"
  have len: "\<forall>r \<in> set ?rows. length r = cdim c" using ok by (auto simp: cmn_ok_def dest: in_set_takeD)
  then have len2: "\<forall>r \<in> set (map (map (\<lambda>x. x * x)) ?rows). length r = cdim c" by simp
  have m: "cmvn_mean c ! d = sum_list (column d (history c)) / real (length (history c))"
    using length_vec_sum [OF len] nth_vec_sum [OF len d] sum_history [OF ok] d
    by (simp add: cmvn_mean_def column_def)
  then show mean: "cmvn_mean c ! d = mean (column d (history c))" by (simp add: mean_def column_def)
  assume ne: "history c \<noteq> []"
  have "vec_sum (cdim c) (map (map (\<lambda>x. x * x)) ?rows) ! d
      = sum_list (map (\<lambda>v. map (\<lambda>x. x * x) v ! d) ?rows)"
    using nth_vec_sum [OF len2 d] by (simp add: comp_def)
  also have "\<dots> = sum_list (map (\<lambda>v. v ! d * v ! d) ?rows)"
    using len d by (intro arg_cong [of _ _ sum_list] map_cong) auto
  also have "\<dots> = sum_list (map (\<lambda>x. x * x) (column d (history c)))"
    using sum_history(1) [OF ok] by (simp add: column_def comp_def)
  finally have sq: "vec_sum (cdim c) (map (map (\<lambda>x. x * x)) ?rows) ! d
      = sum_list (map (\<lambda>x. x * x) (column d (history c)))" .
  have "cmvn_var c ! d = sum_list (map (\<lambda>x. x * x) (column d (history c))) / real (length (history c))
      - mean (column d (history c)) * mean (column d (history c))"
    using length_vec_sum [OF len2] cmvn_lengths [OF ok] d sq mean sum_history(2) [OF ok]
    by (simp add: cmvn_var_def)
  then show "cmvn_var c ! d = variance (column d (history c))"
    using variance_squares [of "column d (history c)"] ne by (simp add: column_def)
qed

definition matrix_ok :: "nat \<Rightarrow> matrix \<Rightarrow> bool" where
  "matrix_ok d m \<longleftrightarrow> num_cols m = d \<and> (\<forall>r \<in> set (rows m). length r = d)"

lemma ApplyCmvn2_history:
  assumes ok: "cmn_ok c" and cols: "num_cols feats = cdim c" and len: "\<forall>r \<in> set (rows feats). length r = cdim c"
  shows "\<exists>out c'. ApplyCmvn2 c feats = Inr (out, c') \<and> cmn_ok c'
    \<and> history c' = last_n (hist c) (history c @ rows feats)
    \<and> (case out of
        None \<Rightarrow> \<exists>d < cdim c. variance (column d (history c')) = 0
      | Some ys \<Rightarrow> matrix_ok (cdim c) \<lparr>num_cols = cdim c, rows = ys\<rparr>
          \<and> length ys = length (rows feats) \<and> (\<forall>i < length (rows feats). \<forall>d < cdim c.
          ys ! i ! d = (rows feats ! i ! d - mean (column d (history c')))
            / sqrt (variance (column d (history c')))))"
proof -
  obtain c1 rest where f: "fill_history c (rows feats) = (c1, rest)" by fastforce
  define c2 where "c2 = foldl replace_oldest c1 rest"
  have c2: "cmn_ok c2" "cdim c2 = cdim c" "hist c2 = hist c"
    "history c2 = last_n (hist c) (history c @ rows feats)"
    using history_after [OF ok len f] by (simp_all add: c2_def Let_def)
  have A: "ApplyCmvn2 c feats = Inr (CMN_Compute c2 (rows feats), c2)"
    using cols f by (simp add: ApplyCmvn2_def c2_def Let_def)
  note lens = cmvn_lengths [OF c2(1), unfolded c2(2)]
  show ?thesis
  proof (cases "rows feats = []")
    case True
    then show ?thesis using A c2 by (auto simp: CMN_Compute_def Let_def matrix_ok_def)
  next
    case ne: False
    have "0 < hist c" using ok by (simp add: cmn_ok_def)
    moreover have "length (history c2) = min (hist c) (length (history c @ rows feats))"
      using c2(4) by (simp add: last_n_def)
    moreover have "0 < length (rows feats)" using ne by simp
    ultimately have "0 < length (history c2)" by simp
    then have hne: "history c2 \<noteq> []" by simp
    note st = cmvn_stats(1) [OF c2(1), unfolded c2(2)] cmvn_stats(2) [OF c2(1) _ hne, unfolded c2(2)]
    show ?thesis
    proof (cases "0 \<in> set (cmvn_var c2)")
      case True
      then obtain d where "d < length (cmvn_var c2)" "cmvn_var c2 ! d = 0" by (metis in_set_conv_nth)
      then have "variance (column d (history c2)) = 0" "d < cdim c" using st(2) lens by auto
      then show ?thesis using A c2 True ne by (auto simp: CMN_Compute_def Let_def)
    next
      case False
      let ?inv = "map (\<lambda>x. sqrt (1 / x)) (cmvn_var c2)"
      have at: "map2 (*) (vec_sub f (cmvn_mean c2)) ?inv ! d = (f ! d - mean (column d (history c2)))
            / sqrt (variance (column d (history c2)))" if "length f = cdim c" "d < cdim c" for f d
        using that lens st [OF that(2)] by (simp add: real_sqrt_divide)
      have "CMN_Compute c2 (rows feats)
          = Some (map (\<lambda>f. map2 (*) (vec_sub f (cmvn_mean c2)) ?inv) (rows feats))"
        using False by (simp add: CMN_Compute_def Let_def)
      moreover have "matrix_ok (cdim c) \<lparr>num_cols = cdim c,
          rows = map (\<lambda>f. map2 (*) (vec_sub f (cmvn_mean c2)) ?inv) (rows feats)\<rparr>"
        using len lens by (auto simp: matrix_ok_def)
      ultimately show ?thesis using A c2 at len by simp
    qed
  qed
qed

text \<open>
  C25. \<open>ApplyCmvn2\<close> keeps the last \<open>hist\<close> vectors of the stream, those of the batch included,
  and returns every vector of the batch with the mean subtracted and divided by the standard
  deviation of these, column by column; a result is missing only when a column is constant.
\<close>

theorem ApplyCmvn2_normalises:
  assumes ok: "cmn_ok c" and cols: "num_cols feats = cdim c" and len: "\<forall>r \<in> set (rows feats). length r = cdim c"
  shows "\<exists>out c'. ApplyCmvn2 c feats = Inr (out, c') \<and> cmn_ok c'
    \<and> history c' = last_n (hist c) (history c @ rows feats)
    \<and> (case out of
        None \<Rightarrow> \<exists>d < cdim c. variance (column d (history c')) = 0
      | Some ys \<Rightarrow> matrix_ok (cdim c) \<lparr>num_cols = cdim c, rows = ys\<rparr>
          \<and> length ys = length (rows feats) \<and> (\<forall>i < length (rows feats). \<forall>d < cdim c.
          ys ! i ! d = (rows feats ! i ! d - mean (column d (history c')))
            / sqrt (variance (column d (history c')))))"
  using assms by (rule ApplyCmvn2_history)

lemma row_sums:
  assumes ok: "cmn_ok c"
  shows "length (vec_sum (cdim c) (take (features_cached c) (stats c))) = cdim c"
    and "d < cdim c \<Longrightarrow> vec_sum (cdim c) (take (features_cached c) (stats c)) ! d / real (features_cached c)
      = mean (column d (history c))"
proof -
  have len: "\<forall>r \<in> set (take (features_cached c) (stats c)). length r = cdim c"
    using ok by (auto simp: cmn_ok_def dest: in_set_takeD)
  show "length (vec_sum (cdim c) (take (features_cached c) (stats c))) = cdim c"
    by (rule length_vec_sum [OF len])
  assume "d < cdim c"
  then show "vec_sum (cdim c) (take (features_cached c) (stats c)) ! d / real (features_cached c)
      = mean (column d (history c))"
    using nth_vec_sum [OF len] sum_history [OF ok] by (simp add: mean_def column_def)
qed

text \<open>The rolling mean is the mean of the history, once it has been computed.\<close>

definition mean_of_history :: "cmn \<Rightarrow> bool" where
  "mean_of_history c \<longleftrightarrow> length (norm_vec c) = cdim c
     \<and> (\<forall>d < cdim c. norm_vec c ! d = mean (column d (history c)))"

definition roll_ok :: "cmn \<Rightarrow> bool" where
  "roll_ok c \<longleftrightarrow> norm_vec c = [] \<or> features_cached c = hist c \<and> mean_of_history c"

lemma roll_mean_pushes:
  "roll_mean c r = replace_oldest (c\<lparr>norm_vec := norm_vec (roll_mean c r)\<rparr>) r"
  by (simp add: roll_mean_def)

lemma ignore_norm_vec [simp]:
  "history (c\<lparr>norm_vec := v\<rparr>) = history c" "cmn_ok (c\<lparr>norm_vec := v\<rparr>) = cmn_ok c"
  "cmn_full (c\<lparr>norm_vec := v\<rparr>) = cmn_full c"
  by (simp_all add: history_def cmn_ok_def cmn_full_def)

lemma roll_mean_step:
  assumes ok: "cmn_ok c" and full: "features_cached c = hist c" and m: "mean_of_history c"
    and r: "length r = cdim c"
  shows "cmn_ok (roll_mean c r)" "features_cached (roll_mean c r) = features_cached c"
    "cdim (roll_mean c r) = cdim c" "hist (roll_mean c r) = hist c"
    "history (roll_mean c r) = tl (history c) @ [r]" "mean_of_history (roll_mean c r)"
proof -
  let ?c = "c\<lparr>norm_vec := norm_vec (roll_mean c r)\<rparr>"
  have cf: "cmn_full ?c" using ok full cmn_full_iff by simp
  have p: "cmn_ok (foldl replace_oldest ?c [r])" using pushes_props [of ?c "[r]"] ok full r by simp
  then show "cmn_ok (roll_mean c r)" using roll_mean_pushes [of c r] by simp
  show same: "features_cached (roll_mean c r) = features_cached c"
    "cdim (roll_mean c r) = cdim c" "hist (roll_mean c r) = hist c" by (simp_all add: roll_mean_def)
  show h: "history (roll_mean c r) = tl (history c) @ [r]"
    using cmnwin.push_win [OF cf, of r] roll_mean_pushes [of c r] by simp
  have pos: "0 < hist c" "oldest_row c < length (stats c)" "length (stats c) = hist c"
    using ok by (simp_all add: cmn_ok_def)
  define x where "x = stats c ! oldest_row c"
  have hh: "history c = x # tl (history c)"
    using pos full by (simp add: x_def history_def ring_contents_def Cons_nth_drop_Suc [symmetric])
  have lenx: "length x = cdim c" using ok pos by (simp add: x_def cmn_ok_def)
  have len: "length (history c) = hist c" using sum_history(2) [OF ok] full by simp
  then have lentl: "length (tl (history c) @ [r]) = hist c" using pos by simp
  have nv: "norm_vec (roll_mean c r)
      = map2 (\<lambda>(n, s) y. n - s / real (hist c) + y / real (hist c)) (zip (norm_vec c) x) r"
    by (simp add: roll_mean_def x_def)
  have "norm_vec (roll_mean c r) ! d = mean (column d (history (roll_mean c r)))" if d: "d < cdim c" for d
  proof -
    have s: "sum_list (column d (history c)) = x ! d + sum_list (column d (tl (history c)))"
      by (subst hh) (simp add: column_def)
    have "norm_vec (roll_mean c r) ! d = mean (column d (history c)) - x ! d / real (hist c) + r ! d / real (hist c)"
      using d m r lenx by (simp add: nv mean_of_history_def)
    also have "\<dots> = (sum_list (column d (history c)) - x ! d + r ! d) / real (hist c)"
      using len by (simp add: mean_def column_def add_divide_distrib diff_divide_distrib)
    also have "\<dots> = mean (column d (tl (history c) @ [r]))"
      using s lentl by (simp add: mean_def column_def)
    finally show ?thesis using h by simp
  qed
  moreover have "length (norm_vec (roll_mean c r)) = cdim c"
    using m r lenx by (simp add: nv mean_of_history_def)
  ultimately show "mean_of_history (roll_mean c r)" using same by (simp add: mean_of_history_def)
qed

lemma roll_means:
  "cmn_ok c \<Longrightarrow> features_cached c = hist c \<Longrightarrow> mean_of_history c \<Longrightarrow> \<forall>r \<in> set rs. length r = cdim c \<Longrightarrow>
     cmn_ok (foldl roll_mean c rs) \<and> mean_of_history (foldl roll_mean c rs)
     \<and> features_cached (foldl roll_mean c rs) = hist (foldl roll_mean c rs)
     \<and> cdim (foldl roll_mean c rs) = cdim c
     \<and> history (foldl roll_mean c rs) = history (foldl replace_oldest c rs)"
proof (induction rs arbitrary: c)
  case (Cons r rs)
  have r: "length r = cdim c" using Cons.prems by simp
  note st = roll_mean_step [OF Cons.prems(1-3) r]
  have IH: "cmn_ok (foldl roll_mean (roll_mean c r) rs) \<and> mean_of_history (foldl roll_mean (roll_mean c r) rs)
     \<and> features_cached (foldl roll_mean (roll_mean c r) rs) = hist (foldl roll_mean (roll_mean c r) rs)
     \<and> cdim (foldl roll_mean (roll_mean c r) rs) = cdim (roll_mean c r)
     \<and> history (foldl roll_mean (roll_mean c r) rs) = history (foldl replace_oldest (roll_mean c r) rs)"
    using st Cons.prems by (intro Cons.IH) simp_all
  have f1: "cmn_full c" using Cons.prems cmn_full_iff by blast
  have f2: "cmn_full (roll_mean c r)" using st(1,2,4) Cons.prems(2) cmn_full_iff by metis
  have "history (foldl replace_oldest (roll_mean c r) rs) = history (foldl replace_oldest c (r # rs))"
    using cmnwin.pushes_win [OF f2] cmnwin.pushes_win [OF cmnwin.push_ok [OF f1]]
      cmnwin.push_win [OF f1] st(5) by (simp only: foldl_Cons)
  then show ?case using IH st(3) by simp
qed simp

text \<open>
  \<open>ApplyCmvn\<close>, while only it is used, keeps its rolling mean exact: every vector of the
  batch comes out with the mean of the last \<open>hist\<close> vectors of the stream subtracted, whether
  the history was full, was filled by this batch or is not full yet.
\<close>

theorem ApplyCmvn_rolling_mean:
  assumes ok: "cmn_ok c" and roll: "roll_ok c" and cols: "num_cols feats = cdim c"
    and len: "\<forall>r \<in> set (rows feats). length r = cdim c"
  shows "\<exists>out c'. ApplyCmvn c feats = Inr (out, c') \<and> cmn_ok c' \<and> roll_ok c'
    \<and> history c' = last_n (hist c) (history c @ rows feats) \<and> length out = length (rows feats)
    \<and> (\<forall>i < length (rows feats). \<forall>d < cdim c.
         out ! i ! d = rows feats ! i ! d - mean (column d (history c')))"
proof -
  obtain c1 rest where f: "fill_history c (rows feats) = (c1, rest)" by fastforce
  note p = fill_history_props [OF ok len f]
  note ha = history_after [OF ok len f, unfolded Let_def]
  have "cmn_ok c1" "cdim c1 = cdim c" using p by simp_all
  note tot = row_sums [OF this(1), unfolded this(2)]
  show ?thesis
  proof (cases "features_cached c1 = hist c1")
    case False
    then have rest: "rest = []" using p by auto
    have A: "ApplyCmvn c feats = Inr (ComputeMean c1 (rows feats), c1)"
      using cols f False by (simp add: ApplyCmvn_def)
    have "\<forall>i < length (rows feats). \<forall>d < cdim c. ComputeMean c1 (rows feats) ! i ! d
        = rows feats ! i ! d - mean (column d (history c1))"
      using tot len p by (simp add: ComputeMean_def)
    moreover have "length (ComputeMean c1 (rows feats)) = length (rows feats)" by (simp add: ComputeMean_def Let_def)
    moreover have "norm_vec c1 = []" using roll p False by (auto simp: roll_ok_def)
    ultimately show ?thesis using A ha p rest by (auto simp: roll_ok_def)
  next
    case full: True
    define c2 where "c2 = (if norm_vec c1 = [] then
        c1\<lparr>norm_vec := map (\<lambda>x. x / real (hist c1)) (vec_sum (cdim c1) (take (hist c1) (stats c1)))\<rparr> else c1)"
    define c3 where "c3 = foldl roll_mean c2 rest"
    have A: "ApplyCmvn c feats = Inr (map (\<lambda>f. vec_sub f (norm_vec c3)) (rows feats), c3)"
      using cols f full by (simp add: ApplyCmvn_def c2_def c3_def Let_def)
    have c2: "cmn_ok c2" "features_cached c2 = hist c2" "cdim c2 = cdim c" "history c2 = history c1"
      using p full by (simp_all add: c2_def)
    have "mean_of_history c2"
    proof (cases "norm_vec c1 = []")
      case True
      then show ?thesis using tot p full by (simp add: c2_def mean_of_history_def)
    next
      case False
      then have "norm_vec c \<noteq> []" using p by simp
      then have "c1 = c" "mean_of_history c" using roll p by (auto simp: roll_ok_def)
      then show ?thesis using False by (simp add: c2_def)
    qed
    moreover have lenr: "\<forall>r \<in> set rest. length r = cdim c2" using p len c2 by auto
    ultimately have c3: "cmn_ok c3" "mean_of_history c3" "features_cached c3 = hist c3" "cdim c3 = cdim c"
      "history c3 = history (foldl replace_oldest c2 rest)"
      using roll_means [OF c2(1,2)] c2(3) by (simp_all add: c3_def)
    have "cmn_full c1" "cmn_full c2" using p full c2 cmn_full_iff by blast+
    then have "history (foldl replace_oldest c2 rest) = history (foldl replace_oldest c1 rest)"
      using c2(4) cmnwin.pushes_win by metis
    then have "history c3 = last_n (hist c) (history c @ rows feats)" using c3(5) ha by simp
    moreover have "\<forall>i < length (rows feats). \<forall>d < cdim c. vec_sub (rows feats ! i) (norm_vec c3) ! d
        = rows feats ! i ! d - mean (column d (history c3))"
      using c3 len by (simp add: mean_of_history_def)
    ultimately show ?thesis using A c3 by (auto simp: roll_ok_def)
  qed
qed

section \<open>Any sequence of calls\<close>

datatype cmn_call = MeanOnly matrix | MeanAndVariance matrix

fun cmn_call_result :: "cmn_call \<Rightarrow> cmn \<Rightarrow> fault + cmn" where
  "cmn_call_result (MeanOnly m) c = map_sum (\<lambda>e. e) snd (ApplyCmvn c m)"
| "cmn_call_result (MeanAndVariance m) c = map_sum (\<lambda>e. e) snd (ApplyCmvn2 c m)"

fun call_feats :: "cmn_call \<Rightarrow> matrix" where
  "call_feats (MeanOnly m) = m"
| "call_feats (MeanAndVariance m) = m"

fun cmn_calls :: "cmn_call list \<Rightarrow> cmn \<Rightarrow> fault + cmn" where
  "cmn_calls [] c = Inr c"
| "cmn_calls (a # as) c = (case cmn_call_result a c of Inl e \<Rightarrow> Inl e | Inr c' \<Rightarrow> cmn_calls as c')"

lemma roll_means_window:
  "history (foldl roll_mean c rs) = history (foldl replace_oldest c rs)
    \<and> cmn_ok (foldl roll_mean c rs) = cmn_ok (foldl replace_oldest c rs)
    \<and> hist (foldl roll_mean c rs) = hist c \<and> cdim (foldl roll_mean c rs) = cdim c"
proof -
  have norm: "\<exists>v. foldl roll_mean c rs = (foldl replace_oldest c rs)\<lparr>norm_vec := v\<rparr>"
  proof (induction rs rule: rev_induct)
    case Nil
    show ?case by (intro exI [of _ "norm_vec c"]) simp
  next
    case (snoc r rs)
    then obtain v where v: "foldl roll_mean c rs = (foldl replace_oldest c rs)\<lparr>norm_vec := v\<rparr>" by blast
    have "roll_mean (b\<lparr>norm_vec := v\<rparr>) r = (replace_oldest b r)\<lparr>norm_vec :=
        norm_vec (roll_mean (b\<lparr>norm_vec := v\<rparr>) r)\<rparr>" for b
      by (simp add: roll_mean_def replace_oldest_def)
    then show ?case by (metis foldl_Cons foldl_Nil foldl_append v)
  qed
  have "hist (foldl replace_oldest c rs) = hist c \<and> cdim (foldl replace_oldest c rs) = cdim c"
    by (induction rs arbitrary: c) simp_all
  with norm show ?thesis by auto
qed

lemma cmn_call_window:
  assumes ok: "cmn_ok c" and m: "matrix_ok (cdim c) (call_feats a)"
  shows "\<exists>c'. cmn_call_result a c = Inr c' \<and> cmn_ok c' \<and> cdim c' = cdim c \<and> hist c' = hist c
    \<and> history c' = last_n (hist c) (history c @ rows (call_feats a))"
proof -
  let ?rs = "rows (call_feats a)"
  obtain c1 rest where f: "fill_history c ?rs = (c1, rest)" by fastforce
  have len: "\<forall>r \<in> set ?rs. length r = cdim c" and cols: "num_cols (call_feats a) = cdim c"
    using m by (simp_all add: matrix_ok_def)
  note ha = history_after [OF ok len f, unfolded Let_def]
  note p = fill_history_props [OF ok len f]
  show ?thesis
  proof (cases a)
    case (MeanAndVariance x)
    then show ?thesis using f cols ha by (simp add: ApplyCmvn2_def Let_def)
  next
    case (MeanOnly x)
    show ?thesis
    proof (cases "features_cached c1 = hist c1")
      case False
      then have "rest = []" using p by auto
      then show ?thesis using MeanOnly f cols ha False by (simp add: ApplyCmvn_def)
    next
      case True
      have w: "cmn_full c1" using p True cmn_full_iff by blast
      have same: "history (foldl roll_mean (c1\<lparr>norm_vec := v\<rparr>) rest) = history (foldl replace_oldest c1 rest)
          \<and> cmn_ok (foldl roll_mean (c1\<lparr>norm_vec := v\<rparr>) rest)" for v
      proof -
        have "cmn_full (c1\<lparr>norm_vec := v\<rparr>)" using w by simp
        moreover have "cmn_ok (foldl replace_oldest (c1\<lparr>norm_vec := v\<rparr>) rest)"
          using p len True by (intro conjunct1 [OF pushes_props]) auto
        ultimately show ?thesis
          using roll_means_window cmnwin.pushes_win [OF w] cmnwin.pushes_win by simp
      qed
      have id: "c1 = c1\<lparr>norm_vec := norm_vec c1\<rparr>" by simp
      show ?thesis
        using MeanOnly f cols ha p True same same [of "norm_vec c1"] roll_means_window
        by (simp add: ApplyCmvn_def Let_def)
    qed
  qed
qed

text \<open>
  C35. However the two methods are called on a new \<open>OnlineCMN\<close>, one after the other on any
  batches of the right width, no call fails, the object stays well-formed and it holds the
  last \<open>hist\<close> of all the vectors it was given, in their order.
\<close>

theorem cmn_calls_well_formed:
  assumes "0 < h" and "\<forall>a \<in> set calls. matrix_ok d (call_feats a)"
  shows "\<exists>c. cmn_calls calls (OnlineCMN_new d h) = Inr c \<and> cmn_ok c
    \<and> history c = last_n h (concat (map (\<lambda>a. rows (call_feats a)) calls))"
proof -
  have new: "cmn_ok (OnlineCMN_new d h)" "history (OnlineCMN_new d h) = []" "cdim (OnlineCMN_new d h) = d"
    "hist (OnlineCMN_new d h) = h"
    using assms(1) by (simp_all add: OnlineCMN_new_def cmn_ok_def history_def)
  have "cmn_ok c \<Longrightarrow> cdim c = d \<Longrightarrow> hist c = h \<Longrightarrow> history c = last_n h xs \<Longrightarrow>
      \<forall>a \<in> set calls. matrix_ok d (call_feats a) \<Longrightarrow>
      \<exists>c'. cmn_calls calls c = Inr c' \<and> cmn_ok c'
        \<and> history c' = last_n h (xs @ concat (map (\<lambda>a. rows (call_feats a)) calls))" for c xs
  proof (induction calls arbitrary: c xs)
    case (Cons a calls)
    obtain c1 where c1: "cmn_call_result a c = Inr c1" "cmn_ok c1" "cdim c1 = d" "hist c1 = h"
      "history c1 = last_n h (history c @ rows (call_feats a))"
      using cmn_call_window [of c a] Cons.prems by auto
    have "history c1 = last_n h (xs @ rows (call_feats a))"
      using c1(5) Cons.prems(3,4) by (simp add: last_n_append)
    with Cons.IH [OF c1(2-4) this] Cons.prems(5) c1(1) show ?case by simp
  qed simp
  from this [OF new(1,3,4), of "[]"] new(2) assms(2) show ?thesis by (simp add: last_n_def)
qed

text \<open>
  But the two methods cannot be mixed: \<open>ApplyCmvn2\<close> moves the history without the rolling
  mean, which is then no longer that of the history.
\<close>

lemma mixing_makes_mean_stale:
  "\<exists>c. cmn_calls [MeanOnly \<lparr>num_cols = 1, rows = [[0]]\<rparr>, MeanAndVariance \<lparr>num_cols = 1, rows = [[1]]\<rparr>]
      (OnlineCMN_new 1 1) = Inr c \<and> history c = [[1]] \<and> norm_vec c = [0]"
  by (simp add: ApplyCmvn_def ApplyCmvn2_def OnlineCMN_new_def vec_zero_def vec_sum_def vec_add_def
      replace_oldest_def history_def ring_contents_def Let_def)

section \<open>Witnesses\<close>

definition three_rows :: matrix where
  "three_rows = \<lparr>num_cols = 2, rows = [[1, 0], [3, 0], [5, 2]]\<rparr>"

lemma new_cmn_ok: "cmn_ok (OnlineCMN_new 2 2)" "roll_ok (OnlineCMN_new 2 2)"
  "history (OnlineCMN_new 2 2) = []" "hist (OnlineCMN_new 2 2) = 2" "cdim (OnlineCMN_new 2 2) = 2"
  by (simp_all add: OnlineCMN_new_def cmn_ok_def roll_ok_def history_def)

theorem ApplyCmvn2_normalises_witness:
  "\<exists>out c'. ApplyCmvn2 (OnlineCMN_new 2 2) three_rows = Inr (out, c') \<and> history c' = [[3, 0], [5, 2]]"
  using ApplyCmvn2_normalises [of "OnlineCMN_new 2 2" three_rows]
  by (auto simp: new_cmn_ok three_rows_def last_n_def)

theorem ApplyCmvn_rolling_mean_witness:
  "\<exists>out c'. ApplyCmvn (OnlineCMN_new 2 2) three_rows = Inr (out, c') \<and> history c' = [[3, 0], [5, 2]]
    \<and> length out = 3"
  using ApplyCmvn_rolling_mean [of "OnlineCMN_new 2 2" three_rows]
  by (auto simp: new_cmn_ok three_rows_def last_n_def)

theorem cmn_calls_well_formed_witness:
  "\<exists>c. cmn_calls [MeanOnly three_rows, MeanAndVariance three_rows] (OnlineCMN_new 2 2) = Inr c
    \<and> history c = [[3, 0], [5, 2]]"
  using cmn_calls_well_formed [of 2 "[MeanOnly three_rows, MeanAndVariance three_rows]" 2]
  by (auto simp: matrix_ok_def three_rows_def last_n_def)

end
