(* ===== verification/Features.thy ===== *)
theory Features
  imports Cmn
begin

text \<open>
  The interface of the feature inputs of \<open>online-feat-input.cc\<close>, \<open>OnlineCmvnInput\<close>, and what
  \<open>OnlineLdaInput\<close> and \<open>OnlineDeltaInput\<close> share. Each input wraps another one or an audio
  source, which is a parameter. Sizes and indices are natural numbers: the additions of the
  constructors do not wrap around. The assertions of Kaldi's matrices that are modelled are
  the bounds of a row index (\<^const>\<open>OutOfBounds\<close>) and the dimensions of copied rows and
  multiplied matrices (\<^const>\<open>KaldiError\<close>).
\<close>

text \<open>
  \<open>OnlineFeatInputItf::Compute\<close>: the output matrix comes in with the requested size and goes
  out with the features, together with the answer whether there is more data. The variable that
  the pointer \<open>timeout\<close> refers to, if any, is a part of the state.
\<close>

type_synonym 's feat_input = "matrix \<Rightarrow> ('s, bool \<times> matrix) prog"

section \<open>OnlineCmvnInput\<close>

text \<open>\<open>alloc\<close> is what \<open>Resize\<close> with \<open>kUndefined\<close> leaves in a matrix. A constant column
  (\<^const>\<open>None\<close>) is left to \<open>undefined_rows\<close>.\<close>

definition CmvnInput_Compute :: "(nat \<Rightarrow> nat \<Rightarrow> matrix) \<Rightarrow> (vec list \<Rightarrow> vec list) \<Rightarrow> 's feat_input
    \<Rightarrow> (cmn \<times> 's) feat_input" where
  "CmvnInput_Compute alloc undefined_rows input out = (\<lambda>(c, s).
     case input (alloc (length (rows out)) (num_cols out)) s of
       (Inl e, s') \<Rightarrow> (Inl e, c, s')
     | (Inr (more_data, in_matrix), s') \<Rightarrow>
         (case ApplyCmvn2 c in_matrix of
            Inl e \<Rightarrow> (Inl e, c, s')
          | Inr (norm_feats, c') \<Rightarrow>
              (Inr (more_data, \<lparr>num_cols = num_cols in_matrix, rows = (case norm_feats of
                 Some ys \<Rightarrow> ys | None \<Rightarrow> undefined_rows (rows in_matrix))\<rparr>), c', s')))"

definition no_rows :: matrix where
  "no_rows = \<lparr>num_cols = 0, rows = []\<rparr>"

text \<open>
  \<open>OnlineCmvnInput\<close> hands on as many vectors as it receives, and the answer whether there is
  more data, and its normalisation moves on by exactly these vectors; but a batch without
  rows, which has no columns either, fails the assertion of \<open>ApplyCmvn2\<close>.
\<close>

theorem CmvnInput_outcome:
  assumes "cmn_ok c" and "input (alloc (length (rows out)) (num_cols out)) s = (Inr (md, m), s')"
    and "\<forall>r \<in> set (rows m). length r = num_cols m" and "\<forall>rs. length (undefined_rows rs) = length rs"
  shows "if num_cols m = cdim c
    then \<exists>m' c'. CmvnInput_Compute alloc undefined_rows input out (c, s) = (Inr (md, m'), c', s')
      \<and> num_cols m' = cdim c \<and> length (rows m') = length (rows m) \<and> cmn_ok c'
      \<and> history c' = last_n (hist c) (history c @ rows m)
    else CmvnInput_Compute alloc undefined_rows input out (c, s) = (Inl KaldiError, c, s')"
proof (cases "num_cols m = cdim c")
  case True
  let ?a = "MeanAndVariance m"
  have "matrix_ok (cdim c) m" using True assms(3) by (simp add: matrix_ok_def)
  with cmn_call_window [OF assms(1), of ?a] obtain c' where c': "cmn_call_result ?a c = Inr c'" "cmn_ok c'"
    "history c' = last_n (hist c) (history c @ rows m)" by auto
  from c'(1) obtain out' where out': "ApplyCmvn2 c m = Inr (out', c')"
    by (cases "ApplyCmvn2 c m") auto
  moreover have "length ys = length (rows m)" if "out' = Some ys" for ys
    using out' that by (auto simp: ApplyCmvn2_def CMN_Compute_def Let_def split: if_splits prod.splits)
  ultimately show ?thesis
    using assms(2,4) c' True by (auto simp: CmvnInput_Compute_def split: option.splits)
next
  case False
  then show ?thesis using assms(2) by (simp add: CmvnInput_Compute_def ApplyCmvn2_def)
qed

section \<open>Series of calls\<close>

fun repeats :: "('s, 'a) prog \<Rightarrow> nat \<Rightarrow> ('s, 'a list) prog" where
  "repeats p 0 = ret []"
| "repeats p (Suc n) = andthen p (\<lambda>x. andthen (repeats p n) (\<lambda>xs. ret (x # xs)))"

lemma repeats_Suc:
  "repeats p (Suc n) s = (Inr ms, t) \<longleftrightarrow>
     (\<exists>m u ms'. p s = (Inr m, u) \<and> repeats p n u = (Inr ms', t) \<and> ms = m # ms')"
  by (auto simp: andthen_Inr_iff)

definition all_rows :: "(bool \<times> matrix) list \<Rightarrow> vec list" where
  "all_rows ms = concat (map (\<lambda>m. rows (snd m)) ms)"

lemma all_rows_simps [simp]: "all_rows [] = []" "all_rows (m # ms) = rows (snd m) @ all_rows ms"
  by (simp_all add: all_rows_def)

section \<open>Inputs that look at a window around every frame\<close>

text \<open>The rows \<open>Row(0)\<close>, ..., \<open>Row(0)\<close>, \<open>Row(1)\<close>, ... of the first window, \<open>wsize\<close> in all;
  \<^const>\<open>None\<close> when one of them does not exist.\<close>

definition first_window :: "nat \<Rightarrow> nat \<Rightarrow> 'a list \<Rightarrow> 'a list option" where
  "first_window center wsize feats =
     (let idx = map (\<lambda>i. if i \<le> center then 0 else i - center - 1) [0..<wsize]
      in if \<forall>i \<in> set idx. i < length feats then Some (map (\<lambda>i. feats ! i) idx) else None)"

text \<open>
  The specification: output \<open>k\<close> is computed from the frames \<open>k - left\<close> to \<open>k + right\<close>, where
  frames before the first one are replaced by the first.
\<close>

definition context_rows :: "nat \<Rightarrow> nat \<Rightarrow> 'a list \<Rightarrow> nat \<Rightarrow> 'a list" where
  "context_rows left right feats k = map (\<lambda>j. feats ! (k + j - left)) [0..<left + right + 1]"

lemma first_window_eq:
  assumes "feats \<noteq> []" and "right \<le> length feats"
  shows "first_window left (left + right + 1) feats = Some (replicate (left + 1) (hd feats) @ take right feats)"
proof -
  let ?idx = "map (\<lambda>i. if i \<le> left then 0 else i - left - 1) [0..<left + right + 1]"
  have bound: "\<forall>i \<in> set ?idx. i < length feats" using assms by (cases feats) auto
  have "map (\<lambda>i. feats ! i) ?idx = replicate (left + 1) (hd feats) @ take right feats"
  proof (rule nth_equalityI)
    show "length (map (\<lambda>i. feats ! i) ?idx) = length (replicate (left + 1) (hd feats) @ take right feats)"
      using assms(2) by simp
    fix i
    assume i: "i < length (map (\<lambda>i. feats ! i) ?idx)"
    then have "map (\<lambda>i. feats ! i) ?idx ! i = feats ! (if i \<le> left then 0 else i - left - 1)"
      by (simp del: upt_Suc)
    also have "\<dots> = (replicate (left + 1) (hd feats) @ take right feats) ! i"
      using i assms by (auto simp: nth_append hd_conv_nth simp del: replicate_Suc)
    finally show "map (\<lambda>i. feats ! i) ?idx ! i = (replicate (left + 1) (hd feats) @ take right feats) ! i" .
  qed
  with bound show ?thesis by (simp add: first_window_def Let_def)
qed

lemma padded_window:
  assumes "feats \<noteq> []" and "k + n \<le> left + length feats"
  shows "take n (drop k (replicate left (hd feats) @ feats)) = map (\<lambda>j. feats ! (k + j - left)) [0..<n]"
proof (rule nth_equalityI)
  show "length (take n (drop k (replicate left (hd feats) @ feats))) = length (map (\<lambda>j. feats ! (k + j - left)) [0..<n])"
    using assms(2) by simp
  fix j
  assume "j < length (take n (drop k (replicate left (hd feats) @ feats)))"
  then have j: "j < n" by simp
  then have "take n (drop k (replicate left (hd feats) @ feats)) ! j = (replicate left (hd feats) @ feats) ! (k + j)"
    using assms(2) by (simp del: drop_append)
  also have "\<dots> = feats ! (k + j - left)"
    using assms(1) by (auto simp: nth_append hd_conv_nth)
  finally show "take n (drop k (replicate left (hd feats) @ feats)) ! j = map (\<lambda>j. feats ! (k + j - left)) [0..<n] ! j"
    using j by simp
qed
lemma first_window_short: "feats = [] \<or> length feats < right \<Longrightarrow> first_window left (left + right + 1) feats = None"
proof -
  assume short: "feats = [] \<or> length feats < right"
  have "\<exists>i < left + right + 1. \<not> (if i \<le> left then 0 else i - left - 1) < length feats"
  proof (cases "feats = []")
    case False
    with short show ?thesis by (intro exI [of _ "left + right"]) auto
  qed auto
  then have "\<not> (\<forall>i \<in> set (map (\<lambda>i. if i \<le> left then 0 else i - left - 1) [0..<left + right + 1]). i < length feats)"
    unfolding set_map set_upt ball_simps(9) by fastforce
  then show ?thesis unfolding first_window_def Let_def by (simp only: if_False)
qed

text \<open>The windows after an initialisation with the first frames of the stream.\<close>

context sliding_window
begin

lemma windows_context:
  assumes "ok b" and "win b = replicate (left + 1) (hd feats) @ take right feats"
    and "feats \<noteq> []" and "right \<le> length feats"
  shows "windows b (drop right feats) = map (context_rows left right feats) [0..<length feats - right]"
proof (rule nth_equalityI)
  show "length (windows b (drop right feats))
      = length (map (context_rows left right feats) [0..<length feats - right])" by simp
  fix k
  assume "k < length (windows b (drop right feats))"
  then have k: "k < length feats - right" by simp
  have len: "length (win b) = left + right + 1" using assms(2,4) by simp
  have all: "win b @ drop right feats = hd feats # replicate left (hd feats) @ feats"
    using assms(2) by simp
  have "windows b (drop right feats) ! k = take (left + right + 1) (drop (Suc k) (win b @ drop right feats))"
    using windows_nth [OF assms(1), of k "drop right feats"] k len by simp
  also have "\<dots> = take (left + right + 1) (drop k (replicate left (hd feats) @ feats))"
    unfolding all by simp
  also have "\<dots> = map (\<lambda>j. feats ! (k + j - left)) [0..<left + right + 1]"
    using k by (intro padded_window [OF assms(3)]) simp
  finally show "windows b (drop right feats) ! k
      = map (context_rows left right feats) [0..<length feats - right] ! k"
    using k by (simp add: context_rows_def del: upt_Suc)
qed

end

text \<open>
  The interface: a call of \<open>step\<close> fetches one batch, pushes its rows and emits a vector for
  every window; the first call starts the window with the rows it needs. What follows is
  that the batches do not show in the output.
\<close>

locale windowed_input = sliding_window push win ok
  for push :: "'b \<Rightarrow> vec \<Rightarrow> 'b" and win :: "'b \<Rightarrow> vec list" and ok :: "'b \<Rightarrow> bool" +
  fixes step :: "('b \<times> 's, bool \<times> matrix) prog" and fetch :: "('s, bool \<times> matrix) prog"
    and good :: "matrix \<Rightarrow> bool" and emit :: "vec list \<Rightarrow> vec" and fresh :: 'b
    and start :: "vec list \<Rightarrow> 'b" and long :: "vec list \<Rightarrow> bool" and left :: nat and right :: nat
  assumes step_emits: "ok b \<Longrightarrow> fetch s = (Inr m, u) \<Longrightarrow> good (snd m) \<Longrightarrow>
      \<exists>m'. step (b, s) = (Inr m', foldl push b (rows (snd m)), u) \<and> fst m' = fst m
        \<and> rows (snd m') = map emit (windows b (rows (snd m)))"
    and first_emits: "fetch s = (Inr m, u) \<Longrightarrow> good (snd m) \<Longrightarrow> long (rows (snd m)) \<Longrightarrow>
      \<exists>m'. step (fresh, s) = (Inr m', foldl push (start (rows (snd m))) (drop right (rows (snd m))), u)
        \<and> fst m' = fst m
        \<and> rows (snd m') = map emit (windows (start (rows (snd m))) (drop right (rows (snd m))))"
    and start_ok: "long xs \<Longrightarrow> xs \<noteq> [] \<and> right \<le> length xs \<and> ok (start xs)
      \<and> win (start xs) = replicate (left + 1) (hd xs) @ take right xs"
begin

lemma steps_emit:
  "ok b \<Longrightarrow> repeats fetch n s = (Inr ms, t) \<Longrightarrow> \<forall>m \<in> set ms. good (snd m) \<Longrightarrow>
    \<exists>outs. repeats step n (b, s) = (Inr outs, foldl push b (all_rows ms), t) \<and> map fst outs = map fst ms
      \<and> all_rows outs = map emit (windows b (all_rows ms))"
proof (induction n arbitrary: b s ms)
  case (Suc n)
  obtain m u ms' where m: "fetch s = (Inr m, u)" "repeats fetch n u = (Inr ms', t)" "ms = m # ms'"
    using Suc.prems(2) unfolding repeats_Suc by blast
  have good: "good (snd m)" "\<forall>m \<in> set ms'. good (snd m)" using Suc.prems(3) m(3) by auto
  obtain m' where m': "step (b, s) = (Inr m', foldl push b (rows (snd m)), u)" "fst m' = fst m"
    "rows (snd m') = map emit (windows b (rows (snd m)))"
    using step_emits [OF Suc.prems(1) m(1) good(1)] by blast
  from Suc.IH [OF pushes_ok [OF Suc.prems(1)] m(2) good(2)] obtain outs where
    "repeats step n (foldl push b (rows (snd m)), u)
      = (Inr outs, foldl push (foldl push b (rows (snd m))) (all_rows ms'), t)" "map fst outs = map fst ms'"
    "all_rows outs = map emit (windows (foldl push b (rows (snd m))) (all_rows ms'))"
    by blast
  then show ?case
    using m' m(3) by (intro exI [of _ "m' # outs"]) (simp add: andthen_Inr windows_append)
qed simp

lemma emitted:
  assumes run: "repeats fetch (Suc n) s = (Inr (m # ms), t)" and good: "\<forall>m \<in> set (m # ms). good (snd m)"
    and long: "long (rows (snd m))"
  shows "\<exists>outs b. repeats step (Suc n) (fresh, s) = (Inr outs, b, t) \<and> ok b
    \<and> map fst outs = map fst (m # ms)
    \<and> all_rows outs = map (\<lambda>k. emit (context_rows left right (all_rows (m # ms)) k))
        [0..<length (all_rows (m # ms)) - right]"
proof -
  let ?x = "rows (snd m)"
  obtain u where u: "fetch s = (Inr m, u)" "repeats fetch n u = (Inr ms, t)"
    using run unfolding repeats_Suc by blast
  note start = start_ok [OF long]
  let ?b = "foldl push (start ?x) (drop right ?x)"
  obtain m' where m': "step (fresh, s) = (Inr m', ?b, u)" "fst m' = fst m"
    "rows (snd m') = map emit (windows (start ?x) (drop right ?x))"
    using first_emits [OF u(1) _ long] good by auto
  have ok: "ok ?b" using start by (intro pushes_ok) blast
  from steps_emit [OF ok u(2)] good obtain outs where outs:
    "repeats step n (?b, u) = (Inr outs, foldl push ?b (all_rows ms), t)" "map fst outs = map fst ms"
    "all_rows outs = map emit (windows ?b (all_rows ms))"
    by auto
  have "all_rows (m' # outs) = map emit (windows (start ?x) (drop right (all_rows (m # ms))))"
    using m'(3) outs(3) start by (simp add: windows_append)
  also have "\<dots> = map emit (map (context_rows left right (all_rows (m # ms)))
      [0..<length (all_rows (m # ms)) - right])"
    using start by (subst windows_context) auto
  finally have rows: "all_rows (m' # outs) = map (\<lambda>k. emit (context_rows left right (all_rows (m # ms)) k))
      [0..<length (all_rows (m # ms)) - right]" by (simp add: comp_def)
  have "repeats step (Suc n) (fresh, s) = (Inr (m' # outs), foldl push ?b (all_rows ms), t)"
    using m'(1) outs(1) by (simp add: andthen_Inr)
  then show ?thesis using rows m'(2) outs(2) pushes_ok [OF ok] by fastforce
qed

text \<open>Batches at the beginning that are too short to start the window leave no trace.\<close>

lemma all_emitted:
  assumes skip: "\<And>s m u. fetch s = (Inr m, u) \<Longrightarrow> good (snd m) \<Longrightarrow> short m \<Longrightarrow>
      step (fresh, s) = (Inr (fst m, no_rows), fresh, u)"
    and long: "\<And>m. good (snd m) \<Longrightarrow> \<not> short m \<Longrightarrow> long (rows (snd m))"
  shows "repeats fetch n s = (Inr ms, t) \<Longrightarrow> \<forall>m \<in> set ms. good (snd m) \<Longrightarrow>
    \<exists>outs b. repeats step n (fresh, s) = (Inr outs, b, t) \<and> map fst outs = map fst ms
      \<and> all_rows outs = map (\<lambda>k. emit (context_rows left right (all_rows (dropWhile short ms)) k))
          [0..<length (all_rows (dropWhile short ms)) - right]"
proof (induction n arbitrary: s ms)
  case (Suc n)
  obtain m u ms' where m: "fetch s = (Inr m, u)" "repeats fetch n u = (Inr ms', t)" "ms = m # ms'"
    using Suc.prems(1) unfolding repeats_Suc by blast
  show ?case
  proof (cases "short m")
    case True
    from Suc.IH [OF m(2)] Suc.prems(2) m(3) obtain outs b where o: "repeats step n (fresh, u) = (Inr outs, b, t)"
      "map fst outs = map fst ms'"
      "all_rows outs = map (\<lambda>k. emit (context_rows left right (all_rows (dropWhile short ms')) k))
          [0..<length (all_rows (dropWhile short ms')) - right]" by auto
    have "step (fresh, s) = (Inr (fst m, no_rows), fresh, u)"
      using skip [OF m(1) _ True] Suc.prems(2) m(3) by simp
    then have "repeats step (Suc n) (fresh, s) = (Inr ((fst m, no_rows) # outs), b, t)"
      using o(1) by (simp add: andthen_Inr)
    then show ?thesis using o(2,3) m(3) True by (intro exI [of _ "(fst m, no_rows) # outs"]) (simp add: no_rows_def)
  next
    case False
    have "long (rows (snd m))" using long [OF _ False] Suc.prems(2) m(3) by simp
    from emitted [OF Suc.prems [unfolded m(3)] this] show ?thesis using False m(3) by fastforce
  qed
qed simp

end

text \<open>A batch with fewer rows than were asked for and than a window of \<open>wsize\<close> rows has.\<close>

definition short_batch :: "nat \<Rightarrow> matrix \<Rightarrow> bool \<times> matrix \<Rightarrow> bool" where
  "short_batch wsize out m \<longleftrightarrow> length (rows (snd m)) \<noteq> length (rows out) \<and> length (rows (snd m)) < wsize"

section \<open>Witnesses\<close>

definition zeros :: "nat \<Rightarrow> nat \<Rightarrow> matrix" where
  "zeros r c = \<lparr>num_cols = c, rows = replicate r (replicate c 0)\<rparr>"

fun scripted :: "(bool \<times> matrix) list feat_input" where
  "scripted out [] = (Inr (False, no_rows), [])"
| "scripted out (m # ms) = (Inr m, ms)"

definition batch2 :: "real \<Rightarrow> real \<Rightarrow> matrix" where
  "batch2 x y = \<lparr>num_cols = 2, rows = [[x, 0], [y, 0]]\<rparr>"

theorem CmvnInput_outcome_witness:
  "\<exists>m' c'. CmvnInput_Compute zeros (\<lambda>x. x) scripted (zeros 2 2) (OnlineCMN_new 2 2, [(True, batch2 1 5)])
      = (Inr (True, m'), c', []) \<and> num_cols m' = 2 \<and> length (rows m') = 2 \<and> history c' = [[1, 0], [5, 0]]"
  using CmvnInput_outcome [of "OnlineCMN_new 2 2" scripted zeros "zeros 2 2" "[(True, batch2 1 5)]" True
      "batch2 1 5" "[]" "\<lambda>x. x"]
  by (auto simp: new_cmn_ok batch2_def last_n_def)

end
