(* ===== verification/Delta.thy ===== *)
theory Delta
  imports Features
begin

text \<open>
  \<open>OnlineDeltaInput\<close> (\<open>online-feat-input.cc\<close>), which appends delta coefficients to every frame;
  it keeps its window in the order of time and moves the rows up. The computation of the
  deltas from a window, Kaldi's \<open>DeltaFeatures::Process\<close>, is a parameter.
\<close>

section \<open>OnlineDeltaInput\<close>

record delta_input =
  dfeat_dim :: nat
  dorder :: nat
  dwindow_size :: nat
  dwindow_center :: nat
  dwindow :: "vec list"

definition OnlineDeltaInput_new :: "nat \<Rightarrow> nat \<Rightarrow> nat \<Rightarrow> delta_input" where
  "OnlineDeltaInput_new d order window = \<lparr>dfeat_dim = d, dorder = order,
     dwindow_size = 2 * window * order + 1, dwindow_center = window * order, dwindow = []\<rparr>"

definition DeltaInput_InitFeatWindow :: "vec list \<Rightarrow> delta_input \<Rightarrow> delta_input option" where
  "DeltaInput_InitFeatWindow feat_in l =
     (case first_window (dwindow_center l) (dwindow_size l) feat_in of
        None \<Rightarrow> None
      | Some w \<Rightarrow> Some (l\<lparr>dwindow := w\<rparr>))"

text \<open>Lines 191 to 193: every row is copied from the one behind it, the first one first.\<close>

fun shift_up :: "nat \<Rightarrow> vec list \<Rightarrow> vec list" where
  "shift_up 0 w = w"
| "shift_up (Suc n) w = (let w' = shift_up n w in w'[n := w' ! (n + 1)])"

definition delta_push :: "delta_input \<Rightarrow> vec \<Rightarrow> delta_input" where
  "delta_push l x =
     l\<lparr>dwindow := (shift_up (length (dwindow l) - 1) (dwindow l))[dwindow_size l - 1 := x]\<rparr>"

fun delta_loop :: "(vec list \<Rightarrow> nat \<Rightarrow> vec) \<Rightarrow> delta_input \<Rightarrow> vec list \<Rightarrow> vec list \<times> delta_input" where
  "delta_loop delta_Process l [] = ([], l)"
| "delta_loop delta_Process l (x # xs) =
     (let l' = delta_push l x; out_vec = delta_Process (dwindow l') (dwindow_center l')
      in case delta_loop delta_Process l' xs of (rs, l'') \<Rightarrow> (out_vec # rs, l''))"

text \<open>
  Lines 176 to 198; as in \<open>OnlineLdaInput\<close>, \<open>Resize\<close> refuses an output without rows.
\<close>

definition delta_output :: "(vec list \<Rightarrow> nat \<Rightarrow> vec) \<Rightarrow> matrix \<Rightarrow> delta_input
    \<Rightarrow> fault + matrix \<times> delta_input" where
  "delta_output delta_Process feat_in l =
     (case (if dwindow l = []
        then map_option (\<lambda>l'. (dwindow_size l - dwindow_center l - 1, l'))
          (DeltaInput_InitFeatWindow (rows feat_in) l)
        else Some (0, l)) of
       None \<Rightarrow> Inl OutOfBounds
     | Some (cur_feat, l1) \<Rightarrow>
         if length (rows feat_in) = cur_feat \<or> num_cols feat_in \<noteq> dfeat_dim l then Inl KaldiError
         else (case delta_loop delta_Process l1 (drop cur_feat (rows feat_in)) of (outs, l2) \<Rightarrow>
           Inr (\<lparr>num_cols = dfeat_dim l * (dorder l + 1), rows = outs\<rparr>, l2)))"

definition DeltaInput_Compute :: "(vec list \<Rightarrow> nat \<Rightarrow> vec) \<Rightarrow> (nat \<Rightarrow> nat \<Rightarrow> matrix) \<Rightarrow> 's feat_input
    \<Rightarrow> (delta_input \<times> 's) feat_input" where
  "DeltaInput_Compute delta_Process alloc input out = (\<lambda>(l, s).
     if num_cols out \<noteq> dfeat_dim l * (dorder l + 1) then (Inl KaldiError, l, s)
     else case input (alloc (length (rows out)) (dfeat_dim l)) s of
       (Inl e, s') \<Rightarrow> (Inl e, l, s')
     | (Inr (more_data, feat_in), s') \<Rightarrow>
         let n = length (rows feat_in) in
         if n \<noteq> length (rows out) \<and> (n = 0 \<or> (n < dwindow_size l \<and> dwindow l = []))
         then (Inr (more_data, no_rows), l, s')
         else (case delta_output delta_Process feat_in l of
             Inl e \<Rightarrow> (Inl e, l, s')
           | Inr (output, l') \<Rightarrow> (Inr (more_data, output), l', s')))"

section \<open>Moving the rows up\<close>

lemma shift_up_tl: "n < length w \<Longrightarrow> shift_up n w = take n (tl w) @ drop n w"
proof (induction n)
  case (Suc n)
  then have IH: "shift_up n w = take n (tl w) @ drop n w" by simp
  have len: "length (take n (tl w)) = n" using Suc.prems by simp
  have d: "drop n w = w ! n # w ! Suc n # drop (Suc (Suc n)) w"
    using Suc.prems by (metis Cons_nth_drop_Suc Suc_lessD)
  have "shift_up (Suc n) w = (take n (tl w) @ w ! n # w ! Suc n # drop (Suc (Suc n)) w)[n := w ! Suc n]"
    using IH len d by (simp add: Let_def nth_append)
  also have "\<dots> = (take n (tl w) @ [w ! Suc n]) @ w ! Suc n # drop (Suc (Suc n)) w"
    using len by (simp add: list_update_append)
  also have "take n (tl w) @ [w ! Suc n] = take (Suc n) (tl w)"
    using Suc.prems by (simp add: take_Suc_conv_app_nth nth_tl)
  also have "w ! Suc n # drop (Suc (Suc n)) w = drop (Suc n) w"
    using Suc.prems by (metis Cons_nth_drop_Suc)
  finally show ?case .
qed (cases w; simp)

definition delta_full :: "delta_input \<Rightarrow> bool" where
  "delta_full l \<longleftrightarrow> length (dwindow l) = dwindow_size l \<and> 0 < dwindow_size l"

lemma delta_push_simps [simp]:
  "dfeat_dim (delta_push l x) = dfeat_dim l" "dorder (delta_push l x) = dorder l"
  "dwindow_size (delta_push l x) = dwindow_size l" "dwindow_center (delta_push l x) = dwindow_center l"
  by (simp_all add: delta_push_def)

lemma delta_push_window:
  assumes "delta_full l"
  shows "dwindow (delta_push l x) = tl (dwindow l) @ [x]"
proof -
  let ?w = "dwindow l"
  have ne: "?w \<noteq> []" and len: "length ?w = dwindow_size l" using assms by (auto simp: delta_full_def)
  then have "shift_up (length ?w - 1) ?w = tl ?w @ drop (length ?w - 1) ?w"
    by (subst shift_up_tl) (simp_all add: len [symmetric])
  moreover have "(tl ?w @ [y])[length ?w - 1 := x] = tl ?w @ [x]" for y
    using list_update_length [of "tl ?w" y "[]" x] by simp
  moreover have "drop (length ?w - 1) ?w = [last ?w]" using ne by (cases ?w rule: rev_cases) auto
  ultimately show ?thesis by (simp add: delta_push_def len [symmetric])
qed

interpretation deltawin: sliding_window delta_push dwindow delta_full
proof
  fix l :: delta_input and x
  assume full: "delta_full l"
  show "dwindow (delta_push l x) = tl (dwindow l) @ [x]" by (rule delta_push_window [OF full])
  then show "delta_full (delta_push l x)" using full by (simp add: delta_full_def)
  show "dwindow l \<noteq> []" using full by (auto simp: delta_full_def)
qed

lemma delta_loop_windows:
  "delta_full l \<Longrightarrow> delta_loop f l xs
     = (map (\<lambda>w. f w (dwindow_center l)) (deltawin.windows l xs), foldl delta_push l xs)"
proof (induction xs arbitrary: l)
  case (Cons x xs)
  show ?case using Cons.IH [OF deltawin.push_ok [OF Cons.prems]] by (simp add: Let_def)
qed simp

section \<open>The output\<close>

definition delta_ready :: "nat \<Rightarrow> nat \<Rightarrow> nat \<Rightarrow> matrix \<Rightarrow> delta_input \<Rightarrow> bool" where
  "delta_ready d order window out l \<longleftrightarrow> delta_full l \<and> dfeat_dim l = d \<and> dorder l = order
     \<and> dwindow_center l = window * order \<and> num_cols out = d * (order + 1) \<and> rows out \<noteq> []"

definition delta_long :: "nat \<Rightarrow> nat \<Rightarrow> nat \<Rightarrow> matrix \<Rightarrow> vec list \<Rightarrow> bool" where
  "delta_long d order window out xs \<longleftrightarrow> rows out \<noteq> [] \<and> window * order < length xs
     \<and> (length xs = length (rows out) \<or> 2 * window * order < length xs) \<and> num_cols out = d * (order + 1)"

definition start_delta :: "nat \<Rightarrow> nat \<Rightarrow> nat \<Rightarrow> vec list \<Rightarrow> delta_input" where
  "start_delta d order window feats = (OnlineDeltaInput_new d order window)
     \<lparr>dwindow := replicate (window * order + 1) (hd feats) @ take (window * order) feats\<rparr>"

lemma start_delta_full:
  assumes "window * order \<le> length feats"
  shows "delta_full (start_delta d order window feats)"
  using assms by (simp add: delta_full_def start_delta_def OnlineDeltaInput_new_def)

lemma DeltaInput_Compute_ready:
  assumes ready: "delta_ready d order window out l" and m: "input (alloc (length (rows out)) d) s = (Inr m, u)"
    and "matrix_ok d (snd m)"
  shows "\<exists>m'. DeltaInput_Compute f alloc input out (l, s) = (Inr m', foldl delta_push l (rows (snd m)), u)
    \<and> fst m' = fst m \<and> rows (snd m') = map (\<lambda>w. f w (window * order)) (deltawin.windows l (rows (snd m)))"
proof -
  obtain flag feat_in where m': "m = (flag, feat_in)" by fastforce
  have ne: "dwindow l \<noteq> []" using ready by (auto simp: delta_ready_def delta_full_def)
  have "delta_loop f l (rows feat_in) = (map (\<lambda>w. f w (dwindow_center l)) (deltawin.windows l (rows feat_in)),
      foldl delta_push l (rows feat_in))"
    using ready by (intro delta_loop_windows) (simp add: delta_ready_def)
  moreover have "num_cols feat_in = d" using assms(3) m' by (simp add: matrix_ok_def)
  ultimately show ?thesis
    using assms m' ne
    by (auto simp: DeltaInput_Compute_def delta_ready_def delta_output_def Let_def no_rows_def)
qed

lemma DeltaInput_Compute_first:
  assumes m: "input (alloc (length (rows out)) d) s = (Inr m, u)" and ok: "matrix_ok d (snd m)"
    and long: "delta_long d order window out (rows (snd m))"
  shows "\<exists>m'. DeltaInput_Compute f alloc input out (OnlineDeltaInput_new d order window, s)
      = (Inr m', foldl delta_push (start_delta d order window (rows (snd m)))
          (drop (window * order) (rows (snd m))), u)
    \<and> fst m' = fst m \<and> rows (snd m') = map (\<lambda>w. f w (window * order))
      (deltawin.windows (start_delta d order window (rows (snd m))) (drop (window * order) (rows (snd m))))"
proof -
  let ?new = "OnlineDeltaInput_new d order window" and ?x = "rows (snd m)" and ?c = "window * order"
  let ?l = "start_delta d order window ?x"
  have x: "?x \<noteq> []" "?c \<le> length ?x" and more: "length ?x \<noteq> ?c" using long by (auto simp: delta_long_def)
  have two: "2 * window * order = ?c + ?c" by simp
  have "DeltaInput_InitFeatWindow ?x ?new = Some ?l"
    using first_window_eq [OF x, of ?c]
    by (simp add: DeltaInput_InitFeatWindow_def OnlineDeltaInput_new_def start_delta_def two)
  then have "delta_output f (snd m) ?new = Inr (\<lparr>num_cols = d * (order + 1),
      rows = map (\<lambda>w. f w ?c) (deltawin.windows ?l (drop ?c ?x))\<rparr>, foldl delta_push ?l (drop ?c ?x))"
    using delta_loop_windows [OF start_delta_full [OF x(2)], of f d "drop ?c ?x"] ok more
    by (simp add: delta_output_def OnlineDeltaInput_new_def matrix_ok_def start_delta_def two)
  then show ?thesis
    using m long x
    by (auto simp: DeltaInput_Compute_def OnlineDeltaInput_new_def Let_def delta_long_def split: prod.splits)
qed

interpretation deltain: windowed_input delta_push dwindow "delta_ready d order window out"
    "DeltaInput_Compute f alloc input out" "input (alloc (length (rows out)) d)" "matrix_ok d"
    "\<lambda>w. f w (window * order)" "OnlineDeltaInput_new d order window" "start_delta d order window"
    "delta_long d order window out" "window * order" "window * order"
  for d order window out f alloc input
proof
  fix l :: delta_input and x
  assume ready: "delta_ready d order window out l"
  then have full: "delta_full l" by (simp add: delta_ready_def)
  show "dwindow (delta_push l x) = tl (dwindow l) @ [x]" by (rule deltawin.push_win [OF full])
  show "dwindow l \<noteq> []" by (rule deltawin.win_not_Nil [OF full])
  show "delta_ready d order window out (delta_push l x)"
    using ready deltawin.push_ok [OF full] by (simp add: delta_ready_def)
next
  fix l s m u
  assume "delta_ready d order window out l" "input (alloc (length (rows out)) d) s = (Inr m, u)" "matrix_ok d (snd m)"
  then show "\<exists>m'. DeltaInput_Compute f alloc input out (l, s) = (Inr m', foldl delta_push l (rows (snd m)), u)
    \<and> fst m' = fst m \<and> rows (snd m') = map (\<lambda>w. f w (window * order)) (deltawin.windows l (rows (snd m)))"
    by (rule DeltaInput_Compute_ready)
next
  fix s m u
  assume "input (alloc (length (rows out)) d) s = (Inr m, u)" "matrix_ok d (snd m)"
    "delta_long d order window out (rows (snd m))"
  then show "\<exists>m'. DeltaInput_Compute f alloc input out (OnlineDeltaInput_new d order window, s)
      = (Inr m', foldl delta_push (start_delta d order window (rows (snd m)))
          (drop (window * order) (rows (snd m))), u)
    \<and> fst m' = fst m \<and> rows (snd m') = map (\<lambda>w. f w (window * order))
      (deltawin.windows (start_delta d order window (rows (snd m))) (drop (window * order) (rows (snd m))))"
    by (rule DeltaInput_Compute_first)
next
  fix xs
  assume long: "delta_long d order window out xs"
  then have "window * order \<le> length xs" "xs \<noteq> []" by (auto simp: delta_long_def)
  with start_delta_full [OF this(1)] long show "xs \<noteq> [] \<and> window * order \<le> length xs
      \<and> delta_ready d order window out (start_delta d order window xs)
      \<and> dwindow (start_delta d order window xs)
        = replicate (window * order + 1) (hd xs) @ take (window * order) xs"
    by (simp add: delta_ready_def delta_long_def start_delta_def OnlineDeltaInput_new_def)
qed

text \<open>
  C28. The batching of \<open>OnlineDeltaInput\<close> is transparent but for short batches at the beginning: the
  outputs of all calls together are the deltas of the rows from the first batch on that is as
  long as requested or at least as long as the window, for every row except the last \<open>window *
  order\<close>, each computed from the \<open>window * order\<close> rows on either side (the first one standing
  for those before it); the batches before that are thrown away.
\<close>

theorem delta_online_is_batch:
  assumes "repeats (input (alloc (length (rows out)) d)) n s = (Inr ms, t)"
    and "\<forall>m \<in> set ms. matrix_ok d (snd m)"
    and "num_cols out = d * (order + 1)" and "window * order < length (rows out)"
  shows "\<exists>outs l. repeats (DeltaInput_Compute f alloc input out) n (OnlineDeltaInput_new d order window, s)
      = (Inr outs, l, t)
    \<and> map fst outs = map fst ms
    \<and> (let heard = all_rows (dropWhile (short_batch (2 * window * order + 1) out) ms) in
        all_rows outs = map (\<lambda>k. f (context_rows (window * order) (window * order) heard k) (window * order))
          [0..<length heard - window * order])"
proof -
  let ?short = "short_batch (2 * window * order + 1) out"
  have long: "delta_long d order window out (rows (snd m))" if "\<not> ?short m" for m
    using that assms(3,4) by (auto simp: delta_long_def short_batch_def)
  have "DeltaInput_Compute f alloc input out (OnlineDeltaInput_new d order window, x)
      = (Inr (fst m, no_rows), OnlineDeltaInput_new d order window, u)"
    if "input (alloc (length (rows out)) d) x = (Inr m, u)" "?short m" for x m u
    using that assms(3) by (cases m) (auto simp: DeltaInput_Compute_def OnlineDeltaInput_new_def Let_def short_batch_def)
  from deltain.all_emitted [where alloc = alloc and out = out and input = input and d = d and f = f
      and order = order and window = window, OF this long assms(1,2)]
  show ?thesis unfolding Let_def by blast
qed

section \<open>Witnesses\<close>

definition neighbours :: "vec list \<Rightarrow> nat \<Rightarrow> vec" where
  "neighbours w c = w ! c @ w ! (c + 1)"

theorem delta_online_is_batch_witness:
  "\<exists>outs l. repeats (DeltaInput_Compute neighbours zeros scripted (zeros 2 4)) 3
      (OnlineDeltaInput_new 2 1 1, [(True, \<lparr>num_cols = 2, rows = [[4, 4]]\<rparr>), (True, batch2 1 5), (False, batch2 7 9)])
      = (Inr outs, l, [])
    \<and> map fst outs = [True, True, False]
    \<and> all_rows outs = [[1, 0, 5, 0], [5, 0, 7, 0], [7, 0, 9, 0]]"
proof -
  let ?ms = "[(True, \<lparr>num_cols = 2, rows = [[4, 4]]\<rparr>), (True, batch2 1 5), (False, batch2 7 9)]"
  have run: "repeats (scripted (zeros (length (rows (zeros 2 4))) 2)) 3 ?ms = (Inr ?ms, [])"
    by (simp add: andthen_Inr numeral_3_eq_3)
  have ok: "\<forall>m \<in> set ?ms. matrix_ok 2 (snd m)"
    by (simp add: matrix_ok_def batch2_def)
  have dims: "num_cols (zeros 2 4) = 2 * (1 + 1)" "1 * 1 < length (rows (zeros 2 4))" by (simp_all add: zeros_def)
  show ?thesis
    using delta_online_is_batch [where alloc = zeros and out = "zeros 2 4" and input = scripted and d = 2
        and f = neighbours, OF run ok dims]
    by (simp add: batch2_def neighbours_def context_rows_def short_batch_def zeros_def)
qed

end
