(* ===== verification/Sockets.thy ===== *)
theory Sockets
  imports Prelude
begin

text \<open>
  The socket wrapper (\<open>src/Socket.cc\<close>) and the set-up of the listening socket
  (\<open>src/Server.cc\<close>). The operating system's calls are parameters: a record of functions on
  a state of the network. What the code relies on is the predicate \<open>os_ok\<close>, the documented
  behaviour of \<open>send\<close> and \<open>recv\<close> on a stream socket.
\<close>

section \<open>The operating system's calls\<close>

text \<open>
  \<open>recv\<close> with a maximal number of bytes: \<^const>\<open>None\<close> is the return value -1, an empty list
  the return value 0 of a closed connection. \<open>send\<close> returns the number of bytes it took, or
  a negative value.
\<close>

record 's os =
  os_recv :: "'s \<Rightarrow> nat \<Rightarrow> byte list option \<times> 's"
  os_send :: "'s \<Rightarrow> byte list \<Rightarrow> int \<times> 's"

text \<open>
  The bytes still to be delivered by the peer and the bytes already sent to it: \<open>recv\<close>
  delivers the next bytes of the stream, at most as many as asked for, and \<open>send\<close> transmits
  a prefix of its buffer. \<open>os_live\<close>: \<open>recv\<close> does not fail while bytes are outstanding.
\<close>

definition os_ok :: "'s os \<Rightarrow> ('s \<Rightarrow> byte list) \<Rightarrow> ('s \<Rightarrow> byte list) \<Rightarrow> bool" where
  "os_ok os inc out \<longleftrightarrow>
     (\<forall>s n bs t. os_recv os s n = (Some bs, t) \<longrightarrow>
        length bs \<le> n \<and> inc s = bs @ inc t \<and> out t = out s) \<and>
     (\<forall>s n t. os_recv os s n = (None, t) \<longrightarrow> inc t = inc s \<and> out t = out s) \<and>
     (\<forall>s d k t. os_send os s d = (k, t) \<longrightarrow>
        k \<le> int (length d) \<and> inc t = inc s \<and> out t = out s @ take (nat k) d)"

definition os_live :: "'s os \<Rightarrow> ('s \<Rightarrow> byte list) \<Rightarrow> bool" where
  "os_live os inc \<longleftrightarrow>
     (\<forall>s n. 0 < n \<and> inc s \<noteq> [] \<longrightarrow> (\<exists>b bs t. os_recv os s n = (Some (b # bs), t)))"

definition os_sends :: "'s os \<Rightarrow> bool" where
  "os_sends os \<longleftrightarrow> (\<forall>s d. fst (os_send os s d) = int (length d))"

section \<open>Send and Receive\<close>

text \<open>
  \<open>Send\<close> of \<open>len\<close> bytes at \<open>data\<close>: the program exits unless \<open>send\<close> takes all of them. A
  length that the buffer does not have is a read outside the buffer.
\<close>

definition Send :: "'s os \<Rightarrow> byte list \<Rightarrow> int \<Rightarrow> ('s, unit) prog" where
  "Send os data len = (\<lambda>s.
     if len < 0 \<or> int (length data) < len then (Inl OutOfBounds, s)
     else (case os_send os s (take (nat len) data) of
         (k, t) \<Rightarrow> if k \<noteq> len then (Inl (Exit 1), t) else (Inr (), t)))"

text \<open>
  \<open>Receive\<close> of \<open>len\<close> bytes into a buffer of \<open>cap\<close> bytes: the loop of lines 55 to 62, with
  the bytes received so far. Writing past the end of the buffer is a fault of its own.
\<close>

function Receive_loop :: "'s os \<Rightarrow> nat \<Rightarrow> int \<Rightarrow> byte list \<Rightarrow> ('s, byte list) prog" where
  "Receive_loop os cap len acc s =
     (if int (length acc) < len then
        (case os_recv os s (nat (len - int (length acc))) of
           (None, t) \<Rightarrow> (Inl (Exit 1), t)
         | (Some bs, t) \<Rightarrow>
             if bs = [] then (Inl (Exit 1), t)
             else if cap < length acc + length bs then (Inl OutOfBounds, t)
             else Receive_loop os cap len (acc @ bs) t)
      else (Inr acc, s))"
  by pat_completeness auto
termination
  by (relation "measure (\<lambda>(os, cap, len, acc, s). nat (len - int (length acc)))")
    (auto simp: neq_Nil_conv)

declare Receive_loop.simps [simp del]

definition Receive :: "'s os \<Rightarrow> nat \<Rightarrow> int \<Rightarrow> ('s, byte list) prog" where
  "Receive os cap len = Receive_loop os cap len []"

lemma Send_Inr:
  assumes "os_ok os inc out" and "Send os data len s = (Inr u, t)"
  shows "0 \<le> len \<and> len \<le> int (length data) \<and> inc t = inc s
    \<and> out t = out s @ take (nat len) data"
  using assms by (auto simp: Send_def os_ok_def split: if_splits prod.splits)

lemma Send_complete:
  assumes "os_ok os inc out" and "os_sends os" and "0 \<le> len" and "len \<le> int (length data)"
  shows "\<exists>t. Send os data len s = (Inr (), t) \<and> inc t = inc s
    \<and> out t = out s @ take (nat len) data"
proof -
  obtain k t where k: "os_send os s (take (nat len) data) = (k, t)" by fastforce
  with assms(2) have "k = int (length (take (nat len) data))"
    unfolding os_sends_def by (metis fst_conv)
  then have "k = len" using assms(3,4) by auto
  with k assms show ?thesis by (auto simp: Send_def os_ok_def)
qed

text \<open>Whatever the sizes of the pieces, a successful \<open>Receive\<close> returns the next bytes.\<close>

lemma Receive_loop_Inr:
  "os_ok os inc out \<Longrightarrow> Receive_loop os cap len acc s = (Inr bs, t) \<Longrightarrow> int (length acc) \<le> len \<Longrightarrow>
     acc @ inc s = bs @ inc t \<and> int (length bs) = len \<and> out t = out s"
proof (induction os cap len acc s rule: Receive_loop.induct)
  case (1 os cap len acc s)
  show ?case
  proof (cases "int (length acc) < len")
    case False
    with 1 show ?thesis by (simp add: Receive_loop.simps [of os cap len acc s])
  next
    case True
    obtain r u where r: "os_recv os s (nat (len - int (length acc))) = (r, u)" by fastforce
    with "1.prems"(2) True obtain cs where cs: "r = Some cs" "cs \<noteq> []"
      "length acc + length cs \<le> cap" "Receive_loop os cap len (acc @ cs) u = (Inr bs, t)"
      by (auto simp: Receive_loop.simps [of os cap len acc s] split: option.splits if_splits)
    from r cs(1) "1.prems"(1) have ok: "length cs \<le> nat (len - int (length acc))"
      "inc s = cs @ inc u" "out u = out s"
      by (auto simp: os_ok_def)
    then have "int (length (acc @ cs)) \<le> len" using True by auto
    from "1.IH" [OF True r [symmetric] cs(1) cs(2) _ "1.prems"(1) cs(4) this] cs(3) ok
    show ?thesis by simp
  qed
qed

lemma Receive_loop_total:
  "os_ok os inc out \<Longrightarrow> os_live os inc \<Longrightarrow> int (length acc) \<le> len \<Longrightarrow>
     len \<le> int (length acc + length (inc s)) \<Longrightarrow> len \<le> int cap \<Longrightarrow>
     \<exists>t. Receive_loop os cap len acc s = (Inr (take (nat len) (acc @ inc s)), t)"
proof (induction os cap len acc s rule: Receive_loop.induct)
  case (1 os cap len acc s)
  show ?case
  proof (cases "int (length acc) < len")
    case False
    with "1.prems" show ?thesis by (simp add: Receive_loop.simps [of os cap len acc s])
  next
    case True
    with "1.prems"(4) have "inc s \<noteq> []" by auto
    with "1.prems"(2) True obtain b cs u
      where r: "os_recv os s (nat (len - int (length acc))) = (Some (b # cs), u)"
      unfolding os_live_def by (metis zero_less_nat_eq diff_gt_0_iff_gt)
    from r "1.prems"(1) have ok: "length (b # cs) \<le> nat (len - int (length acc))"
      "inc s = (b # cs) @ inc u"
      unfolding os_ok_def by blast+
    then have le: "int (length (acc @ b # cs)) \<le> len" using True by auto
    then have "\<not> cap < length acc + length (b # cs)" using "1.prems"(5) by simp
    from "1.IH" [OF True r [symmetric] refl _ this "1.prems"(1,2) le _ "1.prems"(5)]
      "1.prems"(4) ok(2) True r this
    show ?thesis by (auto simp: Receive_loop.simps [of os cap len acc s])
  qed
qed

text \<open>A stream that ends too early, or a buffer that is too small.\<close>

lemma Receive_loop_fails:
  "os_ok os inc out \<Longrightarrow> int (length acc) \<le> len \<Longrightarrow> int (length acc + length (inc s)) < len \<Longrightarrow>
     len \<le> int cap \<Longrightarrow> \<exists>t. Receive_loop os cap len acc s = (Inl (Exit 1), t)"
proof (induction os cap len acc s rule: Receive_loop.induct)
  case (1 os cap len acc s)
  have True: "int (length acc) < len" using "1.prems"(3) by simp
  obtain r u where r: "os_recv os s (nat (len - int (length acc))) = (r, u)" by fastforce
  show ?case
  proof (cases "r = None \<or> r = Some []")
    case False
    then obtain b cs where cs: "r = Some (b # cs)" by (cases r) (auto simp: neq_Nil_conv)
    from r cs "1.prems"(1) have ok: "length (b # cs) \<le> nat (len - int (length acc))"
      "inc s = (b # cs) @ inc u"
      unfolding os_ok_def by blast+
    then have le: "int (length (acc @ b # cs)) \<le> len" using True by auto
    then have "\<not> cap < length acc + length (b # cs)" using "1.prems"(4) by simp
    from "1.IH" [OF True r [symmetric] cs _ this "1.prems"(1) le _ "1.prems"(4)]
      "1.prems"(3) ok(2) True r cs this
    show ?thesis by (auto simp: Receive_loop.simps [of os cap len acc s])
  qed (use True r in \<open>auto simp: Receive_loop.simps [of os cap len acc s]\<close>)
qed

lemma Receive_loop_overflow:
  "os_ok os inc out \<Longrightarrow> os_live os inc \<Longrightarrow> length acc \<le> cap \<Longrightarrow> int cap < len \<Longrightarrow>
     len \<le> int (length acc + length (inc s)) \<Longrightarrow>
     \<exists>t. Receive_loop os cap len acc s = (Inl OutOfBounds, t)"
proof (induction os cap len acc s rule: Receive_loop.induct)
  case (1 os cap len acc s)
  have True: "int (length acc) < len" using "1.prems"(3,4) by simp
  with "1.prems"(5) have "inc s \<noteq> []" by auto
  with "1.prems"(2) True obtain b cs u
    where r: "os_recv os s (nat (len - int (length acc))) = (Some (b # cs), u)"
    unfolding os_live_def by (metis zero_less_nat_eq diff_gt_0_iff_gt)
  from r "1.prems"(1) have ok: "inc s = (b # cs) @ inc u" unfolding os_ok_def by blast
  show ?case
  proof (cases "cap < length acc + length (b # cs)")
    case False
    then have "length (acc @ b # cs) \<le> cap" by simp
    from "1.IH" [OF True r [symmetric] refl _ False "1.prems"(1,2) this "1.prems"(4)]
      "1.prems"(5) ok True r False
    show ?thesis by (auto simp: Receive_loop.simps [of os cap len acc s])
  qed (use True r in \<open>simp add: Receive_loop.simps [of os cap len acc s]\<close>)
qed

lemma Receive_Inr:
  "os_ok os inc out \<Longrightarrow> Receive os cap len s = (Inr bs, t) \<Longrightarrow> 0 \<le> len \<Longrightarrow>
     inc s = bs @ inc t \<and> int (length bs) = len \<and> out t = out s"
  using Receive_loop_Inr [of os inc out cap len "[]" s bs t] by (simp add: Receive_def)

lemma Receive_complete:
  assumes "os_ok os inc out" and "os_live os inc" and "0 \<le> len" and "len \<le> int cap"
    and "len \<le> int (length (inc s))"
  shows "\<exists>t. Receive os cap len s = (Inr (take (nat len) (inc s)), t)
    \<and> inc t = drop (nat len) (inc s) \<and> out t = out s"
proof -
  obtain t where t: "Receive os cap len s = (Inr (take (nat len) (inc s)), t)"
    using Receive_loop_total [of os inc out "[]" len s cap] assms by (auto simp: Receive_def)
  from Receive_Inr [OF assms(1) t assms(3)] have "inc s = take (nat len) (inc s) @ inc t" "out t = out s"
    by auto
  then show ?thesis using t by (metis append_take_drop_id same_append_eq)
qed

text \<open>The common case: the next bytes of the stream are known.\<close>

lemma Receive_append:
  assumes "os_ok os inc out" and "os_live os inc" and "inc s = bs @ rest"
    and "int (length bs) = len" and "length bs \<le> cap"
  shows "\<exists>t. Receive os cap len s = (Inr bs, t) \<and> inc t = rest \<and> out t = out s"
  using Receive_complete [OF assms(1,2), of len cap s] assms(3-5) by auto

text \<open>
  C27. \<open>Receive\<close> does not depend on how the network cuts the stream: with a buffer that is
  large enough it returns exactly the next \<open>len\<close> bytes and leaves the rest, and if the
  connection ends before, the program exits with status 1.
\<close>

theorem Receive_is_next_bytes:
  assumes "os_ok os inc out" and "os_live os inc" and "0 \<le> len" and "len \<le> int cap"
  shows "\<exists>t. if len \<le> int (length (inc s))
    then Receive os cap len s = (Inr (take (nat len) (inc s)), t)
      \<and> inc t = drop (nat len) (inc s) \<and> out t = out s
    else Receive os cap len s = (Inl (Exit 1), t)"
proof (cases "len \<le> int (length (inc s))")
  case True
  with Receive_complete [OF assms True] show ?thesis by simp
next
  case False
  then show ?thesis
    using Receive_loop_fails [of os inc out "[]" len s cap] assms by (simp add: Receive_def)
qed

text \<open>
  When the caller asks for more bytes than its buffer holds and the peer sends them,
  \<open>Receive\<close> writes past the end of the buffer.
\<close>

theorem Receive_overflows:
  assumes "os_ok os inc out" and "os_live os inc" and "int cap < len"
    and "len \<le> int (length (inc s))"
  shows "\<exists>t. Receive os cap len s = (Inl OutOfBounds, t)"
  using Receive_loop_overflow [of os inc out "[]" cap len s] assms by (simp add: Receive_def)

section \<open>Setting up the sockets\<close>

text \<open>
  The calls that create sockets, as functions on the state of the network. An address is
  the family, the address and the port in network byte order.
\<close>

record sockaddr =
  sin_family :: nat
  sin_addr :: "32 word"
  sin_port :: "16 word"

record 'n net =
  net_socket :: "'n \<Rightarrow> int \<times> 'n"
  net_bind :: "int \<Rightarrow> sockaddr \<Rightarrow> 'n \<Rightarrow> int \<times> 'n"
  net_listen :: "int \<Rightarrow> 'n \<Rightarrow> int \<times> 'n"
  net_accept :: "int \<Rightarrow> 'n \<Rightarrow> int \<times> 'n"
  net_connect :: "int \<Rightarrow> sockaddr \<Rightarrow> 'n \<Rightarrow> int \<times> 'n"
  net_inet_addr :: "string \<Rightarrow> 32 word"

definition AF_INET :: nat where
  "AF_INET = 2"

text \<open>\<open>htons\<close> of an \<open>int\<close> on a little-endian machine: the low 16 bits, bytes exchanged.\<close>

definition htons :: "cint \<Rightarrow> 16 word" where
  "htons p = (let q = ucast p :: 16 word in word_rotl 8 q)"

definition call_or_exit :: "('n \<Rightarrow> int \<times> 'n) \<Rightarrow> ('n, int) prog" where
  "call_or_exit f = (\<lambda>s. case f s of (r, t) \<Rightarrow> if r < 0 then (Inl (Exit 1), t) else (Inr r, t))"

definition server_address :: "cint \<Rightarrow> sockaddr" where
  "server_address port = \<lparr>sin_family = AF_INET, sin_addr = 0, sin_port = htons port\<rparr>"

text \<open>\<open>Server::Start\<close> up to its loop, one turn of the loop, and \<open>Socket::Connect\<close>.\<close>

definition Server_Start_listen :: "'n net \<Rightarrow> cint \<Rightarrow> ('n, int) prog" where
  "Server_Start_listen net port =
     andthen (call_or_exit (net_socket net)) (\<lambda>fd.
     andthen (call_or_exit (net_bind net fd (server_address port))) (\<lambda>_.
     andthen (call_or_exit (net_listen net fd)) (\<lambda>_. ret fd)))"

definition Server_accept :: "'n net \<Rightarrow> int \<Rightarrow> ('n, int) prog" where
  "Server_accept net fd = call_or_exit (net_accept net fd)"

definition Connect :: "'n net \<Rightarrow> string \<Rightarrow> cint \<Rightarrow> ('n, int) prog" where
  "Connect net serveraddr port =
     andthen (call_or_exit (net_socket net)) (\<lambda>fd.
     andthen (call_or_exit (net_connect net fd
       \<lparr>sin_family = AF_INET, sin_addr = net_inet_addr net serveraddr,
         sin_port = htons port\<rparr>)) (\<lambda>_. ret fd))"

lemma call_or_exit_Inr:
  "call_or_exit f s = (Inr r, t) \<longleftrightarrow> f s = (r, t) \<and> 0 \<le> r"
  by (auto simp: call_or_exit_def split: prod.splits if_splits)

lemma call_or_exit_Inl:
  "call_or_exit f s = (Inl e, t) \<longleftrightarrow> e = Exit 1 \<and> (\<exists>r. f s = (r, t) \<and> r < 0)"
  by (auto simp: call_or_exit_def split: prod.splits if_splits)

text \<open>
  \<open>Server::Start\<close> reaches its accept loop with the socket it created exactly when
  \<open>socket\<close>, \<open>bind\<close> on all interfaces at the port, and \<open>listen\<close> succeed in this order; the
  first failing call ends the process with status 1.
\<close>

theorem Server_Start_listen_outcome:
  "(Server_Start_listen net port s = (Inr fd, t) \<longleftrightarrow>
     (\<exists>u v r q. net_socket net s = (fd, u) \<and> 0 \<le> fd
        \<and> net_bind net fd (server_address port) u = (r, v) \<and> 0 \<le> r
        \<and> net_listen net fd v = (q, t) \<and> 0 \<le> q))
   \<and> (\<forall>e u. Server_Start_listen net port s = (Inl e, u) \<longrightarrow> e = Exit 1)"
  by (auto simp: Server_Start_listen_def andthen_Inr_iff andthen_Inl_iff call_or_exit_Inr
      call_or_exit_Inl)

section \<open>A connection whose deliveries are listed\<close>

text \<open>
  A network for concrete runs: the pieces in which the peer's bytes arrive, and the bytes
  sent. An empty inbox is a connection that the peer has closed.
\<close>

record conn =
  inbox :: "byte list list"
  outbox :: "byte list"

fun conn_next :: "byte list list \<Rightarrow> nat \<Rightarrow> byte list \<times> byte list list" where
  "conn_next [] n = ([], [])"
| "conn_next (b # bs) n =
     (if b = [] then conn_next bs n
      else if length b \<le> n then (b, bs) else (take n b, drop n b # bs))"

definition conn_os :: "conn os" where
  "conn_os = \<lparr>
     os_recv = (\<lambda>c n. case conn_next (inbox c) n of (bs, rest) \<Rightarrow> (Some bs, c\<lparr>inbox := rest\<rparr>)),
     os_send = (\<lambda>c d. (int (length d), c\<lparr>outbox := outbox c @ d\<rparr>))\<rparr>"

definition incoming :: "conn \<Rightarrow> byte list" where
  "incoming c = concat (inbox c)"

lemma conn_next_ok:
  "conn_next bss n = (bs, rest) \<Longrightarrow> length bs \<le> n \<and> concat bss = bs @ concat rest"
  by (induction bss n rule: conn_next.induct) (auto split: if_splits simp: append_assoc [symmetric]
      simp del: append_assoc)

lemma conn_next_live: "0 < n \<Longrightarrow> concat bss \<noteq> [] \<Longrightarrow> fst (conn_next bss n) \<noteq> []"
  by (induction bss n rule: conn_next.induct) auto

lemma conn_os_ok: "os_ok conn_os incoming outbox"
  by (auto simp: os_ok_def conn_os_def incoming_def split: prod.splits dest: conn_next_ok)

lemma conn_os_live: "os_live conn_os incoming"
proof -
  have "\<exists>b bs t. os_recv conn_os s n = (Some (b # bs), t)" if "0 < n" "incoming s \<noteq> []" for s n
    using conn_next_live [OF that(1), of "inbox s"] that(2)
    by (cases "fst (conn_next (inbox s) n)")
      (auto simp: conn_os_def incoming_def split: prod.splits)
  then show ?thesis by (simp add: os_live_def)
qed

lemma conn_os_sends: "os_sends conn_os"
  by (simp add: os_sends_def conn_os_def)

theorem Receive_is_next_bytes_witness:
  "\<exists>t. Receive conn_os 4 3 \<lparr>inbox = [[1, 2], [3, 4]], outbox = []\<rparr> = (Inr [1, 2, 3], t)"
  using Receive_is_next_bytes [OF conn_os_ok conn_os_live, of 3 4
      "\<lparr>inbox = [[1, 2], [3, 4]], outbox = []\<rparr>"]
  by (auto simp: incoming_def)

theorem Receive_overflows_witness:
  "\<exists>t. Receive conn_os 1 3 \<lparr>inbox = [[1, 2], [3, 4]], outbox = []\<rparr> = (Inl OutOfBounds, t)"
  by (rule Receive_overflows [OF conn_os_ok conn_os_live]) (simp_all add: incoming_def)

text \<open>A network on which \<open>bind\<close> fails.\<close>

definition busy_port_net :: "unit net" where
  "busy_port_net = \<lparr>net_socket = (\<lambda>s. (3, s)), net_bind = (\<lambda>fd a s. (-1, s)),
     net_listen = (\<lambda>fd s. (0, s)), net_accept = (\<lambda>fd s. (4, s)),
     net_connect = (\<lambda>fd a s. (0, s)), net_inet_addr = (\<lambda>a. 0)\<rparr>"

theorem Server_Start_listen_outcome_witness:
  "Server_Start_listen busy_port_net 9000 () = (Inl (Exit 1), ())"
proof (cases "Server_Start_listen busy_port_net 9000 ()")
  case (Pair r t)
  with Server_Start_listen_outcome [of busy_port_net 9000 "()"] show ?thesis
    by (cases r) (auto simp: busy_port_net_def)
qed

end
