(* ===== verification/Protocol.thy ===== *)
theory Protocol
  imports Sockets
begin

text \<open>
  The packets of \<open>speechsvr/protocol.h\<close> and \<open>SendPacket\<close> (\<open>speechsvr/protocol.cc\<close>). The code
  sends C++ structures as they lie in memory; both ends are taken to have the same layout:
  little-endian 32-bit \<open>int\<close> and \<open>enum\<close>, one-byte \<open>bool\<close>, so a header is eight bytes.
\<close>

unbundle bit_operations_syntax

section \<open>Layouts\<close>

datatype PacketType =
  DECODE_REQUEST | DECODE_ACCEPT | DATA_WAVE | DATA_WAVE_REQUEST | DATA_FEATURE | DECODE_OUTPUT

fun type_code :: "PacketType \<Rightarrow> cint" where
  "type_code DECODE_REQUEST = 0"
| "type_code DECODE_ACCEPT = 1"
| "type_code DATA_WAVE = 2"
| "type_code DATA_WAVE_REQUEST = 3"
| "type_code DATA_FEATURE = 4"
| "type_code DECODE_OUTPUT = 5"

text \<open>The type field of a received header is whatever number the peer sent.\<close>

record PacketHeader =
  payload_length :: cint
  packet_type :: cint

record DataWaveRequest =
  num_samples :: cint
  sample_size :: cint

definition le32 :: "cint \<Rightarrow> byte list" where
  "le32 w = [ucast w, ucast (drop_bit 8 w), ucast (drop_bit 16 w), ucast (drop_bit 24 w)]"

fun of_le32 :: "byte list \<Rightarrow> cint" where
  "of_le32 [a, b, c, d] =
     ucast a OR push_bit 8 (ucast b) OR push_bit 16 (ucast c) OR push_bit 24 (ucast d)"
| "of_le32 _ = 0"

definition header_bytes :: "PacketHeader \<Rightarrow> byte list" where
  "header_bytes h = le32 (payload_length h) @ le32 (packet_type h)"

definition header_of :: "byte list \<Rightarrow> PacketHeader" where
  "header_of bs =
     \<lparr>payload_length = of_le32 (take 4 bs), packet_type = of_le32 (take 4 (drop 4 bs))\<rparr>"

definition wave_request_bytes :: "DataWaveRequest \<Rightarrow> byte list" where
  "wave_request_bytes r = le32 (num_samples r) @ le32 (sample_size r)"

definition wave_request_of :: "byte list \<Rightarrow> DataWaveRequest" where
  "wave_request_of bs =
     \<lparr>num_samples = of_le32 (take 4 bs), sample_size = of_le32 (take 4 (drop 4 bs))\<rparr>"

text \<open>\<open>DecodeRequest\<close> and \<open>DecodeResponse\<close> are one \<open>bool\<close> each.\<close>

definition bool_byte :: "bool \<Rightarrow> byte" where
  "bool_byte b = (if b then 1 else 0)"

definition byte_bool :: "byte \<Rightarrow> bool" where
  "byte_bool b \<longleftrightarrow> b \<noteq> 0"

lemma byte_bool_byte [simp]: "byte_bool (bool_byte b) = b"
  by (simp add: bool_byte_def byte_bool_def)

lemma length_le32 [simp]: "length (le32 w) = 4"
  by (simp add: le32_def)

lemma of_le32_le32 [simp]: "of_le32 (le32 w) = w"
proof (rule bit_word_eqI)
  fix n :: nat
  assume "n < LENGTH(32)"
  then consider "n < 8" | "8 \<le> n" "n < 16" | "16 \<le> n" "n < 24" | "24 \<le> n" "n < 32"
    by fastforce
  then show "bit (of_le32 (le32 w)) n = bit w n"
    by cases (auto simp: le32_def bit_simps)
qed

lemma le32_of_le32: "length bs = 4 \<Longrightarrow> le32 (of_le32 bs) = bs"
proof -
  assume "length bs = 4"
  then obtain a b c d where bs: "bs = [a, b, c, d]"
    by (auto simp: numeral_eq_Suc length_Suc_conv)
  have "ucast (of_le32 [a, b, c, d]) = a"
    by (rule bit_word_eqI) (auto simp: bit_simps)
  moreover have "ucast (drop_bit 8 (of_le32 [a, b, c, d])) = b"
    by (rule bit_word_eqI) (auto simp: bit_simps dest: bit_imp_le_length)
  moreover have "ucast (drop_bit 16 (of_le32 [a, b, c, d])) = c"
    by (rule bit_word_eqI) (auto simp: bit_simps dest: bit_imp_le_length)
  moreover have "ucast (drop_bit 24 (of_le32 [a, b, c, d])) = d"
    by (rule bit_word_eqI) (auto simp: bit_simps dest: bit_imp_le_length)
  ultimately show ?thesis by (simp add: bs le32_def)
qed

lemma length_header_bytes [simp]: "length (header_bytes h) = 8"
  by (simp add: header_bytes_def)

lemma length_wave_request_bytes [simp]: "length (wave_request_bytes r) = 8"
  by (simp add: wave_request_bytes_def)

lemma header_of_header_bytes [simp]: "header_of (header_bytes h) = h"
  by (simp add: header_of_def header_bytes_def)

lemma header_bytes_header_of: "length bs = 8 \<Longrightarrow> header_bytes (header_of bs) = bs"
  by (simp add: header_of_def header_bytes_def le32_of_le32)

lemma wave_request_of_bytes [simp]: "wave_request_of (wave_request_bytes r) = r"
  by (simp add: wave_request_of_def wave_request_bytes_def)

lemma type_code_inject [simp]: "type_code a = type_code b \<longleftrightarrow> a = b"
  by (cases a; cases b) simp_all

section \<open>Sending and receiving packets\<close>

text \<open>
  \<open>SendPacket\<close> with a payload buffer and the length to send. Every receiver of the code
  reads the header into a \<open>PacketHeader\<close> with the same call.
\<close>

definition SendPacket :: "'s os \<Rightarrow> PacketType \<Rightarrow> cint \<Rightarrow> byte list \<Rightarrow> ('s, unit) prog" where
  "SendPacket os ty len payload =
     andthen (Send os (header_bytes \<lparr>payload_length = len, packet_type = type_code ty\<rparr>) 8)
       (\<lambda>_. Send os payload (sint len))"

definition ReceiveHeader :: "'s os \<Rightarrow> ('s, PacketHeader) prog" where
  "ReceiveHeader os = andthen (Receive os 8 8) (\<lambda>bs. ret (header_of bs))"

definition packet :: "PacketType \<Rightarrow> byte list \<Rightarrow> byte list" where
  "packet ty payload =
     header_bytes \<lparr>payload_length = word_of_nat (length payload), packet_type = type_code ty\<rparr>
       @ payload"

lemma sint_small_length: "length xs < 2 ^ 31 \<Longrightarrow> sint (word_of_nat (length xs) :: cint) = int (length xs)"
  by (simp add: signed_of_nat signed_take_bit_int_eq_self)

lemma SendPacket_Inr:
  assumes "os_ok os inc out" and "SendPacket os ty len payload s = (Inr u, t)"
  shows "0 \<le> sint len \<and> sint len \<le> int (length payload) \<and> inc t = inc s
    \<and> out t = out s @ header_bytes \<lparr>payload_length = len, packet_type = type_code ty\<rparr>
        @ take (nat (sint len)) payload"
  using assms(2) unfolding SendPacket_def andthen_Inr_iff
  by (auto dest!: Send_Inr [OF assms(1)])

lemma SendPacket_complete:
  assumes "os_ok os inc out" and "os_sends os" and "length payload < 2 ^ 31"
    and "len = word_of_nat (length payload)"
  shows "\<exists>t. SendPacket os ty len payload s = (Inr (), t) \<and> inc t = inc s
    \<and> out t = out s @ packet ty payload"
proof -
  let ?h = "header_bytes \<lparr>payload_length = len, packet_type = type_code ty\<rparr>"
  obtain u where u: "Send os ?h 8 s = (Inr (), u)" "inc u = inc s" "out u = out s @ ?h"
    using Send_complete [OF assms(1,2), of 8 ?h s] by auto
  have len: "sint len = int (length payload)" using assms(3,4) by (simp add: sint_small_length)
  obtain t where t: "Send os payload (sint len) u = (Inr (), t)" "inc t = inc u"
    "out t = out u @ payload"
    using Send_complete [OF assms(1,2), of "sint len" payload u] len by auto
  from u t assms(4) show ?thesis
    by (auto simp: SendPacket_def packet_def andthen_Inr)
qed

lemma ReceiveHeader_append:
  assumes "os_ok os inc out" and "os_live os inc" and "inc s = header_bytes h @ rest"
  shows "\<exists>t. ReceiveHeader os s = (Inr h, t) \<and> inc t = rest \<and> out t = out s"
  using Receive_append [OF assms, of 8 8] by (auto simp: ReceiveHeader_def andthen_Inr)

lemma ReceiveHeader_Inr:
  "os_ok os inc out \<Longrightarrow> ReceiveHeader os s = (Inr h, t) \<Longrightarrow>
     inc s = header_bytes h @ inc t \<and> out t = out s"
  by (auto simp: ReceiveHeader_def andthen_Inr_iff header_bytes_header_of
      dest!: Receive_Inr [of os inc out 8 8])

text \<open>
  Encoding and decoding a header are inverse to each other, for every 32-bit length
  and every type number, known or not.
\<close>

theorem header_roundtrip:
  "header_of (header_bytes h) = h \<and> (length bs = 8 \<longrightarrow> header_bytes (header_of bs) = bs)"
  by (simp add: header_bytes_header_of)

text \<open>
  A packet written by \<open>SendPacket\<close> is read back by receiving the header and then as
  many bytes as it announces: the same type, the same payload, and nothing else of the
  stream is consumed, however the bytes are cut into pieces.
\<close>

theorem SendPacket_received:
  assumes "os_ok os inc out" and "os_sends os" and "length payload < 2 ^ 31"
    and "os_ok os' inc' out'" and "os_live os' inc'"
    and "SendPacket os ty (word_of_nat (length payload)) payload s = (Inr (), t)"
    and "inc' r = drop (length (out s)) (out t) @ rest" and "length payload \<le> cap"
  shows "\<exists>h u v. ReceiveHeader os' r = (Inr h, u) \<and> packet_type h = type_code ty
    \<and> Receive os' cap (sint (payload_length h)) u = (Inr payload, v) \<and> inc' v = rest"
proof -
  let ?h = "\<lparr>payload_length = word_of_nat (length payload), packet_type = type_code ty\<rparr>"
  have "out t = out s @ packet ty payload"
    using SendPacket_complete [OF assms(1-3) refl, of ty s] assms(6) by auto
  with assms(7) have "inc' r = header_bytes ?h @ (payload @ rest)"
    by (simp add: packet_def)
  from ReceiveHeader_append [OF assms(4,5) this] obtain u
    where u: "ReceiveHeader os' r = (Inr ?h, u)" "inc' u = payload @ rest" by blast
  from Receive_append [OF assms(4,5) u(2) _ assms(8), of "sint (payload_length ?h)"] assms(3)
  obtain v where "Receive os' cap (sint (payload_length ?h)) u = (Inr payload, v)" "inc' v = rest"
    by (auto simp: sint_small_length)
  with u show ?thesis by fastforce
qed

theorem header_roundtrip_witness:
  "header_bytes (header_of [1, 2, 3, 4, 5, 6, 7, 8]) = [1, 2, 3, 4, 5, 6, 7, 8]"
  using header_roundtrip [of undefined "[1, 2, 3, 4, 5, 6, 7, 8]"] by simp

theorem SendPacket_received_witness:
  "\<exists>h u v. ReceiveHeader conn_os \<lparr>inbox = [[2, 0, 0], [0, 2, 0, 0, 0, 7], [9]], outbox = []\<rparr> = (Inr h, u)
    \<and> packet_type h = type_code DATA_WAVE
    \<and> Receive conn_os 2 (sint (payload_length h)) u = (Inr [7, 9], v) \<and> incoming v = []"
proof (rule SendPacket_received [OF conn_os_ok conn_os_sends _ conn_os_ok conn_os_live])
  show "SendPacket conn_os DATA_WAVE (word_of_nat (length [7, 9 :: byte])) [7, 9]
      \<lparr>inbox = [], outbox = []\<rparr> =
    (Inr (), \<lparr>inbox = [], outbox = [2, 0, 0, 0, 2, 0, 0, 0, 7, 9]\<rparr>)"
    by code_simp
qed (simp_all add: incoming_def)

end
