(* ===== verification/Config.thy ===== *)
theory Config
  imports Prelude "HOL-Library.AList"
begin

text \<open>
  The configuration file reader \<open>speechsvr/Config.cc\<close>: \<open>trim\<close>, the loop of the constructor
  over the lines of the file, and the three getters. Strings are lists of characters; the
  \<open>std::map\<close> is an association list with distinct keys, whose length is \<open>Size()\<close>. The real
  value of \<open>atof\<close> is exact; the rounding to \<open>float\<close> is not modelled.
\<close>

section \<open>Strings\<close>

definition is_blank :: "char \<Rightarrow> bool" where
  "is_blank c \<longleftrightarrow> c = CHR '' '' \<or> c = CHR 0x09 \<or> c = CHR 0x0D \<or> c = CHR 0x0A"

text \<open>\<open>find_first_not_of\<close> and \<open>find_last_not_of\<close> of the blanks, and \<open>find\<close> of a character;
  \<^const>\<open>None\<close> is \<open>string::npos\<close>.\<close>

fun find_first_not_blank :: "string \<Rightarrow> nat option" where
  "find_first_not_blank [] = None"
| "find_first_not_blank (c # cs) =
     (if is_blank c then map_option Suc (find_first_not_blank cs) else Some 0)"

fun find_last_not_blank :: "string \<Rightarrow> nat option" where
  "find_last_not_blank [] = None"
| "find_last_not_blank (c # cs) =
     (case find_last_not_blank cs of
        Some n \<Rightarrow> Some (Suc n)
      | None \<Rightarrow> if is_blank c then None else Some 0)"

fun find_char :: "char \<Rightarrow> string \<Rightarrow> nat option" where
  "find_char x [] = None"
| "find_char x (c # cs) = (if c = x then Some 0 else map_option Suc (find_char x cs))"

definition trim :: "string \<Rightarrow> string" where
  "trim s =
     (let s1 = (case find_last_not_blank s of Some pos \<Rightarrow> take (pos + 1) s | None \<Rightarrow> [])
      in case find_first_not_blank s1 of Some pos \<Rightarrow> drop pos s1 | None \<Rightarrow> s1)"

lemma find_first_not_blank_None: "find_first_not_blank s = None \<longleftrightarrow> (\<forall>c \<in> set s. is_blank c)"
  by (induction s) auto

lemma find_first_not_blank_Some:
  "find_first_not_blank s = Some n \<Longrightarrow> drop n s = dropWhile is_blank s"
  by (induction s arbitrary: n) (auto split: if_splits)

lemma find_last_not_blank_None: "find_last_not_blank s = None \<longleftrightarrow> (\<forall>c \<in> set s. is_blank c)"
  by (induction s) (auto split: option.splits)

lemma dropWhile_rev_snoc:
  "(\<exists>c \<in> set s. \<not> P c) \<Longrightarrow> rev (dropWhile P (rev (c # s))) = c # rev (dropWhile P (rev s))"
  by (auto simp: dropWhile_append dropWhile_eq_Nil_conv)

lemma find_last_not_blank_Some:
  "find_last_not_blank s = Some n \<Longrightarrow> take (Suc n) s = rev (dropWhile is_blank (rev s))"
proof (induction s arbitrary: n)
  case (Cons c s)
  show ?case
  proof (cases "find_last_not_blank s")
    case None
    with Cons.prems have c: "\<not> is_blank c" "n = 0" by (auto split: if_splits)
    from None have "\<forall>d \<in> set s. is_blank d" by (simp add: find_last_not_blank_None)
    with c show ?thesis by (simp add: dropWhile_append dropWhile_eq_Nil_conv)
  next
    case (Some k)
    then have "\<exists>d \<in> set s. \<not> is_blank d"
      using find_last_not_blank_None [of s] by auto
    from dropWhile_rev_snoc [where P = is_blank, OF this] Some Cons show ?thesis by auto
  qed
qed simp

lemma trim_eq: "trim s = dropWhile is_blank (rev (dropWhile is_blank (rev s)))"
proof (cases "find_last_not_blank s")
  case None
  then have "dropWhile is_blank (rev s) = []"
    by (simp add: find_last_not_blank_None dropWhile_eq_Nil_conv)
  then have "dropWhile is_blank (rev (dropWhile is_blank (rev s))) = []"
    by (metis dropWhile.simps(1) rev.simps(1))
  moreover have "trim s = []" using None by (simp add: trim_def)
  ultimately show ?thesis by (simp only:)
next
  case (Some n)
  let ?s1 = "rev (dropWhile is_blank (rev s))"
  have s1: "take (n + 1) s = ?s1" using find_last_not_blank_Some [OF Some] by simp
  show ?thesis
  proof (cases "find_first_not_blank ?s1")
    case None
    have "\<exists>c \<in> set s. \<not> is_blank c" using Some find_last_not_blank_None [of s] by auto
    then have "?s1 \<noteq> []" and "\<not> is_blank (last ?s1)"
      using hd_dropWhile [of is_blank "rev s"]
    by (simp_all only: dropWhile_eq_Nil_conv last_rev rev_is_Nil_conv set_rev) blast+
    then have "\<exists>c \<in> set ?s1. \<not> is_blank c" using last_in_set by blast
    with None show ?thesis by (simp only: find_first_not_blank_None) blast
  next
    case (Some k)
    with find_first_not_blank_Some [OF Some] s1 \<open>find_last_not_blank s = Some n\<close> show ?thesis
      by (simp add: trim_def)
  qed
qed

text \<open>A string without blanks at its ends, which \<open>trim\<close> leaves alone.\<close>

definition trimmed :: "string \<Rightarrow> bool" where
  "trimmed s \<longleftrightarrow> s = [] \<or> \<not> is_blank (hd s) \<and> \<not> is_blank (last s)"

lemma trim_trimmed: "trimmed s \<Longrightarrow> trim s = s"
proof (cases "s = []")
  case False
  assume "trimmed s"
  with False have "dropWhile is_blank (rev s) = rev s" "dropWhile is_blank s = s"
    by (auto simp: trimmed_def hd_rev [symmetric] dropWhile_eq_self_iff)
  then show ?thesis by (simp add: trim_eq)
qed (simp add: trim_eq)

lemma trimmed_trim: "trimmed (trim s)"
proof (cases "trim s = []")
  case False
  let ?r = "rev (dropWhile is_blank (rev s))"
  from False have ne: "dropWhile is_blank ?r \<noteq> []" by (simp add: trim_eq)
  then have "dropWhile is_blank (rev s) \<noteq> []"
    by (metis dropWhile.simps(1) rev.simps(1))
  then have "\<not> is_blank (last ?r)"
    using hd_dropWhile [of is_blank "rev s"] by (simp add: last_rev)
  moreover have "last (dropWhile is_blank ?r) = last ?r"
    by (metis last_appendR ne takeWhile_dropWhile_id)
  ultimately show ?thesis
    using hd_dropWhile [OF ne] by (simp add: trimmed_def trim_eq)
qed (simp add: trimmed_def)

lemma trim_blanks: "\<forall>c \<in> set p. is_blank c \<Longrightarrow> \<forall>c \<in> set q. is_blank c \<Longrightarrow>
    trimmed s \<Longrightarrow> trim (p @ s @ q) = s"
proof (cases "s = []")
  case True
  moreover assume "\<forall>c \<in> set p. is_blank c" "\<forall>c \<in> set q. is_blank c"
  ultimately have "dropWhile is_blank (rev (p @ s @ q)) = []"
    unfolding dropWhile_eq_Nil_conv using True by auto
  with True show ?thesis by (simp only: trim_eq rev.simps dropWhile.simps)
next
  case False
  assume p: "\<forall>c \<in> set p. is_blank c" and q: "\<forall>c \<in> set q. is_blank c" and t: "trimmed s"
  have "dropWhile is_blank (rev (p @ s @ q)) = rev (p @ s)"
    using False t q
    by (cases s rule: rev_cases) (auto simp: trimmed_def dropWhile_append)
  moreover have "dropWhile is_blank (p @ s) = s"
    using False t p by (cases s) (auto simp: trimmed_def dropWhile_append)
  ultimately show ?thesis by (simp only: trim_eq rev_rev_ident)
qed

text \<open>
  \<open>trim\<close> removes exactly the blanks at both ends: it is the middle part of the string
  without blank ends, unchanged by a second \<open>trim\<close>.
\<close>

theorem trim_removes_blank_ends:
  "\<exists>p q. s = p @ trim s @ q \<and> (\<forall>c \<in> set (p @ q). is_blank c) \<and> trimmed (trim s)
    \<and> trim (trim s) = trim s"
proof -
  let ?r = "dropWhile is_blank (rev s)"
  let ?q = "rev (takeWhile is_blank (rev s))"
  have "rev s = takeWhile is_blank (rev s) @ ?r" by simp
  then have "s = rev (takeWhile is_blank (rev s) @ ?r)" by (metis rev_rev_ident)
  then have s: "s = rev ?r @ ?q" by (simp only: rev_append)
  have "rev ?r = takeWhile is_blank (rev ?r) @ trim s" by (simp add: trim_eq)
  with s have "s = takeWhile is_blank (rev ?r) @ trim s @ ?q" by (metis append.assoc)
  moreover have "\<forall>c \<in> set (takeWhile is_blank (rev ?r) @ ?q). is_blank c"
    by (auto dest: set_takeWhileD)
  ultimately show ?thesis using trimmed_trim [of s] trim_trimmed [of "trim s"] by blast
qed

section \<open>The constructor\<close>

text \<open>
  The lines that \<open>while (ifs.good()) getline\<close> produces: one more than the file has newline
  characters, the last one (possibly empty) ended by the end of the file.
\<close>

fun split_lines :: "string \<Rightarrow> string list" where
  "split_lines [] = [[]]"
| "split_lines (c # cs) =
     (if c = CHR 0x0A then [] # split_lines cs
      else case split_lines cs of l # ls \<Rightarrow> (c # l) # ls | [] \<Rightarrow> [[c]])"

type_synonym config = "(string \<times> string) list"

definition Config_line :: "config \<Rightarrow> string \<Rightarrow> fault + config" where
  "Config_line m l =
     (let line = trim l in
      if line \<noteq> [] \<and> hd line \<noteq> CHR ''#'' then
        (case find_char (CHR ''='') line of
           None \<Rightarrow> Inl AssertFailed
         | Some pos \<Rightarrow>
             let key = trim (take pos line); value = trim (drop (pos + 1) line)
             in Inr (AList.update key value m))
      else Inr m)"

fun Config_lines :: "config \<Rightarrow> string list \<Rightarrow> fault + config" where
  "Config_lines m [] = Inr m"
| "Config_lines m (l # ls) =
     (case Config_line m l of Inl e \<Rightarrow> Inl e | Inr m' \<Rightarrow> Config_lines m' ls)"

text \<open>The content of the file, or \<^const>\<open>None\<close> when it cannot be opened: then the stream is
  never good and the configuration stays empty.\<close>

fun Config_new :: "string option \<Rightarrow> fault + config" where
  "Config_new None = Inr []"
| "Config_new (Some text) = Config_lines [] (split_lines text)"

definition Size :: "config \<Rightarrow> nat" where
  "Size m = length m"

section \<open>The getters\<close>

text \<open>\<open>operator[]\<close> of \<open>std::map\<close> inserts the empty string for a key it does not find.\<close>

definition GetString :: "config \<Rightarrow> string \<Rightarrow> string \<times> config" where
  "GetString m key =
     (case map_of m key of Some v \<Rightarrow> (v, m) | None \<Rightarrow> ([], AList.update key [] m))"

definition is_space :: "char \<Rightarrow> bool" where
  "is_space c \<longleftrightarrow> c = CHR '' '' \<or> (9 \<le> (of_char c :: nat) \<and> (of_char c :: nat) \<le> 13)"

definition is_digit :: "char \<Rightarrow> bool" where
  "is_digit c \<longleftrightarrow> 48 \<le> (of_char c :: nat) \<and> (of_char c :: nat) \<le> 57"

fun digits_value :: "nat \<Rightarrow> string \<Rightarrow> nat" where
  "digits_value n [] = n"
| "digits_value n (c # cs) = (if is_digit c then digits_value (10 * n + (of_char c - 48)) cs else n)"

definition sign_of :: "string \<Rightarrow> int \<times> string" where
  "sign_of s = (case s of
     [] \<Rightarrow> (1, [])
   | c # cs \<Rightarrow> if c = CHR ''-'' then (-1, cs) else if c = CHR ''+'' then (1, cs) else (1, s))"

text \<open>\<open>atoi\<close>: leading white space, a sign, the longest run of digits (possibly none, then
  0). A value outside \<open>int\<close> is undefined behaviour: \<^const>\<open>None\<close>.\<close>

definition atoi :: "string \<Rightarrow> int option" where
  "atoi s = (case sign_of (dropWhile is_space s) of (sg, t) \<Rightarrow>
     let v = sg * int (digits_value 0 t)
     in if - (2 ^ 31) \<le> v \<and> v < 2 ^ 31 then Some v else None)"

text \<open>
  \<open>atof\<close> of a decimal literal: sign, digits with an optional point, an optional exponent
  (ignored when it has no digit). The other forms that \<open>atof\<close> knows (hexadecimal, infinity,
  not-a-number) are outside the model: \<^const>\<open>None\<close>.
\<close>

definition exponent_of :: "string \<Rightarrow> int" where
  "exponent_of s = (case s of
     [] \<Rightarrow> 0
   | c # cs \<Rightarrow>
       if c = CHR ''e'' \<or> c = CHR ''E''
       then (case sign_of cs of (sg, t) \<Rightarrow> sg * int (digits_value 0 t)) else 0)"

definition decimal_value :: "string \<Rightarrow> real" where
  "decimal_value s =
     (let whole = takeWhile is_digit s; r = dropWhile is_digit s;
          point = r \<noteq> [] \<and> hd r = CHR ''.'';
          frac = (if point then takeWhile is_digit (tl r) else []);
          e = (if point then dropWhile is_digit (tl r) else r)
      in if whole = [] \<and> frac = [] then 0
         else real (digits_value 0 (whole @ frac)) / 10 ^ length frac
           * 10 powi exponent_of e)"

definition atof :: "string \<Rightarrow> real option" where
  "atof s = (case sign_of (dropWhile is_space s) of (sg, t) \<Rightarrow>
     if (\<exists>c \<in> set (take 1 t). c \<in> set ''iInN'') \<or> take 2 t = ''0x'' \<or> take 2 t = ''0X''
     then None else Some (of_int sg * decimal_value t))"

definition GetInt :: "config \<Rightarrow> string \<Rightarrow> int option \<times> config" where
  "GetInt m key = (case GetString m key of (v, m') \<Rightarrow> (atoi v, m'))"

definition GetFloat :: "config \<Rightarrow> string \<Rightarrow> real option \<times> config" where
  "GetFloat m key = (case GetString m key of (v, m') \<Rightarrow> (atof v, m'))"

text \<open>The values of \<open>test/ConfigTest.cc\<close>, test \<open>Get\<close>.\<close>

lemma atoi_examples: "atoi ''-123'' = Some (-123)" "atoi '''' = Some 0" "atoi ''12ab'' = Some 12"
  "atoi ''2147483648'' = None" "atoi ''-2147483648'' = Some (-2147483648)"
  by (simp_all add: atoi_def sign_of_def is_space_def is_digit_def)

lemma atof_examples: "atof ''-0.555'' = Some (-0.555)" "atof ''1e-5'' = Some (1 / 10 ^ 5)"
  "atof ''inf'' = None"
  by (simp_all add: atof_def sign_of_def is_space_def decimal_value_def is_digit_def exponent_of_def
      power_int_def power_divide)

section \<open>What the file means\<close>

text \<open>
  The reading of a file as a list of bindings, line by line: a line whose trimmed form is
  neither empty nor a comment binds what is left of its first \<open>=\<close> to what is right of it.
\<close>

definition significant :: "string \<Rightarrow> bool" where
  "significant l \<longleftrightarrow> trim l \<noteq> [] \<and> hd (trim l) \<noteq> CHR ''#''"

definition line_binding :: "string \<Rightarrow> string \<times> string" where
  "line_binding l = (let line = trim l in
     (trim (takeWhile (\<lambda>c. c \<noteq> CHR ''='') line), trim (tl (dropWhile (\<lambda>c. c \<noteq> CHR ''='') line))))"

definition bindings :: "string list \<Rightarrow> (string \<times> string) list" where
  "bindings ls = map line_binding (filter significant ls)"

lemma find_char_None: "find_char x s = None \<longleftrightarrow> x \<notin> set s"
  by (induction s) auto

lemma find_char_Some:
  "find_char x s = Some n \<Longrightarrow> x \<in> set s \<and> take n s = takeWhile (\<lambda>c. c \<noteq> x) s
    \<and> drop (Suc n) s = tl (dropWhile (\<lambda>c. c \<noteq> x) s)"
  by (induction s arbitrary: n) (auto split: if_splits)

lemma Config_line_eq:
  "Config_line m l =
     (if significant l \<and> CHR ''='' \<notin> set (trim l) then Inl AssertFailed
      else if significant l then Inr (AList.update (fst (line_binding l)) (snd (line_binding l)) m)
      else Inr m)"
proof (cases "find_char (CHR ''='') (trim l)")
  case None
  moreover from None have "CHR ''='' \<notin> set (trim l)" using find_char_None by metis
  ultimately show ?thesis by (auto simp: Config_line_def significant_def Let_def)
next
  case (Some n)
  with find_char_Some [OF Some] show ?thesis
    by (auto simp: Config_line_def significant_def line_binding_def Let_def)
qed

definition malformed :: "string \<Rightarrow> bool" where
  "malformed l \<longleftrightarrow> significant l \<and> CHR ''='' \<notin> set (trim l)"

lemma Config_lines_fails:
  "\<exists>l \<in> set ls. malformed l \<Longrightarrow> Config_lines m ls = Inl AssertFailed"
  by (induction ls arbitrary: m) (auto simp: Config_line_eq malformed_def)

lemma Config_lines_Inr:
  "\<forall>l \<in> set ls. \<not> malformed l \<Longrightarrow> \<exists>m'. Config_lines m ls = Inr m'
     \<and> map_of m' = map_of (rev (bindings ls) @ m)
     \<and> (distinct (map fst m) \<longrightarrow> distinct (map fst m'))"
proof (induction ls arbitrary: m)
  case Nil
  then show ?case by (simp add: bindings_def)
next
  case (Cons l ls)
  show ?case
  proof (cases "significant l")
    case True
    let ?m = "AList.update (fst (line_binding l)) (snd (line_binding l)) m"
    have "map_of ?m = map_of (line_binding l # m)"
      by (cases "line_binding l") (simp add: update_conv')
    then have "map_of (rev (bindings ls) @ ?m) = map_of (rev (bindings (l # ls)) @ m)"
      using True by (simp add: bindings_def)
    moreover have "distinct (map fst m) \<longrightarrow> distinct (map fst ?m)" by (simp add: distinct_update)
    moreover obtain m' where "Config_lines ?m ls = Inr m'"
      "map_of m' = map_of (rev (bindings ls) @ ?m)"
      "distinct (map fst ?m) \<longrightarrow> distinct (map fst m')"
      using Cons by fastforce
    moreover have "Config_line m l = Inr ?m"
      using True Cons.prems by (simp add: Config_line_eq malformed_def)
    ultimately show ?thesis by auto
  next
    case False
    then show ?thesis using Cons by (simp add: Config_line_eq bindings_def)
  qed
qed

text \<open>
  C31. Reading a file fails with the assertion exactly when some line that is neither blank
  nor a comment has no \<open>=\<close>; otherwise the configuration has exactly the bindings of the
  significant lines, the last line for a key winning, each key once.
\<close>

theorem Config_new_bindings:
  "if \<exists>l \<in> set (split_lines text). malformed l
   then Config_new (Some text) = Inl AssertFailed
   else \<exists>m. Config_new (Some text) = Inr m \<and> map_of m = map_of (rev (bindings (split_lines text)))
     \<and> Size m = card (fst ` set (bindings (split_lines text)))"
proof (cases "\<exists>l \<in> set (split_lines text). malformed l")
  case True
  then show ?thesis by (simp add: Config_lines_fails)
next
  case False
  then obtain m where m: "Config_new (Some text) = Inr m"
    "map_of m = map_of (rev (bindings (split_lines text)))" "distinct (map fst m)"
    using Config_lines_Inr [of "split_lines text" "[]"] by auto
  have "Size m = card (dom (map_of m))"
    using distinct_card [OF m(3)] by (simp add: Size_def dom_map_of_conv_image_fst)
  then have "Size m = card (fst ` set (bindings (split_lines text)))"
    by (simp add: m(2) dom_map_of_conv_image_fst)
  with m False show ?thesis by auto
qed

section \<open>Writing and reading back\<close>

definition entry_line :: "string \<times> string \<Rightarrow> string" where
  "entry_line e = fst e @ '' = '' @ snd e"

fun config_text :: "(string \<times> string) list \<Rightarrow> string" where
  "config_text [] = []"
| "config_text (e # es) = entry_line e @ CHR 0x0A # config_text es"

definition good_entry :: "string \<times> string \<Rightarrow> bool" where
  "good_entry e \<longleftrightarrow> trimmed (fst e) \<and> trimmed (snd e) \<and> fst e \<noteq> [] \<and> hd (fst e) \<noteq> CHR ''#''
     \<and> CHR ''='' \<notin> set (fst e) \<and> CHR 0x0A \<notin> set (fst e) \<and> CHR 0x0A \<notin> set (snd e)"

lemma split_lines_not_Nil [simp]: "split_lines s \<noteq> []"
  by (cases s) (auto split: list.splits)

lemma split_lines_append:
  "CHR 0x0A \<notin> set l \<Longrightarrow> split_lines (l @ CHR 0x0A # r) = l # split_lines r"
  by (induction l) auto

lemma split_lines_config_text:
  "\<forall>e \<in> set es. good_entry e \<Longrightarrow> split_lines (config_text es) = map entry_line es @ [[]]"
proof (induction es)
  case (Cons e es)
  then have "CHR 0x0A \<notin> set (entry_line e)" by (auto simp: good_entry_def entry_line_def)
  then show ?case using Cons by (simp add: split_lines_append)
qed simp

lemma trim_entry_line:
  assumes "good_entry e"
  shows "trim (entry_line e) = fst e @ '' ='' @ (if snd e = [] then [] else CHR '' '' # snd e)"
proof -
  let ?s = "fst e @ '' ='' @ (if snd e = [] then [] else CHR '' '' # snd e)"
  have "trimmed ?s" using assms by (auto simp: good_entry_def trimmed_def is_blank_def)
  then have "trim ([] @ ?s @ (if snd e = [] then '' '' else [])) = ?s"
    by (intro trim_blanks) (auto simp: is_blank_def)
  then show ?thesis by (simp add: entry_line_def split: if_splits)
qed

lemma line_binding_entry_line:
  assumes "good_entry e"
  shows "significant (entry_line e)" "CHR ''='' \<in> set (trim (entry_line e))"
    "line_binding (entry_line e) = e"
proof -
  have e: "CHR ''='' \<notin> set (fst e)" "trimmed (fst e)" "trimmed (snd e)" "fst e \<noteq> []"
    "hd (fst e) \<noteq> CHR ''#''"
    using assms by (auto simp: good_entry_def)
  then have tw: "takeWhile (\<lambda>c. c \<noteq> CHR ''='') (fst e) = fst e"
    "dropWhile (\<lambda>c. c \<noteq> CHR ''='') (fst e) = []"
    by (auto simp: takeWhile_eq_all_conv dropWhile_eq_Nil_conv)
  have "trim ([] @ fst e @ '' '') = fst e" "trim ('' '' @ snd e @ []) = snd e"
    by (rule trim_blanks; use e in \<open>simp add: is_blank_def\<close>)+
  moreover have "trim [] = []" by (simp add: trim_eq)
  moreover have "takeWhile (\<lambda>c. c \<noteq> CHR ''='') (trim (entry_line e)) = fst e @ '' ''"
    "tl (dropWhile (\<lambda>c. c \<noteq> CHR ''='') (trim (entry_line e)))
      = (if snd e = [] then [] else CHR '' '' # snd e)"
    using tw by (simp_all add: trim_entry_line [OF assms] takeWhile_append dropWhile_append)
  ultimately show "line_binding (entry_line e) = e"
    by (cases e) (simp add: line_binding_def)
  show "significant (entry_line e)" "CHR ''='' \<in> set (trim (entry_line e))"
    using e by (simp_all add: significant_def trim_entry_line [OF assms])
qed

lemma config_text_read:
  assumes "\<forall>e \<in> set es. good_entry e"
  shows "\<exists>m. Config_new (Some (config_text es)) = Inr m \<and> map_of m = map_of (rev es)"
proof -
  have ls: "split_lines (config_text es) = map entry_line es @ [[]]"
    by (rule split_lines_config_text [OF assms])
  have nil: "\<not> significant []" by (simp add: significant_def trim_eq)
  have "bindings (map entry_line es @ [[]]) = es"
    using assms nil by (induction es) (auto simp: bindings_def line_binding_entry_line)
  moreover have "\<forall>l \<in> set (map entry_line es @ [[]]). \<not> malformed l"
    using assms nil by (auto simp: malformed_def line_binding_entry_line)
  ultimately show ?thesis
    using Config_lines_Inr [of "map entry_line es @ [[]]" "[]"] by (auto simp: ls)
qed

text \<open>
  A file written from a list of entries, one \<open>key = value\<close> line each, is read back as
  these entries (the last one wins when a key occurs twice), whatever characters the values
  contain inside, \<open>=\<close> and \<open>#\<close> included.
\<close>

theorem config_roundtrip:
  assumes "\<forall>e \<in> set es. good_entry e"
  shows "\<exists>m. Config_new (Some (config_text es)) = Inr m \<and> map_of m = map_of (rev es)"
  using assms by (rule config_text_read)

text \<open>
  A getter changes the configuration when the key is missing: it returns the empty
  string (0 as a number) and the key is there afterwards, so that \<open>Size\<close> grows; other keys
  and a second call are not affected.
\<close>

theorem getter_inserts_missing_key:
  assumes "GetString m key = (v, m')"
  shows "v = (case map_of m key of Some v \<Rightarrow> v | None \<Rightarrow> [])
    \<and> map_of m' = (map_of m)(key \<mapsto> v)
    \<and> Size m' = Size m + (if map_of m key = None then 1 else 0)
    \<and> GetString m' key = (v, m')
    \<and> fst (GetInt m key) = (if map_of m key = None then Some 0 else atoi v)"
proof (cases "map_of m key")
  case None
  then have "key \<notin> fst ` set m" by (simp add: map_of_eq_None_iff)
  then have "length (AList.update key [] m) = Suc (length m)" by (induction m) auto
  then show ?thesis
    using assms None atoi_examples(2)
    by (auto simp: GetString_def GetInt_def Size_def update_conv')
next
  case (Some w)
  then show ?thesis using assms by (auto simp: GetString_def GetInt_def)
qed

text \<open>The files of \<open>test/ConfigTest.cc\<close> as witnesses.\<close>

theorem trim_removes_blank_ends_witness:
  "trim ''  x'' = ''x'' \<and> trimmed (trim ''  x'')"
  using trim_removes_blank_ends [of "''  x''"] by (simp add: trim_eq is_blank_def trimmed_def)

theorem Config_new_bindings_witness:
  "\<exists>m. Config_new (Some (''a=b'' @ CHR 0x0A # '' ###===#'' @ CHR 0x0A # ''a=f'')) = Inr m
     \<and> map_of m ''a'' = Some ''f'' \<and> Size m = 1"
  using Config_new_bindings [of "''a=b'' @ CHR 0x0A # '' ###===#'' @ CHR 0x0A # ''a=f''"]
  by (simp add: bindings_def significant_def malformed_def line_binding_def trim_eq is_blank_def
      del: Config_new.simps) auto

theorem config_roundtrip_witness:
  "\<exists>m. Config_new (Some (config_text [(''key'', ''value with = and #''), (''c'', [])])) = Inr m
     \<and> map_of m ''key'' = Some ''value with = and #'' \<and> map_of m ''c'' = Some []"
  using config_roundtrip [of "[(''key'', ''value with = and #''), (''c'', [])]"]
  by (auto simp: good_entry_def trimmed_def is_blank_def)

theorem getter_inserts_missing_key_witness:
  "fst (GetInt [] ''port'') = Some 0 \<and> Size (snd (GetString [] ''port'')) = 1"
  using getter_inserts_missing_key [of "[]" "''port''" "[]" "[(''port'', [])]"]
  by (simp add: GetString_def Size_def)

end
