(* ===== verification/Streaming.thy ===== *)
theory Streaming
  imports Protocol Config
begin

text \<open>
  The two ends of the sample stream: the client \<open>speechsvr/speechclient.cc\<close>, and the
  server's \<open>RemoteAudioSource\<close> (\<open>speechsvr/RemoteAudioSource.cc\<close>), which asks the client for
  samples; and the interface \<open>OnlineAudioSource\<close> with its implementation
  \<open>OnlineVectorSource\<close> (\<open>online-audio-source.cc\<close>). A sample is the 32-bit pattern of a
  \<open>float\<close>.
\<close>

type_synonym sample = "32 word"

definition float_bytes :: "sample list \<Rightarrow> byte list" where
  "float_bytes ws = concat (map le32 ws)"

fun floats_of :: "byte list \<Rightarrow> sample list" where
  "floats_of (a # b # c # d # r) = of_le32 [a, b, c, d] # floats_of r"
| "floats_of _ = []"

lemma float_bytes_simps [simp]:
  "float_bytes [] = []" "float_bytes (w # ws) = le32 w @ float_bytes ws"
  "float_bytes (vs @ ws) = float_bytes vs @ float_bytes ws"
  by (simp_all add: float_bytes_def)

lemma length_float_bytes [simp]: "length (float_bytes ws) = 4 * length ws"
  by (induction ws) simp_all

lemma floats_of_float_bytes [simp]: "floats_of (float_bytes ws) = ws"
proof (induction ws)
  case (Cons w ws)
  then show ?case using of_le32_le32 [of w] by (simp add: le32_def)
qed simp

lemma take_float_bytes: "take (4 * n) (float_bytes ws) = float_bytes (take n ws)"
proof (induction ws arbitrary: n)
  case (Cons w ws)
  then show ?case by (cases n) (auto simp: take_append)
qed simp

lemma drop_float_bytes: "drop (4 * n) (float_bytes ws) = float_bytes (drop n ws)"
proof (induction ws arbitrary: n)
  case (Cons w ws)
  then show ?case by (cases n) (auto simp: drop_append)
qed simp

section \<open>The client\<close>

text \<open>\<open>main\<close>'s arguments: address, port, wave file, and whether \<open>--online\<close> is among the rest.\<close>

definition Client_args :: "string list \<Rightarrow> fault + string \<times> int option \<times> string \<times> bool" where
  "Client_args argv =
     (if length argv < 4 then Inl (Exit 1)
      else Inr (argv ! 1, atoi (argv ! 2), argv ! 3, ''--online'' \<in> set (drop 4 argv)))"

definition CheckPacket :: "PacketType \<Rightarrow> cint \<Rightarrow> ('s, unit) prog" where
  "CheckPacket expected actual = (if type_code expected \<noteq> actual then fail (Exit 1) else ret ())"

definition trim1 :: "string \<Rightarrow> string" where
  "trim1 s =
     (let s1 = (case find_last_not_blank s of Some pos \<Rightarrow> take (pos + 1) s | None \<Rightarrow> [])
      in case find_first_not_blank s1 of Some pos \<Rightarrow> drop pos s1 | None \<Rightarrow> s1)"

lemma trim1_trim: "trim1 = trim"
  by (rule ext) (simp add: trim1_def trim_def)

definition c_text :: "byte list \<Rightarrow> string" where
  "c_text bs = map (\<lambda>b. char_of (unat b)) (takeWhile (\<lambda>b. b \<noteq> 0) bs)"

definition Client_handshake :: "'s os \<Rightarrow> bool \<Rightarrow> ('s, unit) prog" where
  "Client_handshake os online =
     andthen (SendPacket os DECODE_REQUEST 1 [bool_byte online]) (\<lambda>_.
     andthen (ReceiveHeader os) (\<lambda>header.
     andthen (CheckPacket DECODE_ACCEPT (packet_type header)) (\<lambda>_.
     andthen (Receive os 1 1) (\<lambda>res.
     if byte_bool (hd res) then ret () else fail (Exit 1)))))"

text \<open>
  File mode (lines 81 to 98). \<open>printf("%s")\<close> prints the buffer up to the first zero byte;
  \<open>garbage\<close> is what the 65536 bytes held before, and the result is \<^const>\<open>None\<close> if there is no
  zero byte in the buffer at all.
\<close>

definition output_size :: nat where
  "output_size = 65536"

definition Client_offline :: "'s os \<Rightarrow> sample list \<Rightarrow> byte list \<Rightarrow> ('s, string option) prog" where
  "Client_offline os wave garbage =
     andthen (SendPacket os DATA_WAVE (word_of_nat (4 * length wave)) (float_bytes wave)) (\<lambda>_.
     andthen (ReceiveHeader os) (\<lambda>header.
     if packet_type header \<noteq> type_code DECODE_OUTPUT then fail (Exit 1)
     else andthen (Receive os 1 1) (\<lambda>_.
       andthen (Receive os output_size (sint (payload_length header - 1))) (\<lambda>bs.
       let output = bs @ drop (length bs) garbage
       in ret (if 0 \<in> set output then Some (c_text output) else None)))))"

text \<open>
  Online mode (lines 99 to 127): what is printed on the error stream, and one turn of the
  loop. A packet of another type is ignored, together with nothing of its payload.
\<close>

datatype shown = Words string | EndLine

definition SendChunk :: "'s os \<Rightarrow> sample list \<Rightarrow> int \<Rightarrow> int \<Rightarrow> ('s, unit) prog" where
  "SendChunk os wave pos n =
     (if pos < 0 then fail OutOfBounds
      else SendPacket os DATA_WAVE (word_of_int (4 * min (int (length wave) - pos) n))
        (drop (4 * nat pos) (float_bytes wave)))"

definition Client_request :: "'s os \<Rightarrow> sample list \<Rightarrow> int \<times> shown list \<Rightarrow> ('s, int \<times> shown list) prog" where
  "Client_request os wave st =
     andthen (Receive os 8 8) (\<lambda>bs.
     let n = sint (num_samples (wave_request_of bs)) in
     andthen (SendChunk os wave (fst st) n) (\<lambda>_.
     if fst st + n < 2 ^ 31 then ret (fst st + n, snd st) else fail IntOverflow))"

definition Client_output :: "'s os \<Rightarrow> cint \<Rightarrow> int \<times> shown list \<Rightarrow> ('s, int \<times> shown list) prog" where
  "Client_output os len st =
     andthen (Receive os 1 1) (\<lambda>end_utterance.
     let output_length = sint (len - 1) in
     andthen (Receive os output_size output_length) (\<lambda>bs.
     if output_length < 0 \<or> int output_size \<le> output_length then fail OutOfBounds
     else let out = trim1 (c_text bs) in
       ret (fst st, snd st @ (if length out > 0 then [Words out] else [])
         @ (if byte_bool (hd end_utterance) then [EndLine] else []))))"

definition Client_turn :: "'s os \<Rightarrow> sample list \<Rightarrow> int \<times> shown list \<Rightarrow> ('s, int \<times> shown list) prog" where
  "Client_turn os wave st =
     andthen (ReceiveHeader os) (\<lambda>header.
     if packet_type header = type_code DATA_WAVE_REQUEST then Client_request os wave st
     else if packet_type header = type_code DECODE_OUTPUT
       then Client_output os (payload_length header) st
     else ret st)"

text \<open>The loop \<open>while (pos < length)\<close>, with fuel: \<^const>\<open>None\<close> is a loop not finished yet.\<close>

fun Client_loop :: "nat \<Rightarrow> 's os \<Rightarrow> sample list \<Rightarrow> int \<times> shown list \<Rightarrow> 's
    \<Rightarrow> ((fault + int \<times> shown list) \<times> 's) option" where
  "Client_loop 0 os wave st s = None"
| "Client_loop (Suc fuel) os wave st s =
     (if fst st < int (length wave) then
        (case Client_turn os wave st s of
           (Inl e, t) \<Rightarrow> Some (Inl e, t)
         | (Inr st', t) \<Rightarrow> Client_loop fuel os wave st' t)
      else Some (Inr st, s))"

section \<open>The server's audio source\<close>

text \<open>
  \<open>RemoteAudioSource::Read\<close> into \<open>data\<close>: the payload, whatever its length, is received into the
  memory of the vector; the quotient of the (signed) length by \<open>sizeof\<close> is computed on 64
  unsigned bits.
\<close>

definition RemoteRead :: "'s os \<Rightarrow> sample list \<Rightarrow> ('s, int \<times> sample list) prog" where
  "RemoteRead os data =
     andthen (SendPacket os DATA_WAVE_REQUEST 8
       (wave_request_bytes \<lparr>num_samples = word_of_nat (length data), sample_size = 4\<rparr>)) (\<lambda>_.
     andthen (ReceiveHeader os) (\<lambda>header.
     if packet_type header \<noteq> type_code DATA_WAVE then fail (Exit 1)
     else let len = sint (payload_length header) in
       andthen (Receive os (4 * length data) len) (\<lambda>bs.
       ret (sint (word_of_int ((len mod 2 ^ 64) div 4) :: cint),
         floats_of (bs @ drop (length bs) (float_bytes data))))))"

section \<open>One turn of the client\<close>

datatype message = Request nat | Output bool "byte list"

fun message_bytes :: "message \<Rightarrow> byte list" where
  "message_bytes (Request n) =
     packet DATA_WAVE_REQUEST (wave_request_bytes \<lparr>num_samples = word_of_nat n, sample_size = 4\<rparr>)"
| "message_bytes (Output e bs) = packet DECODE_OUTPUT (bool_byte e # bs)"

fun message_size :: "message \<Rightarrow> nat" where
  "message_size (Request n) = n"
| "message_size (Output e bs) = 0"

fun message_shown :: "message \<Rightarrow> shown list" where
  "message_shown (Request n) = []"
| "message_shown (Output e bs) =
     (if trim (c_text bs) \<noteq> [] then [Words (trim (c_text bs))] else []) @ (if e then [EndLine] else [])"

fun message_ok :: "message \<Rightarrow> bool" where
  "message_ok (Request n) \<longleftrightarrow> n < 2 ^ 31"
| "message_ok (Output e bs) \<longleftrightarrow> length bs < output_size"

fun message_chunk :: "sample list \<Rightarrow> message \<Rightarrow> byte list" where
  "message_chunk wave (Request n) = packet DATA_WAVE (float_bytes (take n wave))"
| "message_chunk wave (Output e bs) = []"

lemma SendChunk_complete:
  assumes "os_ok os inc out" and "os_sends os" and "4 * length wave < 2 ^ 31" and "n < 2 ^ 31"
    and "pos \<le> length wave"
  shows "\<exists>t. SendChunk os wave (int pos) (int n) s = (Inr (), t) \<and> inc t = inc s
    \<and> out t = out s @ packet DATA_WAVE (float_bytes (take n (drop pos wave)))"
proof -
  let ?k = "min (length wave - pos) n"
  let ?c = "float_bytes (take n (drop pos wave))"
  let ?len = "word_of_int (4 * min (int (length wave) - int pos) (int n)) :: cint"
  have k: "4 * min (int (length wave) - int pos) (int n) = int (length ?c)"
    using assms(5) by (simp add: min_def) linarith
  then have len: "?len = word_of_nat (length ?c)" by (metis of_int_of_nat_eq)
  have small: "length ?c < 2 ^ 31" using assms(3) by auto
  have pre: "drop (4 * pos) (float_bytes wave) = ?c @ float_bytes (drop n (drop pos wave))"
    by (metis append_take_drop_id drop_float_bytes float_bytes_simps(3))
  obtain t where t: "SendPacket os DATA_WAVE ?len ?c s = (Inr (), t)" "inc t = inc s"
    "out t = out s @ packet DATA_WAVE ?c"
    using SendPacket_complete [OF assms(1,2) small len, of DATA_WAVE s] by blast
  have send: "Send os (?c @ ys) (int (length ?c)) = Send os ?c (int (length ?c))" for ys
    by (rule ext) (simp add: Send_def)
  have "sint ?len = int (length ?c)" using len small sint_small_length by metis
  then have "SendPacket os DATA_WAVE ?len (drop (4 * pos) (float_bytes wave))
      = SendPacket os DATA_WAVE ?len ?c"
    by (simp only: SendPacket_def pre send)
  with t show ?thesis by (auto simp: SendChunk_def)
qed

lemma packet_append: "packet ty pl @ rest =
    header_bytes \<lparr>payload_length = word_of_nat (length pl), packet_type = type_code ty\<rparr> @ pl @ rest"
  by (simp add: packet_def)

lemma Client_turn_message:
  assumes os: "os_ok os inc out" "os_live os inc" "os_sends os"
    and m: "message_ok m" and wave: "4 * length wave < 2 ^ 31" "pos \<le> length wave"
    and pos: "pos + message_size m < 2 ^ 31"
    and inc: "inc s = message_bytes m @ rest"
  shows "\<exists>t. Client_turn os wave (int pos, sh) s =
      (Inr (int (pos + message_size m), sh @ message_shown m), t)
    \<and> inc t = rest \<and> out t = out s @ message_chunk (drop pos wave) m"
proof (cases m)
  case (Request n)
  let ?r = "\<lparr>num_samples = word_of_nat n, sample_size = 4\<rparr>"
  obtain h u where h: "ReceiveHeader os s = (Inr h, u)" "inc u = wave_request_bytes ?r @ rest"
    "out u = out s" "packet_type h = type_code DATA_WAVE_REQUEST"
    using ReceiveHeader_append [OF os(1,2), of s] inc
    unfolding Request message_bytes.simps packet_append by (metis PacketHeader.select_convs(2))
  obtain v where v: "Receive os 8 8 u = (Inr (wave_request_bytes ?r), v)" "inc v = rest"
    "out v = out u"
    using Receive_append [OF os(1,2) h(2), of 8 8] by auto
  have n: "sint (num_samples (wave_request_of (wave_request_bytes ?r))) = int n"
    using m sint_small_length [of "replicate n ()"] by (simp add: Request)
  obtain t where t: "SendChunk os wave (int pos) (int n) v = (Inr (), t)" "inc t = inc v"
    "out t = out v @ packet DATA_WAVE (float_bytes (take n (drop pos wave)))"
    using SendChunk_complete [OF os(1,3) wave(1) _ wave(2), of n v] m by (auto simp: Request)
  have "Client_request os wave (int pos, sh) u = (Inr (int (pos + n), sh), t)"
    using v(1) t(1) n pos by (simp add: Client_request_def andthen_Inr Request Let_def)
  with h v t show ?thesis by (auto simp: Client_turn_def andthen_Inr Request)
next
  case (Output e bs)
  let ?len = "word_of_nat (Suc (length bs)) :: cint"
  have bs: "length bs < 65536" using m by (simp add: Output output_size_def)
  obtain h u where h: "ReceiveHeader os s = (Inr h, u)" "inc u = [bool_byte e] @ bs @ rest"
    "out u = out s" "packet_type h = type_code DECODE_OUTPUT" "payload_length h = ?len"
    using ReceiveHeader_append [OF os(1,2), of s] inc
    unfolding Output message_bytes.simps packet_append by fastforce
  obtain v where v: "Receive os 1 1 u = (Inr [bool_byte e], v)" "inc v = bs @ rest"
    "out v = out u"
    using Receive_append [OF os(1,2) h(2), of 1 1] by auto
  have "?len - 1 = word_of_nat (length bs)" by simp
  moreover have "sint (word_of_nat (length bs) :: cint) = int (length bs)"
    by (rule sint_small_length) (use bs in simp)
  ultimately have len: "sint (?len - 1) = int (length bs)" by metis
  obtain w where w: "Receive os output_size (sint (?len - 1)) v = (Inr bs, w)" "inc w = rest"
    "out w = out v"
    using Receive_append [OF os(1,2) v(2) len [symmetric], of output_size] bs
    by (auto simp: output_size_def)
  have "Client_output os ?len (int pos, sh) u = (Inr (int pos, sh @ message_shown m), w)"
    using v(1) w(1) len bs
    by (simp add: Client_output_def andthen_Inr Output Let_def output_size_def trim1_trim
        del: of_nat_Suc)
  with h v w show ?thesis by (auto simp: Client_turn_def andthen_Inr Output)
qed

section \<open>The whole online session of the client\<close>

fun chunks :: "'a list \<Rightarrow> nat list \<Rightarrow> 'a list list" where
  "chunks xs [] = []"
| "chunks xs (n # ns) = take n xs # chunks (drop n xs) ns"

lemma concat_chunks: "concat (chunks xs ns) = take (sum_list ns) xs"
  by (induction ns arbitrary: xs) (simp_all add: take_add)

definition wave_packets :: "sample list list \<Rightarrow> byte list" where
  "wave_packets cs = concat (map (\<lambda>c. packet DATA_WAVE (float_bytes c)) cs)"

lemma wave_packets_simps [simp]:
  "wave_packets [] = []" "wave_packets (c # cs) = packet DATA_WAVE (float_bytes c) @ wave_packets cs"
  by (simp_all add: wave_packets_def)

fun requests :: "message list \<Rightarrow> nat list" where
  "requests [] = []"
| "requests (Request n # ms) = n # requests ms"
| "requests (Output e bs # ms) = requests ms"

lemma requests_append [simp]: "requests (ms @ ns) = requests ms @ requests ns"
  by (induction ms rule: requests.induct) simp_all

lemma Client_loop_messages:
  assumes os: "os_ok os inc out" "os_live os inc" "os_sends os" and wave: "4 * length wave < 2 ^ 31"
  shows "\<forall>m \<in> set ms. message_ok m \<Longrightarrow> n < 2 ^ 31 \<Longrightarrow> pos + sum_list (requests ms) < length wave \<Longrightarrow>
     length wave \<le> pos + sum_list (requests ms) + n \<Longrightarrow> pos + sum_list (requests ms) + n < 2 ^ 31 \<Longrightarrow>
     inc s = concat (map message_bytes (ms @ [Request n])) @ rest \<Longrightarrow> length ms + 2 \<le> fuel \<Longrightarrow>
     \<exists>t. Client_loop fuel os wave (int pos, sh) s =
         Some (Inr (int (pos + sum_list (requests ms) + n), sh @ concat (map message_shown ms)), t)
       \<and> inc t = rest
       \<and> out t = out s @ wave_packets (chunks (drop pos wave) (requests ms @ [n]))"
proof (induction ms arbitrary: pos sh s fuel)
  case Nil
  then obtain f where f: "fuel = Suc (Suc f)" by (cases fuel rule: nat.exhaust; cases "fuel - 1") auto
  have "inc s = message_bytes (Request n) @ rest" using Nil.prems by simp
  from Client_turn_message [OF os _ wave _ _ this, of pos sh] Nil.prems obtain t
    where "Client_turn os wave (int pos, sh) s = (Inr (int (pos + n), sh), t)" "inc t = rest"
      "out t = out s @ packet DATA_WAVE (float_bytes (take n (drop pos wave)))"
    by auto
  then show ?case using Nil.prems f by (auto simp: numeral_2_eq_2)
next
  case (Cons m ms)
  then obtain f where f: "fuel = Suc f" by (cases fuel) auto
  have req: "sum_list (requests (m # ms)) = message_size m + sum_list (requests ms)"
    by (cases m) simp_all
  have "inc s = message_bytes m @ (concat (map message_bytes (ms @ [Request n])) @ rest)"
    using Cons.prems by simp
  from Client_turn_message [OF os _ wave _ _ this, of pos sh] Cons.prems req obtain u
    where u: "Client_turn os wave (int pos, sh) s =
        (Inr (int (pos + message_size m), sh @ message_shown m), u)"
      "inc u = concat (map message_bytes (ms @ [Request n])) @ rest"
      "out u = out s @ message_chunk (drop pos wave) m"
    by auto
  from Cons.IH [OF _ _ _ _ _ u(2), of "pos + message_size m" f "sh @ message_shown m"]
    Cons.prems req f obtain t
    where t: "Client_loop f os wave (int (pos + message_size m), sh @ message_shown m) u =
        Some (Inr (int (pos + message_size m + sum_list (requests ms) + n),
          (sh @ message_shown m) @ concat (map message_shown ms)), t)" "inc t = rest"
      "out t = out u @ wave_packets (chunks (drop (pos + message_size m) wave) (requests ms @ [n]))"
    by (auto simp: add.assoc)
  have "message_chunk (drop pos wave) m
      @ wave_packets (chunks (drop (pos + message_size m) wave) (requests ms @ [n]))
    = wave_packets (chunks (drop pos wave) (requests (m # ms) @ [n]))"
    by (cases m) (simp_all add: add.commute)
  then show ?case using t u Cons.prems f req by (auto simp: add.assoc)
qed

text \<open>
  C17. In online mode the client answers the server's sample requests, in whatever order they
  are mixed with result packets, by the consecutive pieces of the wave, which together are the
  whole wave; it shows the results it meets, and it stops with the request that exhausts the
  wave: whatever the server sends after that (the last result) is not read.
\<close>

theorem client_streams_whole_wave:
  assumes "os_ok os inc out" and "os_live os inc" and "os_sends os"
    and "4 * length wave < 2 ^ 31" and "\<forall>m \<in> set ms. message_ok m"
    and "sum_list (requests ms) < length wave" and "length wave \<le> sum_list (requests ms) + n"
    and "sum_list (requests ms) + n < 2 ^ 31"
    and "inc s = concat (map message_bytes (ms @ [Request n])) @ rest" and "length ms + 2 \<le> fuel"
  shows "\<exists>t cs. Client_loop fuel os wave (0, []) s =
       Some (Inr (int (sum_list (requests ms) + n), concat (map message_shown ms)), t)
     \<and> out t = out s @ wave_packets cs \<and> cs = chunks wave (requests ms @ [n])
     \<and> concat cs = wave \<and> inc t = rest"
proof -
  from assms Client_loop_messages [of os inc out wave ms n 0 s rest fuel "[]"] obtain t
    where "Client_loop fuel os wave (0, []) s =
        Some (Inr (int (sum_list (requests ms) + n), concat (map message_shown ms)), t)"
      "inc t = rest" "out t = out s @ wave_packets (chunks wave (requests ms @ [n]))"
    by auto
  moreover have "concat (chunks wave (requests ms @ [n])) = wave"
    using assms(7) by (simp add: concat_chunks)
  ultimately show ?thesis by blast
qed

section \<open>Reading from the client\<close>

lemma RemoteRead_packet:
  assumes os: "os_ok os inc out" "os_live os inc" "os_sends os"
    and len: "length ws \<le> length data" "4 * length data < 2 ^ 31"
    and inc: "inc s = packet DATA_WAVE (float_bytes ws) @ rest"
  shows "\<exists>t. RemoteRead os data s = (Inr (int (length ws), ws @ drop (length ws) data), t)
    \<and> inc t = rest \<and> out t = out s @ message_bytes (Request (length data))"
proof -
  let ?r = "wave_request_bytes \<lparr>num_samples = word_of_nat (length data), sample_size = 4\<rparr>"
  obtain u where u: "SendPacket os DATA_WAVE_REQUEST 8 ?r s = (Inr (), u)" "inc u = inc s"
    "out u = out s @ packet DATA_WAVE_REQUEST ?r"
    using SendPacket_complete [OF os(1,3), of ?r 8 DATA_WAVE_REQUEST s] by auto
  obtain h v where v: "ReceiveHeader os u = (Inr h, v)" "inc v = float_bytes ws @ rest"
    "out v = out u" "packet_type h = type_code DATA_WAVE"
    "payload_length h = word_of_nat (length (float_bytes ws))"
    using ReceiveHeader_append [OF os(1,2), of u] u(2) inc unfolding packet_append by fastforce
  have sint: "sint (payload_length h) = int (4 * length ws)"
    using sint_small_length [of "float_bytes ws"] len v(5) by simp
  obtain w where w: "Receive os (4 * length data) (sint (payload_length h)) v =
      (Inr (float_bytes ws), w)" "inc w = rest" "out w = out v"
    using Receive_append [OF os(1,2) v(2), of "sint (payload_length h)" "4 * length data"] sint len
    by auto
  have n: "sint (word_of_int ((int (4 * length ws) mod 2 ^ 64) div 4) :: cint) = int (length ws)"
    using sint_small_length [of ws] len by simp
  have d: "floats_of (float_bytes ws @ drop (length (float_bytes ws)) (float_bytes data))
      = ws @ drop (length ws) data"
    by (simp add: drop_float_bytes float_bytes_simps(3) [symmetric] del: float_bytes_simps(3))
  show ?thesis
    using u(1) v w n d sint u(3)
    by (simp add: RemoteRead_def andthen_Inr Let_def)
qed

text \<open>The reads of a session, one per element of the list of buffers.\<close>

fun RemoteReads :: "'s os \<Rightarrow> sample list list \<Rightarrow> ('s, sample list list) prog" where
  "RemoteReads os [] = ret []"
| "RemoteReads os (data # ds) =
     andthen (RemoteRead os data) (\<lambda>r.
     andthen (RemoteReads os ds) (\<lambda>cs. ret (take (nat (fst r)) (snd r) # cs)))"

lemma RemoteReads_chunks:
  assumes os: "os_ok os inc out" "os_live os inc" "os_sends os"
  shows "\<forall>d \<in> set ds. 4 * length d < 2 ^ 31 \<Longrightarrow>
    inc s = wave_packets (chunks wave (map length ds)) @ rest \<Longrightarrow>
    \<exists>t. RemoteReads os ds s = (Inr (chunks wave (map length ds)), t) \<and> inc t = rest
      \<and> out t = out s @ concat (map (\<lambda>d. message_bytes (Request (length d))) ds)"
proof (induction ds arbitrary: s wave)
  case (Cons d ds)
  have le: "length (take (length d) wave) \<le> length d" by simp
  have "inc s = packet DATA_WAVE (float_bytes (take (length d) wave))
      @ (wave_packets (chunks (drop (length d) wave) (map length ds)) @ rest)"
    using Cons.prems(2) by simp
  from RemoteRead_packet [OF os le _ this] Cons.prems(1) obtain u
    where u: "RemoteRead os d s = (Inr (int (length (take (length d) wave)),
        take (length d) wave @ drop (length (take (length d) wave)) d), u)"
      "inc u = wave_packets (chunks (drop (length d) wave) (map length ds)) @ rest"
      "out u = out s @ message_bytes (Request (length d))"
    by (auto simp del: length_take)
  from Cons.IH [OF _ u(2)] Cons.prems(1) obtain t
    where "RemoteReads os ds u = (Inr (chunks (drop (length d) wave) (map length ds)), t)"
      "inc t = rest" "out t = out u @ concat (map (\<lambda>d. message_bytes (Request (length d))) ds)"
    by auto
  moreover have "take (min (length (take (length d) wave)) (length d)) wave = take (length d) wave"
    by (simp add: min_def)
  ultimately show ?case using u by (simp add: andthen_Inr del: message_bytes.simps length_take)
qed simp

text \<open>
  C16. The two ends fit together: when the client's answers to the requests of a series of
  reads are what the server receives, each read returns the next samples, all reads together
  return the whole wave in order, and the server's requests are the ones the client answered.
\<close>

theorem stream_two_ends_agree:
  assumes "os_ok os inc out" and "os_live os inc" and "os_sends os"
    and "os_ok os' inc' out'" and "os_live os' inc'" and "os_sends os'"
    and "\<forall>d \<in> set (ds @ [d]). 4 * length d < 2 ^ 31"
    and "4 * length wave < 2 ^ 31" and "sum_list (map length ds) < length wave"
    and "length wave \<le> sum_list (map length (ds @ [d]))"
    and "sum_list (map length (ds @ [d])) < 2 ^ 31"
    and "inc s = concat (map (\<lambda>d. message_bytes (Request (length d))) (ds @ [d]))"
    and "Client_loop (length ds + 2) os wave (0, []) s = Some (r, t)"
    and "inc' x = drop (length (out s)) (out t)"
  shows "\<exists>y cs. RemoteReads os' (ds @ [d]) x = (Inr cs, y) \<and> concat cs = wave
    \<and> cs = chunks wave (map length (ds @ [d]))
    \<and> out' y = out' x @ inc s \<and> inc' y = []"
proof -
  let ?ms = "map (\<lambda>d. Request (length d)) ds"
  have req: "requests ?ms = map length ds" by (induction ds) simp_all
  have ok: "\<forall>m \<in> set ?ms. message_ok m" using assms(7) by auto
  have inc: "inc s = concat (map message_bytes (?ms @ [Request (length d)])) @ []"
    using assms(12) by (simp add: comp_def)
  from Client_loop_messages [OF assms(1-3,8) ok, of "length d" 0 s "[]" "length ds + 2" "[]"]
    assms(7,9-11,13) inc req
  have "out t = out s @ wave_packets (chunks wave (map length (ds @ [d])))" by auto
  with assms(14) have "inc' x = wave_packets (chunks wave (map length (ds @ [d]))) @ []" by simp
  from RemoteReads_chunks [OF assms(4-6,7) this] obtain y
    where "RemoteReads os' (ds @ [d]) x = (Inr (chunks wave (map length (ds @ [d]))), y)"
      "inc' y = []" "out' y = out' x @ inc s"
    using assms(12) by auto
  moreover have "concat (chunks wave (map length (ds @ [d]))) = wave"
    using assms(10) by (simp only: concat_chunks) simp
  ultimately show ?thesis by auto
qed

text \<open>
  A read that finds the client gone, or a packet that is not a wave packet, ends the whole
  server process with status 1; and a packet longer than the buffer, which the code does not
  check, is written past its end.
\<close>

theorem remote_read_trusts_client:
  assumes os: "os_ok os inc out" "os_live os inc" "os_sends os" and "4 * length data < 2 ^ 31"
  shows "(length (inc s) < 8 \<longrightarrow> (\<exists>t. RemoteRead os data s = (Inl (Exit 1), t)))
    \<and> (\<forall>h rest. inc s = header_bytes h @ rest \<and> packet_type h \<noteq> type_code DATA_WAVE \<longrightarrow>
        (\<exists>t. RemoteRead os data s = (Inl (Exit 1), t)))
    \<and> (\<forall>ws rest. inc s = packet DATA_WAVE (float_bytes ws) @ rest
        \<and> length data < length ws \<and> 4 * length ws < 2 ^ 31 \<longrightarrow>
        (\<exists>t. RemoteRead os data s = (Inl OutOfBounds, t)))"
proof -
  let ?r = "wave_request_bytes \<lparr>num_samples = word_of_nat (length data), sample_size = 4\<rparr>"
  obtain u where u: "SendPacket os DATA_WAVE_REQUEST 8 ?r s = (Inr (), u)" "inc u = inc s"
    using SendPacket_complete [OF os(1,3), of ?r 8 DATA_WAVE_REQUEST s] by auto
  have gone: "\<exists>t. RemoteRead os data s = (Inl (Exit 1), t)" if few: "length (inc s) < 8"
  proof -
    obtain v where "Receive os 8 8 u = (Inl (Exit 1), v)"
      using Receive_loop_fails [OF os(1), of "[]" 8 u 8] few u(2) unfolding Receive_def by auto
    with u show ?thesis by (simp add: RemoteRead_def ReceiveHeader_def andthen_Inr andthen_Inl)
  qed
  have wrong: "\<exists>t. RemoteRead os data s = (Inl (Exit 1), t)"
    if "inc s = header_bytes h @ rest" "packet_type h \<noteq> type_code DATA_WAVE" for h rest
    using ReceiveHeader_append [OF os(1,2), of u h rest] u that
    by (auto simp: RemoteRead_def andthen_Inr)
  have long: "\<exists>t. RemoteRead os data s = (Inl OutOfBounds, t)"
    if inc: "inc s = packet DATA_WAVE (float_bytes ws) @ rest" and len: "length data < length ws"
      "4 * length ws < 2 ^ 31" for ws rest
  proof -
    obtain h v where v: "ReceiveHeader os u = (Inr h, v)" "inc v = float_bytes ws @ rest"
      "packet_type h = type_code DATA_WAVE" "payload_length h = word_of_nat (length (float_bytes ws))"
      using ReceiveHeader_append [OF os(1,2), of u] u(2) inc unfolding packet_append by fastforce
    have sint: "sint (payload_length h) = int (4 * length ws)"
      using sint_small_length [of "float_bytes ws"] len v(4) by simp
    then obtain w where "Receive os (4 * length data) (sint (payload_length h)) v = (Inl OutOfBounds, w)"
      using Receive_loop_overflow [OF os(1,2), of "[]" "4 * length data" "sint (payload_length h)" v]
        v(2) len by (auto simp: Receive_def)
    with u v show ?thesis by (simp add: RemoteRead_def andthen_Inr andthen_Inl Let_def)
  qed
  show ?thesis using gone wrong long by blast
qed

text \<open>
  In file mode the client prints the server's text and, as the text is sent without a zero byte
  at its end, whatever the uninitialised buffer holds behind it.
\<close>

lemma Client_offline_output:
  assumes os: "os_ok os inc out" "os_live os inc" "os_sends os"
    and "4 * length wave < 2 ^ 31" and "0 \<notin> set bs" and "length bs < output_size"
    and "length garbage = output_size"
    and "inc s = packet DECODE_OUTPUT (bool_byte e # bs) @ rest"
  shows "\<exists>t. Client_offline os wave garbage s =
      (Inr (if 0 \<in> set (drop (length bs) garbage)
         then Some (map (\<lambda>b. char_of (unat b)) bs @ c_text (drop (length bs) garbage)) else None), t)
    \<and> out t = out s @ packet DATA_WAVE (float_bytes wave) \<and> inc t = rest"
proof -
  let ?len = "word_of_nat (Suc (length bs)) :: cint"
  obtain u where u: "SendPacket os DATA_WAVE (word_of_nat (4 * length wave)) (float_bytes wave) s
      = (Inr (), u)" "inc u = inc s" "out u = out s @ packet DATA_WAVE (float_bytes wave)"
    using SendPacket_complete [OF os(1,3), of "float_bytes wave" "word_of_nat (4 * length wave)"
        DATA_WAVE s] assms(4) by auto
  obtain h v where h: "ReceiveHeader os u = (Inr h, v)" "inc v = [bool_byte e] @ bs @ rest"
    "out v = out u" "packet_type h = type_code DECODE_OUTPUT" "payload_length h = ?len"
    using ReceiveHeader_append [OF os(1,2), of u] assms(8) u(2) unfolding packet_append by fastforce
  obtain w where w: "Receive os 1 1 v = (Inr [bool_byte e], w)" "inc w = bs @ rest" "out w = out v"
    using Receive_append [OF os(1,2) h(2), of 1 1] by auto
  have "?len - 1 = word_of_nat (length bs)" by simp
  moreover have "sint (word_of_nat (length bs) :: cint) = int (length bs)"
    by (rule sint_small_length) (use assms(6) in \<open>simp add: output_size_def\<close>)
  ultimately have len: "sint (?len - 1) = int (length bs)" by metis
  obtain t where t: "Receive os output_size (sint (?len - 1)) w = (Inr bs, t)" "inc t = rest"
    "out t = out w"
    using Receive_append [OF os(1,2) w(2) len [symmetric], of output_size] assms(6)
    by (auto simp del: of_nat_Suc)
  have "c_text (bs @ ys) = map (\<lambda>b. char_of (unat b)) bs @ c_text ys" for ys
    using assms(5) by (simp add: c_text_def takeWhile_append)
  then show ?thesis
    using u h w t assms(5)
    by (simp add: Client_offline_def andthen_Inr Let_def del: of_nat_Suc)
qed

section \<open>The interface of the audio sources\<close>

text \<open>
  \<open>OnlineVectorSource\<close>: the samples and the position of the first one not yet consumed. The
  rest of \<open>data\<close> keeps what it held.
\<close>

record 'a vector_source =
  src :: "'a list"
  vpos :: nat

definition OnlineVectorSource_new :: "'a list \<Rightarrow> 'a vector_source" where
  "OnlineVectorSource_new input = \<lparr>src = input, vpos = 0\<rparr>"

definition VectorRead :: "'a vector_source \<Rightarrow> 'a list \<Rightarrow> (nat \<times> 'a list) \<times> 'a vector_source" where
  "VectorRead v data =
     (let n_elem = min (length (src v) - vpos v) (length data) in
      if 0 < n_elem then
        ((n_elem, take n_elem (drop (vpos v) (src v)) @ drop n_elem data),
          v\<lparr>vpos := vpos v + n_elem\<rparr>)
      else ((n_elem, data), v))"

text \<open>
  What \<open>OnlineAudioSource\<close> promises: the buffer is filled with the next samples as far as
  there are any, and their number is returned.
\<close>

locale audio_source =
  fixes rd :: "'s \<Rightarrow> 'a list \<Rightarrow> (nat \<times> 'a list) \<times> 's"
    and todo :: "'s \<Rightarrow> 'a list"
  assumes read_count: "rd s data = ((n, data'), t) \<Longrightarrow> n = min (length (todo s)) (length data)"
    and read_fills: "rd s data = ((n, data'), t) \<Longrightarrow> take n data' = take n (todo s)"
    and read_size: "rd s data = ((n, data'), t) \<Longrightarrow> length data' = length data"
    and read_todo: "rd s data = ((n, data'), t) \<Longrightarrow> todo t = drop n (todo s)"
begin

fun reads :: "'a list list \<Rightarrow> 's \<Rightarrow> 'a list list \<times> 's" where
  "reads [] s = ([], s)"
| "reads (data # ds) s =
     (case rd s data of ((n, data'), t) \<Rightarrow>
        (case reads ds t of (cs, u) \<Rightarrow> (take n data' # cs, u)))"

lemma read_short_iff: "rd s data = ((n, data'), t) \<Longrightarrow> n < length data \<longleftrightarrow> length (todo s) < length data"
  using read_count [of s data n data' t] by auto

lemma read_after_short: "rd s data = ((n, data'), t) \<Longrightarrow> n < length data \<Longrightarrow> todo t = []"
  using read_count [of s data n data' t] read_todo [of s data n data' t] by auto

lemma reads_concat:
  "reads ds s = (cs, t) \<Longrightarrow> concat cs = take (sum_list (map length ds)) (todo s)
     \<and> todo t = drop (sum_list (map length ds)) (todo s)"
proof (induction ds arbitrary: s cs)
  case (Cons data ds)
  obtain n data' u where r: "rd s data = ((n, data'), u)" by (metis prod.collapse)
  with Cons.prems obtain cs' where cs: "reads ds u = (cs', t)" "cs = take n data' # cs'"
    by (auto split: prod.splits)
  from Cons.IH [OF cs(1)] cs(2) show ?case
    using read_count [OF r] read_fills [OF r] read_todo [OF r]
    by (auto simp: take_add min_def add.commute split: if_splits)
qed simp

end

definition vector_todo :: "'a vector_source \<Rightarrow> 'a list" where
  "vector_todo v = drop (vpos v) (src v)"

interpretation vs: audio_source VectorRead vector_todo
  by unfold_locales
    (auto simp: VectorRead_def vector_todo_def Let_def add.commute split: if_splits)

section \<open>Witnesses\<close>

text \<open>A wave of three samples asked for in two requests, with a result in between.\<close>

definition session_messages :: "message list" where
  "session_messages = [Request 2, Output True [104, 105, 32]]"

lemma char_codes:
  "char_of (104 :: nat) = CHR ''h''" "char_of (105 :: nat) = CHR ''i''"
  "char_of (88 :: nat) = CHR ''X''" "char_of (32 :: nat) = CHR '' ''"
  by code_simp+

lemma session_concrete:
  "requests session_messages = [2]" "length session_messages = 2"
  "\<forall>m \<in> set session_messages. message_ok m"
  "concat (map message_shown session_messages) = [Words ''hi'', EndLine]"
  by (simp_all add: session_messages_def output_size_def c_text_def trim_eq is_blank_def char_codes)

theorem client_streams_whole_wave_witness:
  "\<exists>t. Client_loop 4 conn_os [1, 2, 3] (0, [])
      \<lparr>inbox = [concat (map message_bytes (session_messages @ [Request 2]))], outbox = []\<rparr>
    = Some (Inr (4, [Words ''hi'', EndLine]), t)
    \<and> outbox t = wave_packets [[1, 2], [3]]"
  using client_streams_whole_wave [OF conn_os_ok conn_os_live conn_os_sends, of "[1, 2, 3]"
      session_messages 2 "\<lparr>inbox = [concat (map message_bytes (session_messages @ [Request 2]))],
        outbox = []\<rparr>" "[]" 4]
  by (auto simp: incoming_def session_concrete)

theorem stream_two_ends_agree_witness:
  "\<exists>y cs. RemoteReads conn_os [[0, 0], [0, 0]] \<lparr>inbox = [wave_packets [[1, 2], [3]]], outbox = []\<rparr>
     = (Inr cs, y) \<and> concat cs = [1, 2, 3]"
proof -
  let ?s = "\<lparr>inbox = [concat (map message_bytes ([Request 2] @ [Request 2]))], outbox = []\<rparr>"
  obtain r t where t: "Client_loop 3 conn_os [1, 2, 3] (0, []) ?s = Some (r, t)"
    "outbox t = wave_packets [[1, 2], [3]]"
    using Client_loop_messages [OF conn_os_ok conn_os_live conn_os_sends, of "[1, 2, 3]"
        "[Request 2]" 2 0 ?s "[]" 3 "[]"]
    by (auto simp: incoming_def)
  let ?d = "[0, 0 :: sample]"
  have inc: "incoming ?s = concat (map (\<lambda>d. message_bytes (Request (length d))) ([?d] @ [?d]))"
    by (simp add: incoming_def numeral_2_eq_2 del: message_bytes.simps)
  have loop: "Client_loop (length [?d] + 2) conn_os [1, 2, 3] (0, []) ?s = Some (r, t)"
    using t(1) by (simp add: numeral_3_eq_3 numeral_2_eq_2 del: message_bytes.simps)
  have x: "incoming \<lparr>inbox = [wave_packets [[1, 2], [3]]], outbox = []\<rparr>
      = drop (length (outbox ?s)) (outbox t)"
    using t(2) by (simp add: incoming_def)
  show ?thesis
    using stream_two_ends_agree [OF conn_os_ok conn_os_live conn_os_sends conn_os_ok conn_os_live
        conn_os_sends _ _ _ _ _ inc loop x]
    by (auto simp del: wave_packets_simps RemoteReads.simps)
qed

theorem remote_read_trusts_client_witness:
  "(\<exists>t. RemoteRead conn_os [0, 0] \<lparr>inbox = [], outbox = []\<rparr> = (Inl (Exit 1), t))
   \<and> (\<exists>t. RemoteRead conn_os [0] \<lparr>inbox = [packet DATA_WAVE (float_bytes [1, 2])], outbox = []\<rparr>
       = (Inl OutOfBounds, t))"
proof
  show "\<exists>t. RemoteRead conn_os [0, 0] \<lparr>inbox = [], outbox = []\<rparr> = (Inl (Exit 1), t)"
    using remote_read_trusts_client [OF conn_os_ok conn_os_live conn_os_sends, of "[0, 0]"
        "\<lparr>inbox = [], outbox = []\<rparr>"]
    by (simp add: incoming_def)
  show "\<exists>t. RemoteRead conn_os [0] \<lparr>inbox = [packet DATA_WAVE (float_bytes [1, 2])], outbox = []\<rparr>
      = (Inl OutOfBounds, t)"
    using remote_read_trusts_client [OF conn_os_ok conn_os_live conn_os_sends, of "[0]"
        "\<lparr>inbox = [packet DATA_WAVE (float_bytes [1, 2])], outbox = []\<rparr>"]
    by (auto simp: incoming_def dest!: spec [of _ "[1, 2] :: sample list"])
qed

end
