(* ===== verification/Gating.thy ===== *)
theory Gating
  imports Prelude
begin

text \<open>
  What a voice activity detector is to let through, stated without the code: a request of samples
  is speech when the detector says so for enough of its windows, and the gate stays open for some
  time after speech. The theories on the audio path compare the program with this.
\<close>

section \<open>Speech\<close>

text \<open>What the detector says to each window, in order, and its state afterwards.\<close>

fun verdicts :: "('v \<Rightarrow> 'w \<Rightarrow> bool \<times> 'v) \<Rightarrow> 'v \<Rightarrow> 'w list \<Rightarrow> bool list \<times> 'v" where
  "verdicts det v [] = ([], v)"
| "verdicts det v (w # ws) =
     (case det v w of (b, v1) \<Rightarrow> case verdicts det v1 ws of (bs, v2) \<Rightarrow> (b # bs, v2))"

lemma verdicts_length [simp]: "length (fst (verdicts det v ws)) = length ws"
  by (induction ws arbitrary: v) (simp_all add: split_def)

text \<open>At least three windows of ten.\<close>

definition mostly_speech :: "bool list \<Rightarrow> bool" where
  "mostly_speech bs \<longleftrightarrow> bs \<noteq> [] \<and> 3 / 10 \<le> real (length (filter id bs)) / real (length bs)"

lemma mostly_speech_nat:
  "mostly_speech bs \<longleftrightarrow> bs \<noteq> [] \<and> 3 * length bs \<le> 10 * length (filter id bs)"
proof (cases "bs = []")
  case False
  then have "0 < real (length bs)" by simp
  then have "3 / 10 \<le> real (length (filter id bs)) / real (length bs)
      \<longleftrightarrow> 3 * real (length bs) \<le> 10 * real (length (filter id bs))"
    by (simp add: field_simps)
  also have "\<dots> \<longleftrightarrow> 3 * length bs \<le> 10 * length (filter id bs)" by linarith
  finally show ?thesis using False by (simp add: mostly_speech_def)
qed (simp add: mostly_speech_def)

section \<open>The gate\<close>

text \<open>
  Whether the gate is open, and the number of samples without speech since it was opened. Speech
  opens it; without speech it stays open until these samples, all pauses together, are more
  than \<open>limit\<close>.
\<close>

fun hold :: "nat \<Rightarrow> nat \<Rightarrow> bool \<Rightarrow> bool \<times> nat \<Rightarrow> bool \<times> nat" where
  "hold req limit True (opened, quiet) = (True, if opened then quiet else 0)"
| "hold req limit False (opened, quiet) =
     (if opened then (quiet + req \<le> limit, quiet + req) else (False, quiet))"

type_synonym 'v gate = "'v \<times> bool \<times> nat"

fun gate_step :: "('v \<Rightarrow> 'w \<Rightarrow> bool \<times> 'v) \<Rightarrow> ('a list \<Rightarrow> 'w list) \<Rightarrow> nat \<Rightarrow> nat \<Rightarrow> 'v gate \<Rightarrow> 'a list \<Rightarrow> 'v gate" where
  "gate_step det windows req limit (v, h) b =
     (case verdicts det v (windows b) of (bs, v1) \<Rightarrow> (v1, hold req limit (mostly_speech bs) h))"

definition opened :: "'v gate \<Rightarrow> bool" where
  "opened g = fst (snd g)"

text \<open>
  The requests of a stream, as the gate meets them: the newest \<open>req\<close> samples of a queue of
  \<open>limit\<close>, which then moves on by \<open>req\<close>.
\<close>

definition newest :: "nat \<Rightarrow> nat \<Rightarrow> nat \<Rightarrow> 'a list \<Rightarrow> 'a list list" where
  "newest req limit n stream = map (\<lambda>i. take req (drop (limit - req + i * req) stream)) [0..<n]"

lemma newest_simps [simp]:
  "length (newest req limit n stream) = n"
  "newest req limit 0 stream = []"
  by (simp_all add: newest_def)

lemma newest_Suc:
  "newest req limit (Suc n) stream = take req (drop (limit - req) stream) # newest req limit n (drop req stream)"
proof -
  have "take req (drop (limit - req + Suc i * req) stream)
      = take req (drop (limit - req + i * req) (drop req stream))" for i
    by (simp add: algebra_simps)
  then show ?thesis
    by (simp add: newest_def upt_conv_Cons map_Suc_upt [symmetric] comp_def del: upt_Suc drop_drop)
qed

text \<open>
  What passes: the batch at the front of the queue while the gate is open, before or behind the
  look at the newest request.
\<close>

fun passing :: "('g \<Rightarrow> 'b \<Rightarrow> 'g) \<Rightarrow> ('g \<Rightarrow> bool) \<Rightarrow> 'g \<Rightarrow> 'b list \<Rightarrow> bool list" where
  "passing step is_open g [] = []"
| "passing step is_open g (b # bs) =
     (is_open g \<or> is_open (step g b)) # passing step is_open (step g b) bs"

lemma passing_length [simp]: "length (passing step is_open g bs) = length bs"
  by (induction bs arbitrary: g) simp_all

definition gated :: "('v \<Rightarrow> 'w \<Rightarrow> bool \<times> 'v) \<Rightarrow> ('a list \<Rightarrow> 'w list) \<Rightarrow> nat \<Rightarrow> nat \<Rightarrow> 'v gate \<Rightarrow> nat \<Rightarrow> 'a list \<Rightarrow> bool list" where
  "gated det windows req limit g n stream =
     passing (gate_step det windows req limit) opened g (newest req limit n stream)"

definition gate_after :: "('v \<Rightarrow> 'w \<Rightarrow> bool \<times> 'v) \<Rightarrow> ('a list \<Rightarrow> 'w list) \<Rightarrow> nat \<Rightarrow> nat \<Rightarrow> 'v gate \<Rightarrow> nat \<Rightarrow> 'a list \<Rightarrow> 'v gate" where
  "gate_after det windows req limit g n stream =
     foldl (gate_step det windows req limit) g (newest req limit n stream)"

text \<open>The number of requests skipped before the first that passes.\<close>

definition skipped :: "bool list \<Rightarrow> nat" where
  "skipped bs = length (takeWhile Not bs)"

lemma skipped_simps [simp]:
  "skipped [] = 0" "skipped (True # bs) = 0" "skipped (False # bs) = Suc (skipped bs)"
  by (simp_all add: skipped_def)

lemma gated_length [simp]: "length (gated det windows req limit g n stream) = n"
  by (simp add: gated_def)

lemma gated_0 [simp]: "gated det windows req limit g 0 stream = []"
  by (simp add: gated_def)

lemma gated_Suc:
  assumes "g1 = gate_step det windows req limit g (take req (drop (limit - req) stream))"
  shows "gated det windows req limit g (Suc n) stream
    = (opened g \<or> opened g1) # gated det windows req limit g1 n (drop req stream)"
  unfolding assms by (simp add: gated_def newest_Suc)

lemma gate_after_0 [simp]: "gate_after det windows req limit g 0 stream = g"
  by (simp add: gate_after_def)

lemma gate_after_Suc:
  "gate_after det windows req limit g (Suc n) stream = gate_after det windows req limit
     (gate_step det windows req limit g (take req (drop (limit - req) stream))) n (drop req stream)"
  by (simp add: gate_after_def newest_Suc)

text \<open>From a request that passes on the gate goes on with the rest of the stream.\<close>

lemma gated_skipped:
  "j = skipped (gated det windows req limit g n stream) \<Longrightarrow> j < n \<Longrightarrow>
     gated det windows req limit g n stream = replicate j False @ True #
       gated det windows req limit (gate_after det windows req limit g (Suc j) stream) (n - Suc j)
         (drop (Suc j * req) stream)"
proof (induction j arbitrary: g n stream)
  case 0
  then obtain n' where n: "n = Suc n'" by (cases n) auto
  let ?g = "gate_step det windows req limit g (take req (drop (limit - req) stream))"
  have "opened g \<or> opened ?g"
    using 0 unfolding n gated_Suc [OF refl] by (cases "opened g \<or> opened ?g") auto
  then show ?case unfolding n gated_Suc [OF refl] by (simp add: gate_after_Suc)
next
  case (Suc j)
  then obtain n' where n: "n = Suc n'" by (cases n) auto
  let ?g = "gate_step det windows req limit g (take req (drop (limit - req) stream))"
  have silent: "\<not> (opened g \<or> opened ?g)" and j: "j = skipped (gated det windows req limit ?g n' (drop req stream))"
    using Suc.prems unfolding n gated_Suc [OF refl] by (cases "opened g \<or> opened ?g"; auto)+
  have "drop (Suc j * req) (drop req stream) = drop (Suc (Suc j) * req) stream" by (simp add: add.commute)
  with Suc.IH [OF j] Suc.prems(2) silent show ?case
    unfolding n gated_Suc [OF refl] gate_after_Suc [of _ _ _ _ _ "Suc j"] by (simp del: mult_Suc drop_drop)
qed

text \<open>A longer look at the stream finds the same first request.\<close>

lemma passing_append:
  "passing step is_open g (bs @ cs) = passing step is_open g bs @ passing step is_open (foldl step g bs) cs"
  by (induction bs arbitrary: g) simp_all

lemma newest_append: "newest req limit (n + m) stream
    = newest req limit n stream @ map (\<lambda>i. take req (drop (limit - req + i * req) stream)) [n..<n + m]"
  unfolding newest_def upt_add_eq_append [OF le0] by simp

lemma skipped_append: "skipped (xs @ ys) = (if skipped xs < length xs then skipped xs else length xs + skipped ys)"
  by (induction xs) (auto simp: skipped_def)

lemma skipped_gated_Suc:
  "skipped (gated det windows req limit g (Suc n) stream) < n \<Longrightarrow>
     skipped (gated det windows req limit g n stream) = skipped (gated det windows req limit g (Suc n) stream)"
  using newest_append [of req limit n 1 stream]
  by (auto simp: gated_def passing_append skipped_append split: if_splits)

section \<open>The requests that are heard\<close>

text \<open>The positions of the requests that pass.\<close>

fun trues :: "bool list \<Rightarrow> nat list" where
  "trues [] = []"
| "trues (b # bs) = (if b then [0] else []) @ map Suc (trues bs)"

lemma trues_filter: "trues bs = filter (\<lambda>i. bs ! i) [0..<length bs]"
proof (induction bs)
  case (Cons b bs)
  have "[0..<length (b # bs)] = 0 # map Suc [0..<length bs]" by (simp add: upt_conv_Cons map_Suc_upt del: upt_Suc)
  then show ?case using Cons by (simp add: filter_map comp_def)
qed simp

lemma trues_skip: "trues (replicate j False @ True # bs) = j # map (\<lambda>m. Suc (j + m)) (trues bs)"
  by (induction j) (simp_all add: comp_def)

end
