(* ===== verification/Vad.thy ===== *)
theory Vad
  imports Streaming Gating
begin

text \<open>
  Voice activity detection (\<open>online-vad.cc\<close>): the energy detector \<open>SimpleEnergyVad\<close>, the batch
  decision \<open>DoVad\<close>, and \<open>OnlineVadFeInput::Compute\<close>, which queues the audio, notifies the
  listeners and extracts features while there is speech. The cutting into windows, the feature
  extractor and the audio source are parameters; the debugging files and the console cursor
  are left out. Energies and thresholds are exact reals.
\<close>

section \<open>The energy detector\<close>

datatype VadState = kSilence | kEndingSpeech | kSpeech

record simple_vad =
  onset_threshold :: real
  offset_threshold :: real
  recover_threshold :: real
  hangover_counter :: int
  hangover_frames :: int
  vstate :: VadState

definition SimpleEnergyVad_new :: "real \<Rightarrow> real \<Rightarrow> real \<Rightarrow> int \<Rightarrow> simple_vad" where
  "SimpleEnergyVad_new on off rec frames = \<lparr>onset_threshold = on, offset_threshold = off,
     recover_threshold = rec, hangover_counter = 0, hangover_frames = frames, vstate = kSilence\<rparr>"

definition frame_energy :: "real list \<Rightarrow> real" where
  "frame_energy frame = sqrt (sum_list (map (\<lambda>x. x * x) frame) / real (length frame))"

definition vad_step :: "real \<Rightarrow> simple_vad \<Rightarrow> simple_vad" where
  "vad_step energy v =
     (if vstate v = kSilence \<and> energy > onset_threshold v then v\<lparr>vstate := kSpeech\<rparr>
      else if vstate v = kSpeech \<and> energy < offset_threshold v
        then v\<lparr>vstate := kEndingSpeech, hangover_counter := 0\<rparr>
      else if vstate v = kEndingSpeech then
        (if energy > recover_threshold v then v\<lparr>vstate := kSpeech\<rparr>
         else let c = hangover_counter v; v' = v\<lparr>hangover_counter := c + 1\<rparr>
           in if c > hangover_frames v then v'\<lparr>vstate := kSilence\<rparr> else v')
      else v)"

definition Process :: "simple_vad \<Rightarrow> real list \<Rightarrow> bool \<times> simple_vad" where
  "Process v frame = (let v' = vad_step (frame_energy frame) v
     in (vstate v' = kSpeech \<or> vstate v' = kEndingSpeech, v'))"

text \<open>
  \<open>Initialize\<close> on the windows of the first buffer: the average and the largest energy of the
  first five (the local variables, in this order). They are not used, and \<open>lastVad_\<close>, which it
  sets, is read nowhere: the detector stays as it is. The buffer has at least 8000 samples,
  that is more than five windows.
\<close>

definition SimpleEnergyVad_Initialize :: "simple_vad \<Rightarrow> real list list \<Rightarrow> simple_vad \<times> real \<times> real" where
  "SimpleEnergyVad_Initialize v sample_windows =
     (let energies = map frame_energy (take 5 sample_windows);
          avg_energy = foldl (+) 0 energies / 5;
          max_energy = foldl max 0 energies
      in (v, avg_energy, max_energy))"

lemma Initialize_keeps [simp]: "fst (SimpleEnergyVad_Initialize v ws) = v"
  by (simp add: SimpleEnergyVad_Initialize_def Let_def)

definition Ramirez2004Vad_Initialize :: "unit \<Rightarrow> 'a list \<Rightarrow> unit" where
  "Ramirez2004Vad_Initialize v sample = v"

definition Ramirez2004Vad_Process :: "unit \<Rightarrow> 'a list \<Rightarrow> bool \<times> unit" where
  "Ramirez2004Vad_Process v frame = (True, v)"

section \<open>The feature input\<close>

text \<open>
  \<open>DoVad\<close>: the share of speech windows of a batch. The \<open>float\<close> quotient is compared with the
  \<open>double\<close> 0.3, which is smaller than the \<open>float\<close> next to it, so 3 of 10 windows count as
  speech (for fewer than a million windows); no window at all is no speech.
\<close>

fun vad_windows :: "('v \<Rightarrow> 'a list \<Rightarrow> bool \<times> 'v) \<Rightarrow> 'v \<Rightarrow> 'a list list \<Rightarrow> nat \<times> 'v" where
  "vad_windows proc v [] = (0, v)"
| "vad_windows proc v (w # ws) =
     (case proc v w of (b, v') \<Rightarrow> (case vad_windows proc v' ws of (n, v'') \<Rightarrow>
        ((if b then n + 1 else n), v'')))"

definition DoVad :: "('v \<Rightarrow> 'a list \<Rightarrow> bool \<times> 'v) \<Rightarrow> ('a list \<Rightarrow> 'a list list) \<Rightarrow> 'v \<Rightarrow> 'a list
    \<Rightarrow> bool \<times> 'v" where
  "DoVad proc windows v batch =
     (case vad_windows proc v (windows batch) of (num_speech_frames, v') \<Rightarrow>
        let num_frames = length (windows batch)
        in (0 < num_frames \<and> 3 * num_frames \<le> 10 * num_speech_frames, v'))"

definition ShiftBuffer :: "'a list \<Rightarrow> nat \<Rightarrow> 'a list" where
  "ShiftBuffer buffer shift_size = drop shift_size buffer @ drop (length buffer - shift_size) buffer"

datatype vad_event = OnSpeechStart nat | OnSpeechEnd nat

record ('a, 'v) vad_input =
  frame_size :: nat
  frame_shift :: nat
  buffer_length :: nat
  buffer_init :: bool
  buffer :: "'a list"
  batchVad :: bool
  hangoverCount :: nat
  nVadListeners :: nat
  vad :: 'v

definition OnlineVadFeInput_new :: "nat \<Rightarrow> nat \<Rightarrow> nat \<Rightarrow> 'v \<Rightarrow> ('a, 'v) vad_input" where
  "OnlineVadFeInput_new fsize fshift buflen v = \<lparr>frame_size = fsize, frame_shift = fshift,
     buffer_length = buflen, buffer_init = False, buffer = [], batchVad = False,
     hangoverCount = 0, nVadListeners = 0, vad = v\<rparr>"

definition AddVadListener :: "('a, 'v) vad_input \<Rightarrow> ('a, 'v) vad_input" where
  "AddVadListener st = st\<lparr>nVadListeners := nVadListeners st + 1\<rparr>"

text \<open>
  The array has room for 128 listeners and the server adds one; what adding more of them writes
  over is not modelled. Lines 175 to 190: the loop over the listeners, which can turn the decision back.\<close>

definition notify_one :: "nat \<Rightarrow> nat \<Rightarrow> bool \<Rightarrow> bool \<times> nat \<times> vad_event list \<Rightarrow> nat
    \<Rightarrow> bool \<times> nat \<times> vad_event list" where
  "notify_one samples_req buflen last_vad = (\<lambda>(bv, hc, ev) i.
     if \<not> last_vad \<and> bv then (bv, 0, ev @ [OnSpeechStart i])
     else if last_vad \<and> \<not> bv then
       (let hc' = hc + samples_req in
        if hc' > buflen then (bv, hc', ev @ [OnSpeechEnd i]) else (True, hc', ev))
     else (bv, hc, ev))"

definition notify_listeners :: "nat \<Rightarrow> nat \<Rightarrow> nat \<Rightarrow> bool \<Rightarrow> bool \<Rightarrow> nat
    \<Rightarrow> bool \<times> nat \<times> vad_event list" where
  "notify_listeners n samples_req buflen last_vad bv hc =
     (if bv \<noteq> last_vad then foldl (notify_one samples_req buflen last_vad) (bv, hc, []) [0..<n]
      else (bv, hc, []))"

text \<open>
  The environment of the input: reading audio into a buffer, the windows, the feature
  extractor, the detector, and the value behind the pointer \<open>timeout\<close> of the call (\<^const>\<open>None\<close>
  for a null pointer). Nothing that \<open>Compute\<close> calls is given the pointer, so the value stays.
\<close>

record ('s, 'a, 'v, 'f) vad_env =
  rd :: "'a list \<Rightarrow> ('s, nat \<times> 'a list) prog"
  windows_of :: "'a list \<Rightarrow> 'a list list"
  extract_feats :: "'a list \<Rightarrow> 'f list"
  vad_proc :: "'v \<Rightarrow> 'a list \<Rightarrow> bool \<times> 'v"
  vad_initialize :: "'v \<Rightarrow> 'a list \<Rightarrow> 'v"
  vad_timeout :: "nat option"

text \<open>
  One turn of the loop of lines 170 to 227, with the output matrix (\<^const>\<open>None\<close> while its
  rows have not been written) and the events. It returns the decisions' disjunction
  and the number of samples received.
\<close>

definition vad_turn :: "('s, 'a, 'v, 'f) vad_env \<Rightarrow> nat \<Rightarrow> nat
    \<Rightarrow> ('a, 'v) vad_input \<times> 'f list option \<times> vad_event list
    \<Rightarrow> ('s, (bool \<times> nat) \<times> ('a, 'v) vad_input \<times> 'f list option \<times> vad_event list) prog" where
  "vad_turn E batch_size samples_req = (\<lambda>(st, output, events).
     let L = buffer_length st;
         buffer_back = drop (L - samples_req) (buffer st);
         last_vad = batchVad st;
         (bv, v') = DoVad (vad_proc E) (windows_of E) (vad st) buffer_back;
         (bv', hc', ev) = notify_listeners (nVadListeners st) samples_req L last_vad bv (hangoverCount st);
         output' = (if last_vad \<or> bv' then Some (extract_feats E (take batch_size (buffer st))) else output);
         shifted = ShiftBuffer (buffer st) samples_req
     in andthen (rd E (drop (L - samples_req) shifted)) (\<lambda>(samples_rcv, data).
        ret ((last_vad \<or> bv', samples_rcv),
          st\<lparr>buffer := take (L - samples_req) shifted @ data, batchVad := bv', hangoverCount := hc',
             vad := v'\<rparr>, output', events @ ev)))"

fun vad_loop :: "nat \<Rightarrow> ('s, 'a, 'v, 'f) vad_env \<Rightarrow> nat \<Rightarrow> nat
    \<Rightarrow> ('a, 'v) vad_input \<times> 'f list option \<times> vad_event list \<Rightarrow> 's
    \<Rightarrow> ((fault + bool \<times> ('a, 'v) vad_input \<times> 'f list option \<times> vad_event list) \<times> 's) option" where
  "vad_loop 0 E batch_size samples_req x s = None"
| "vad_loop (Suc fuel) E batch_size samples_req x s =
     (case vad_turn E batch_size samples_req x s of
        (Inl e, t) \<Rightarrow> Some (Inl e, t)
      | (Inr ((speech, samples_rcv), x'), t) \<Rightarrow>
          if \<not> speech \<and> samples_rcv = samples_req
          then vad_loop fuel E batch_size samples_req x' t
          else Some (Inr (samples_rcv = samples_req \<or> vad_timeout E = Some 0, x'), t))"

text \<open>
  The first call fills the buffer (\<open>junk\<close> is what it holds before) and initialises the
  detector. \<open>Compute\<close> for \<open>nvec\<close> rows; the result is whether there is more.
\<close>

definition vad_fill :: "('s, 'a, 'v, 'f) vad_env \<Rightarrow> 'a \<Rightarrow> nat \<Rightarrow> ('a, 'v) vad_input
    \<Rightarrow> ('s, ('a, 'v) vad_input) prog" where
  "vad_fill E junk batch_size st =
     (if buffer_init st then ret st
      else let L = buffer_length st + batch_size in
        andthen (rd E (replicate L junk)) (\<lambda>(n, data).
          ret (st\<lparr>buffer_length := L, buffer := data, buffer_init := True,
            vad := vad_initialize E (vad st) data\<rparr>)))"

definition VadInput_Compute :: "nat \<Rightarrow> ('s, 'a, 'v, 'f) vad_env \<Rightarrow> 'a \<Rightarrow> nat \<Rightarrow> ('a, 'v) vad_input \<Rightarrow> 's
    \<Rightarrow> ((fault + bool \<times> ('a, 'v) vad_input \<times> 'f list option \<times> vad_event list) \<times> 's) option" where
  "VadInput_Compute fuel E junk nvec st s =
     (if nvec = 0 then Some (Inr (True, st, None, []), s)
      else let batch_size = frame_size st + (nvec - 1) * frame_shift st;
             frame_overlap = int (frame_size st) - int (frame_shift st);
             samples_req = nat (int batch_size - frame_overlap)
        in case vad_fill E junk batch_size st s of
            (Inl e, t) \<Rightarrow> Some (Inl e, t)
          | (Inr st', t) \<Rightarrow>
              if buffer_length st' < samples_req \<or> buffer_length st' < batch_size
              then Some (Inl KaldiError, t)
              else vad_loop fuel E batch_size samples_req (st', None, []) t)"

section \<open>The hangover of the detector\<close>

lemma vad_step_ending:
  assumes "vstate v = kEndingSpeech" and "e \<le> recover_threshold v"
  shows "vad_step e v = v\<lparr>hangover_counter := hangover_counter v + 1,
    vstate := if hangover_counter v > hangover_frames v then kSilence else kEndingSpeech\<rparr>"
  using assms by (cases v) (auto simp: vad_step_def Let_def)

lemma vad_steps_silence:
  "vstate v = kSilence \<Longrightarrow> \<forall>e \<in> set es. e \<le> onset_threshold v \<Longrightarrow> fold vad_step es v = v"
  by (induction es) (auto simp: vad_step_def)

lemma vad_steps_ending:
  "vstate v = kEndingSpeech \<Longrightarrow> \<forall>e \<in> set es. e \<le> recover_threshold v \<and> e \<le> onset_threshold v \<Longrightarrow>
     hangover_counter v \<le> hangover_frames v + 1 \<Longrightarrow>
     vstate (fold vad_step es v) =
       (if int (length es) \<le> hangover_frames v + 1 - hangover_counter v then kEndingSpeech else kSilence)"
proof (induction es arbitrary: v)
  case (Cons e es)
  let ?v = "vad_step e v"
  have step: "?v = v\<lparr>hangover_counter := hangover_counter v + 1,
      vstate := if hangover_counter v > hangover_frames v then kSilence else kEndingSpeech\<rparr>"
    using Cons.prems by (intro vad_step_ending) auto
  show ?case
  proof (cases "hangover_counter v > hangover_frames v")
    case True
    then have "fold vad_step es ?v = ?v"
      using Cons.prems(2) step by (intro vad_steps_silence) auto
    then show ?thesis using True step Cons.prems(3) by simp
  next
    case False
    then show ?thesis using Cons.IH [of ?v] Cons.prems step by simp
  qed
qed simp

text \<open>
  C33. The detector ends speech late: from the frame below the offset threshold on, frames
  that stay at or below the recovery (and onset) threshold are still reported as speech
  \<open>hangover_frames + 1\<close> times, and the next one, the \<open>hangover_frames + 2\<close>nd, is the first
  silent one; one louder frame before that brings the speech state back.
\<close>

theorem vad_hangover:
  assumes "vstate v = kSpeech" and "e0 < offset_threshold v" and "0 \<le> hangover_frames v"
    and "\<forall>e \<in> set es. e \<le> recover_threshold v \<and> e \<le> onset_threshold v"
  shows "vstate (fold vad_step (e0 # es) v) =
      (if int (length es) \<le> hangover_frames v + 1 then kEndingSpeech else kSilence)
    \<and> (int (length es) \<le> hangover_frames v + 1 \<and> recover_threshold v < e \<longrightarrow>
        vstate (fold vad_step (e0 # es @ [e]) v) = kSpeech)"
proof -
  let ?v = "v\<lparr>vstate := kEndingSpeech, hangover_counter := 0\<rparr>"
  have start: "vad_step e0 v = ?v" using assms(1,2) by (simp add: vad_step_def)
  have thr: "recover_threshold (fold vad_step es w) = recover_threshold w" for es w
    by (induction es arbitrary: w) (auto simp: vad_step_def Let_def)
  have st: "vstate (fold vad_step es ?v) =
      (if int (length es) \<le> hangover_frames v + 1 then kEndingSpeech else kSilence)"
    using vad_steps_ending [of ?v es] assms(3,4) by simp
  then show ?thesis using start thr [of es ?v] by (auto simp: vad_step_def Let_def)
qed

section \<open>The hangover of the batches\<close>

text \<open>The decisions of a series of batches, with one listener: the kept decision, the counter
  and the events.\<close>

definition batch_step :: "nat \<Rightarrow> nat \<Rightarrow> bool \<Rightarrow> bool \<times> nat \<times> vad_event list \<Rightarrow> bool \<times> nat \<times> vad_event list" where
  "batch_step samples_req buflen bv = (\<lambda>(last_vad, hc, ev).
     case notify_listeners 1 samples_req buflen last_vad bv hc of
       (bv', hc', ev') \<Rightarrow> (bv', hc', ev @ ev'))"

lemma batch_step_speaking:
  "batch_step req L bv (True, hc, ev) =
     (if bv then (True, hc, ev)
      else if hc + req > L then (False, hc + req, ev @ [OnSpeechEnd 0]) else (True, hc + req, ev))"
  by (simp add: batch_step_def notify_listeners_def notify_one_def Let_def)

lemma batches_speaking:
  "hc + req * length (filter Not bs) \<le> L \<Longrightarrow>
     fold (batch_step req L) bs (True, hc, ev) = (True, hc + req * length (filter Not bs), ev)"
proof (induction bs arbitrary: hc)
  case (Cons b bs)
  then show ?case
    using Cons.IH [of "hc + req"] Cons.IH [of hc]
    by (cases b) (simp_all add: batch_step_speaking add.assoc)
qed simp

text \<open>
  The end of an utterance is reported when all its non-speech batches since the start of
  speech, not only the consecutive ones, are longer than the buffer: the counter is reset
  when speech starts after silence but not when it resumes during the hangover, so a speaker
  who pauses often is cut off in the pause that exhausts the buffer length.
\<close>

theorem hangover_counts_all_pauses:
  assumes "req * length (filter Not bs) \<le> L" and "L < req * (length (filter Not bs) + 1)"
  shows "fold (batch_step req L) (True # bs) (False, hc, []) =
      (True, req * length (filter Not bs), [OnSpeechStart 0])
    \<and> fold (batch_step req L) (True # bs @ [False]) (False, hc, []) =
      (False, req * (length (filter Not bs) + 1), [OnSpeechStart 0, OnSpeechEnd 0])"
proof -
  have "batch_step req L True (False, hc, []) = (True, 0, [OnSpeechStart 0])"
    by (simp add: batch_step_def notify_listeners_def notify_one_def)
  then show ?thesis
    using batches_speaking [of 0 req bs L "[OnSpeechStart 0]"] assms
    by (simp add: batch_step_speaking add.commute)
qed

section \<open>The queue is a delay line\<close>

definition source_ok :: "('a list \<Rightarrow> ('s, nat \<times> 'a list) prog) \<Rightarrow> ('s \<Rightarrow> 'a list) \<Rightarrow> bool" where
  "source_ok rdf todo \<longleftrightarrow> (\<forall>s data. \<exists>data' t. let n = min (length (todo s)) (length data) in
     rdf data s = (Inr (n, data'), t) \<and> take n data' = take n (todo s)
     \<and> length data' = length data \<and> todo t = drop n (todo s))"

lemma source_okE:
  assumes "source_ok rdf todo"
  obtains data' t where "rdf data s = (Inr (min (length (todo s)) (length data), data'), t)"
    "take (min (length (todo s)) (length data)) data' = take (min (length (todo s)) (length data)) (todo s)"
    "length data' = length data" "todo t = drop (min (length (todo s)) (length data)) (todo s)"
  using assms unfolding source_ok_def Let_def by blast

definition queue_at :: "('s \<Rightarrow> 'a list) \<Rightarrow> 'a list \<Rightarrow> ('a, 'v) vad_input \<Rightarrow> 's \<Rightarrow> bool" where
  "queue_at todo stream st s \<longleftrightarrow> length (buffer st) = buffer_length st
     \<and> buffer st = take (buffer_length st) stream \<and> todo s = drop (buffer_length st) stream"

text \<open>Speech in the newest batch is not turned back by the listeners.\<close>

lemma notify_speech: "fst (notify_listeners n req L last_vad True hc)"
proof -
  have "fst (foldl (notify_one req L False) (True, hc, ev) is)" for "is" hc ev
    by (induction "is" arbitrary: hc ev) (simp_all add: notify_one_def)
  then show ?thesis by (cases last_vad) (simp_all add: notify_listeners_def)
qed

lemma vad_turn_speech:
  "vad_turn E batch req (st, out, ev) s = (Inr ((b, k), x), t) \<Longrightarrow>
     fst (DoVad (vad_proc E) (windows_of E) (vad st) (drop (buffer_length st - req) (buffer st))) \<Longrightarrow> b"
  using notify_speech [of "nVadListeners st" req "buffer_length st" "batchVad st" "hangoverCount st"]
  by (auto simp: vad_turn_def Let_def andthen_Inr_iff split: prod.splits)

text \<open>
  The decision on a batch and what the listener makes of it, as specified in \<open>Gating\<close>.
\<close>

definition gate_of :: "('a, 'v) vad_input \<Rightarrow> 'v gate" where
  "gate_of st = (vad st, batchVad st, hangoverCount st)"

lemma vad_windows_verdicts:
  "vad_windows det v ws = (length (filter id (fst (verdicts det v ws))), snd (verdicts det v ws))"
  by (induction ws arbitrary: v) (simp_all add: split_def)

lemma DoVad_verdicts:
  "DoVad det windows v b = (mostly_speech (fst (verdicts det v (windows b))), snd (verdicts det v (windows b)))"
  by (auto simp: DoVad_def vad_windows_verdicts mostly_speech_nat Let_def simp flip: length_greater_0_conv)

lemma notify_hold:
  assumes "notify_listeners 1 req L last_vad bv hc = (bv', hc', ev)"
  shows "(bv', hc') = hold req L bv (last_vad, hc)"
  using assms by (cases bv; cases last_vad) (auto simp: notify_listeners_def notify_one_def Let_def split: if_splits)

text \<open>
  What a call that finds speech does: it has skipped \<open>j\<close> requests, returns the features of the
  batch at the front, and leaves the queue one request further.
\<close>

definition batch_returned :: "('s, 'a, 'v, 'f) vad_env \<Rightarrow> ('s \<Rightarrow> 'a list) \<Rightarrow> nat \<Rightarrow> nat \<Rightarrow> 'a list \<Rightarrow> nat
    \<Rightarrow> ('a, 'v) vad_input \<Rightarrow> 'f list option \<Rightarrow> 's \<Rightarrow> bool" where
  "batch_returned E todo batch req stream j st out t \<longleftrightarrow> queue_at todo (drop (Suc j * req) stream) st t
     \<and> out = Some (extract_feats E (take batch (drop (j * req) stream)))"

lemma batch_returned_skip:
  "batch_returned E todo batch req (drop req stream) j st out t
     \<longleftrightarrow> batch_returned E todo batch req stream (Suc j) st out t"
  by (simp add: batch_returned_def ac_simps)

text \<open>
  What a call does that can read \<open>n\<close> full requests: it skips exactly the requests that the gate
  does not let through. If it finds one that passes within them, it returns it and the gate
  has seen it; otherwise it has no more data, and has written the output only if the last
  request passes.
\<close>

definition gated_return :: "('s, 'a, 'v, 'f) vad_env \<Rightarrow> ('s \<Rightarrow> 'a list) \<Rightarrow> nat \<Rightarrow> nat \<Rightarrow> 'a list
    \<Rightarrow> ('a, 'v) vad_input \<Rightarrow> nat \<Rightarrow> 'f list option \<Rightarrow> bool \<Rightarrow> ('a, 'v) vad_input \<Rightarrow> 'f list option \<Rightarrow> 's \<Rightarrow> bool" where
  "gated_return E todo batch req stream st n out more_data st' out' t \<longleftrightarrow>
     (let det = vad_proc E; ws = windows_of E; L = buffer_length st;
          j = skipped (gated det ws req L (gate_of st) (Suc n) stream) in
      if more_data then j < n \<and> batch_returned E todo batch req stream j st' out' t
        \<and> gate_of st' = gate_after det ws req L (gate_of st) (Suc j) stream
      else n \<le> j \<and> out' = (if j = n then Some (extract_feats E (take batch (drop (j * req) stream))) else out))"

lemma gated_return_skip:
  assumes "gate_of st1 = gate_step (vad_proc E) (windows_of E) req (buffer_length st) (gate_of st)
      (take req (drop (buffer_length st - req) stream))"
    and "\<not> opened (gate_of st)" and "\<not> opened (gate_of st1)" and "buffer_length st1 = buffer_length st"
    and "gated_return E todo batch req (drop req stream) st1 n out more_data st' out' t"
  shows "gated_return E todo batch req stream st (Suc n) out more_data st' out' t"
proof -
  have after: "gate_after (vad_proc E) (windows_of E) req (buffer_length st) (gate_of st) (Suc m) stream
      = gate_after (vad_proc E) (windows_of E) req (buffer_length st) (gate_of st1) m (drop req stream)" for m
    unfolding gate_after_Suc assms(1) [symmetric] by (rule refl)
  show ?thesis
    using assms(2-5) unfolding gated_return_def Let_def gated_Suc [OF assms(1), of "Suc n"]
    by (simp add: batch_returned_skip after add.commute split: if_splits)
qed

lemma gated_return_now:
  assumes "gate_of st1 = gate_step (vad_proc E) (windows_of E) req (buffer_length st) (gate_of st)
      (take req (drop (buffer_length st - req) stream))"
    and "opened (gate_of st) \<or> opened (gate_of st1)" and "batch_returned E todo batch req stream 0 st1 out1 t"
  shows "gated_return E todo batch req stream st (Suc n) out True st1 out1 t"
  using assms(2,3)
  unfolding gated_return_def Let_def gated_Suc [OF assms(1), of "Suc n"] gate_after_Suc assms(1) [symmetric]
  by simp

lemma gated_return_last:
  assumes "gate_of st1 = gate_step (vad_proc E) (windows_of E) req (buffer_length st) (gate_of st)
      (take req (drop (buffer_length st - req) stream))"
    and "out1 = (if opened (gate_of st) \<or> opened (gate_of st1)
      then Some (extract_feats E (take batch stream)) else out)"
  shows "gated_return E todo batch req stream st 0 out False st1 out1 t"
  using assms(2) unfolding gated_return_def Let_def gated_Suc [OF assms(1)] by simp

text \<open>
  The interface of a source that ends: while it is \<open>live\<close> a read of at most \<open>limit\<close> samples
  returns the next ones, as far as there are any; a read that takes all of them may leave the
  source \<open>lost\<close>, and then the next read is the fault \<open>broken\<close>.
\<close>

locale ending_source =
  fixes rdf :: "'a list \<Rightarrow> ('s, nat \<times> 'a list) prog"
    and todo :: "'s \<Rightarrow> 'a list"
    and live :: "'s \<Rightarrow> bool"
    and lost :: "'s \<Rightarrow> bool"
    and broken :: fault
    and limit :: nat
  assumes read_live: "live s \<Longrightarrow> length data \<le> limit \<Longrightarrow> k = min (length (todo s)) (length data) \<Longrightarrow>
      \<exists>data' t. rdf data s = (Inr (k, data'), t) \<and> take k data' = take k (todo s)
        \<and> length data' = length data \<and> todo t = drop k (todo s)
        \<and> (live t \<or> lost t \<and> length (todo s) \<le> length data)"
    and read_lost: "lost s \<Longrightarrow> \<exists>t. rdf data s = (Inl broken, t)"
begin

text \<open>One turn on a queue: it returns, and with a full read the queue moves on.\<close>

lemma vad_turn_queue:
  assumes E: "rd E = rdf" and live: "live s" and q: "queue_at todo stream st s"
    and req: "req \<le> buffer_length st" and lim: "req \<le> limit" and one: "nVadListeners st = 1"
  shows "\<exists>speech st' out' ev' t. vad_turn E batch req (st, out, ev) s =
      (Inr ((speech, min (length (todo s)) req), st', out', ev'), t)
    \<and> todo t = drop (min (length (todo s)) req) (todo s)
    \<and> (live t \<or> lost t \<and> length (todo s) \<le> req)
    \<and> buffer_length st' = buffer_length st
    \<and> nVadListeners st' = 1
    \<and> speech = (opened (gate_of st) \<or> opened (gate_of st'))
    \<and> gate_of st' = gate_step (vad_proc E) (windows_of E) req (buffer_length st) (gate_of st)
        (take req (drop (buffer_length st - req) stream))
    \<and> (req \<le> length (todo s) \<longrightarrow> queue_at todo (drop req stream) st' t)
    \<and> out' = (if speech then Some (extract_feats E (take batch (buffer st))) else out)"
proof -
  let ?L = "buffer_length st"
  let ?shifted = "ShiftBuffer (buffer st) req"
  obtain bv v' where bv: "DoVad (vad_proc E) (windows_of E) (vad st) (drop (?L - req) (buffer st)) = (bv, v')"
    by fastforce
  obtain bv' hc' evs where n: "notify_listeners (nVadListeners st) req ?L (batchVad st) bv (hangoverCount st)
      = (bv', hc', evs)"
    by (metis prod.collapse)
  have len: "length (buffer st) = ?L" using q unfolding queue_at_def by (rule conjunct1)
  have sh: "take (?L - req) ?shifted = drop req (buffer st)" "length (drop (?L - req) ?shifted) = req"
    using len req by (simp_all add: ShiftBuffer_def)
  obtain data t where r: "rd E (drop (?L - req) ?shifted) s = (Inr (min (length (todo s)) req, data), t)"
    "take (min (length (todo s)) req) data = take (min (length (todo s)) req) (todo s)"
    "length data = req" "todo t = drop (min (length (todo s)) req) (todo s)"
    "live t \<or> lost t \<and> length (todo s) \<le> req"
    using read_live [OF live _ refl, of "drop (?L - req) ?shifted"] lim unfolding sh(2) E by blast
  define st' where "st' = st\<lparr>buffer := take (?L - req) ?shifted @ data, batchVad := bv',
      hangoverCount := hc', vad := v'\<rparr>"
  have turn: "vad_turn E batch req (st, out, ev) s = (Inr ((batchVad st \<or> bv', min (length (todo s)) req), st',
      (if batchVad st \<or> bv' then Some (extract_feats E (take batch (buffer st))) else out), ev @ evs), t)"
    by (simp add: vad_turn_def bv n Let_def andthen_Inr [of "rd E (drop (?L - req) ?shifted)", OF r(1)]
        st'_def)
  have "queue_at todo (drop req stream) st' t" if full: "req \<le> length (todo s)"
  proof -
    have todo: "todo s = drop ?L stream" and buf: "buffer st = take ?L stream"
      using q by (simp_all add: queue_at_def)
    have data: "data = take req (drop ?L stream)" using r(2,3) full todo by simp
    have "buffer st' = drop req (take ?L stream) @ take req (drop ?L stream)"
      using sh(1) data unfolding st'_def buf by simp
    also have "\<dots> = take (?L - req) (drop req stream) @ take req (drop (?L - req) (drop req stream))"
      using req by (simp add: drop_take)
    also have "\<dots> = take ?L (drop req stream)"
      using req take_add [of "?L - req" req "drop req stream"] by simp
    finally have "buffer st' = take ?L (drop req stream)" .
    moreover have "length (buffer st') = ?L"
      using len sh(1) r(3) req by (simp add: st'_def)
    moreover have "todo t = drop ?L (drop req stream)"
      using r(4) full todo by (simp add: add.commute)
    moreover have "buffer_length st' = ?L" by (simp add: st'_def)
    ultimately show ?thesis by (simp add: queue_at_def)
  qed
  moreover have "drop (?L - req) (buffer st) = take req (drop (?L - req) stream)"
    using q req by (simp add: queue_at_def drop_take)
  then have "gate_of st' = gate_step (vad_proc E) (windows_of E) req ?L (gate_of st)
      (take req (drop (?L - req) stream))"
    using bv notify_hold [OF n [unfolded one]] by (auto simp: gate_of_def st'_def DoVad_verdicts split_def)
  moreover have "buffer_length st' = ?L" "nVadListeners st' = 1" "batchVad st' = bv'" using one by (simp_all add: st'_def)
  ultimately show ?thesis using turn r(4,5)
    by (intro exI [of _ "batchVad st \<or> bv'"] exI [of _ st'] exI conjI) (auto simp: opened_def gate_of_def)
qed

text \<open>A new batch with speech ends the loop.\<close>

lemma vad_loop_speech:
  assumes "rd E = rdf" and "live s" and "queue_at todo stream st s"
    and "req \<le> buffer_length st" and "req \<le> limit" and "nVadListeners st = 1" and "req \<le> length (todo s)"
    and speech: "fst (DoVad (vad_proc E) (windows_of E) (vad st) (drop (buffer_length st - req) (buffer st)))"
  shows "\<exists>st' out' ev' t. vad_loop (Suc fuel) E batch req (st, out, ev) s = Some (Inr (True, st', out', ev'), t)"
proof -
  obtain b st' out' ev' t where "vad_turn E batch req (st, out, ev) s
      = (Inr ((b, min (length (todo s)) req), st', out', ev'), t)"
    using vad_turn_queue [OF assms(1-6), of batch out ev] by blast
  moreover from this speech have b by (rule vad_turn_speech)
  ultimately show ?thesis using assms(7) by (auto simp: min_def)
qed

text \<open>A turn on a source that is lost.\<close>

lemma vad_turn_lost:
  assumes "rd E = rdf" and "lost s"
  shows "\<exists>t. vad_turn E batch req (st, out, ev) s = (Inl broken, t)"
proof -
  obtain t where "rd E (drop (buffer_length st - req) (ShiftBuffer (buffer st) req)) s = (Inl broken, t)"
    using read_lost [OF assms(2)] assms(1) by blast
  then show ?thesis by (simp add: vad_turn_def Let_def andthen_Inl split: prod.splits)
qed

text \<open>
  The loop: it returns, for one turn per sample is enough fuel. With more data to come it has
  moved the queue on by whole requests; without, less than a request was left at the end; and
  it fails when the source was lost with the last sample of a request. In each case it has
  skipped what the gate does not let through.
\<close>

lemma vad_loop_queue:
  "rd E = rdf \<Longrightarrow> vad_timeout E \<noteq> Some 0 \<Longrightarrow> live s \<Longrightarrow> queue_at todo stream st s \<Longrightarrow>
     req \<le> buffer_length st \<Longrightarrow> req \<le> limit \<Longrightarrow> nVadListeners st = 1 \<Longrightarrow>
     batch \<le> buffer_length st \<Longrightarrow> 0 < req \<Longrightarrow> length (todo s) < fuel \<Longrightarrow>
     \<exists>r t. vad_loop fuel E batch req (st, out, ev) s = Some (r, t) \<and>
       (case r of
          Inl e \<Rightarrow> e = broken \<and> (\<exists>u. lost u) \<and> length (todo s) mod req = 0
            \<and> length (todo s) div req \<le> skipped (gated (vad_proc E) (windows_of E) req (buffer_length st)
                (gate_of st) (Suc (length (todo s) div req)) stream)
        | Inr (b, st', out', ev') \<Rightarrow>
            (if b then live t \<or> lost t \<and> length (todo s) mod req = 0
             else \<exists>u. live u \<and> length (todo u) = length (todo s) mod req)
            \<and> gated_return E todo batch req stream st (length (todo s) div req) out b st' out' t)"
proof (induction fuel arbitrary: st s ev stream)
  case (Suc fuel)
  define k where "k = min (length (todo s)) req"
  obtain speech st1 out1 ev1 t1 where turn: "vad_turn E batch req (st, out, ev) s =
      (Inr ((speech, k), st1, out1, ev1), t1)"
    "todo t1 = drop k (todo s)" "live t1 \<or> lost t1 \<and> length (todo s) \<le> req"
    "buffer_length st1 = buffer_length st" "nVadListeners st1 = 1"
    "speech = (opened (gate_of st) \<or> opened (gate_of st1))"
    "gate_of st1 = gate_step (vad_proc E) (windows_of E) req (buffer_length st) (gate_of st)
      (take req (drop (buffer_length st - req) stream))"
    "req \<le> length (todo s) \<longrightarrow> queue_at todo (drop req stream) st1 t1"
    "out1 = (if speech then Some (extract_feats E (take batch (buffer st))) else out)"
    using vad_turn_queue [OF Suc.prems(1,3-7), of batch out ev] unfolding k_def by blast
  note gate = turn(7)
  have k: "k = req \<longleftrightarrow> req \<le> length (todo s)" by (auto simp: k_def min_def)
  have front: "take batch (buffer st) = take batch stream"
    using Suc.prems(4,8) by (simp add: queue_at_def min_absorb1)
  have divs: "length (todo s) div req = Suc (length (todo t1) div req)"
    "length (todo t1) mod req = length (todo s) mod req" if "k = req"
  proof -
    have "req \<le> length (todo s)" "length (todo t1) = length (todo s) - req" using that k turn(2) by auto
    then show "length (todo s) div req = Suc (length (todo t1) div req)"
      "length (todo t1) mod req = length (todo s) mod req"
      using Suc.prems(9) by (simp_all add: le_div_geq le_mod_geq)
  qed
  consider (short) "k \<noteq> req" | (last) "k = req" speech | (lost) "k = req" "\<not> speech" "\<not> live t1"
    | (go_on) "k = req" "\<not> speech" "live t1" by blast
  then show ?case
  proof cases
    case short
    then have less: "length (todo s) < req" using k by linarith
    have "gated_return E todo batch req stream st 0 out False st1 out1 t1"
      using turn(9) unfolding front turn(6) by (intro gated_return_last [OF gate])
    with short less turn(1) Suc.prems(2,3) show ?thesis by auto
  next
    case last
    have "length (todo s) mod req = 0" if "\<not> live t1"
      using that turn(3) k last(1) by auto
    moreover have "gated_return E todo batch req stream st (length (todo s) div req) out True st1 out1 t1"
      unfolding divs(1) [OF last(1)]
      using turn(6,8,9) k last front by (intro gated_return_now [OF gate]) (simp_all add: batch_returned_def)
    moreover have "vad_loop (Suc fuel) E batch req (st, out, ev) s = Some (Inr (True, st1, out1, ev1), t1)"
      using turn(1) last by simp
    ultimately show ?thesis using turn(3) by auto
  next
    case lost
    then have l: "lost t1" "length (todo s) = req" "0 < fuel"
      using turn(3) k Suc.prems(9,10) by auto
    then obtain f where f: "fuel = Suc f" by (cases fuel) auto
    obtain t where "vad_turn E batch req (st1, out1, ev1) t1 = (Inl broken, t)"
      using vad_turn_lost [OF Suc.prems(1) l(1)] by blast
    then have loop: "vad_loop (Suc fuel) E batch req (st, out, ev) s = Some (Inl broken, t)"
      using turn(1) lost f by simp
    have "Suc 0 \<le> skipped (gated (vad_proc E) (windows_of E) req (buffer_length st)
        (gate_of st) (Suc (Suc 0)) stream)"
      using lost(2) unfolding turn(6) gated_Suc [OF gate] by simp
    then show ?thesis using loop l Suc.prems(9) by auto
  next
    case go_on
    then have q: "queue_at todo (drop req stream) st1 t1" "length (todo t1) < fuel"
      using turn(2,8) k Suc.prems(9,10) by auto
    have loop: "vad_loop (Suc fuel) E batch req (st, out, ev) s = vad_loop fuel E batch req (st1, out, ev1) t1"
      using turn(1,9) go_on by simp
    have silent: "\<not> opened (gate_of st)" "\<not> opened (gate_of st1)" using go_on(2) turn(6) by auto
    from Suc.IH [OF Suc.prems(1,2) go_on(3) q(1) _ Suc.prems(6) turn(5) _ Suc.prems(9) q(2), of ev1]
      Suc.prems(5,8) turn(4)
    obtain r t where r: "vad_loop fuel E batch req (st1, out, ev1) t1 = Some (r, t)"
      "case r of Inl e \<Rightarrow> e = broken \<and> (\<exists>u. lost u) \<and> length (todo t1) mod req = 0
            \<and> length (todo t1) div req \<le> skipped (gated (vad_proc E) (windows_of E) req (buffer_length st1)
                (gate_of st1) (Suc (length (todo t1) div req)) (drop req stream))
        | Inr (b, st', out', ev') \<Rightarrow>
            (if b then live t \<or> lost t \<and> length (todo t1) mod req = 0
             else \<exists>u. live u \<and> length (todo u) = length (todo t1) mod req)
            \<and> gated_return E todo batch req (drop req stream) st1 (length (todo t1) div req) out b st' out' t"
      by auto
    have ret: "gated_return E todo batch req stream st (length (todo s) div req) out b st' out' t"
      if "gated_return E todo batch req (drop req stream) st1 (length (todo t1) div req) out b st' out' t"
      for b st' out'
      unfolding divs(1) [OF go_on(1)] by (rule gated_return_skip [OF gate silent turn(4) that])
    show ?thesis
    proof (cases r)
      case (Inl e)
      then show ?thesis using r loop silent turn(4)
        unfolding divs(1) [OF go_on(1)] gated_Suc [OF gate] by (simp add: divs(2) [OF go_on(1)])
    next
      case (Inr x)
      then show ?thesis using r loop ret by (cases x) (auto simp: divs(2) [OF go_on(1)])
    qed
  qed
qed simp

end

lemma source_ok_ending: "source_ok rdf todo \<Longrightarrow> ending_source rdf todo (\<lambda>_. True) (\<lambda>_. False) e n"
  unfolding source_ok_def Let_def by unfold_locales blast+

text \<open>What no turn changes.\<close>

definition same_queue :: "('a, 'v) vad_input \<Rightarrow> ('a, 'v) vad_input \<Rightarrow> bool" where
  "same_queue st st' \<longleftrightarrow> frame_size st' = frame_size st \<and> frame_shift st' = frame_shift st
     \<and> buffer_length st' = buffer_length st \<and> buffer_init st' = buffer_init st
     \<and> nVadListeners st' = nVadListeners st"

lemma vad_turn_same: "vad_turn E batch req (st, out, ev) s = (Inr (p, st', x), t) \<Longrightarrow> same_queue st st'"
  by (auto simp: vad_turn_def Let_def andthen_Inr_iff same_queue_def split: prod.splits)

lemma vad_loop_same:
  "vad_loop fuel E batch req (st, out, ev) s = Some (Inr (b, st', x), t) \<Longrightarrow> same_queue st st'"
proof (induction fuel arbitrary: st out ev s)
  case (Suc fuel)
  then obtain p st1 out1 ev1 t1 where turn: "vad_turn E batch req (st, out, ev) s = (Inr (p, st1, out1, ev1), t1)"
    by (auto split: prod.splits sum.splits)
  note same = vad_turn_same [OF this]
  from turn Suc.prems have "st1 = st' \<or> same_queue st1 st'"
    by (cases p) (auto split: if_splits intro: Suc.IH)
  with same show ?case by (auto simp: same_queue_def)
qed simp

text \<open>The sizes of a call, and the call on a filled and on a new queue.\<close>

lemma vad_sizes:
  assumes "0 < nvec" and "0 < fshift" and "fshift \<le> fsize" and "fsize + (nvec - 1) * fshift \<le> L"
  shows "nat (int (fsize + (nvec - 1) * fshift) - (int fsize - int fshift)) = nvec * fshift"
    and "nvec * fshift \<le> L" and "0 < nvec * fshift"
proof -
  have split: "(nvec - 1) * fshift + fshift = nvec * fshift" using assms(1) by (cases nvec) simp_all
  then have "int (fsize + (nvec - 1) * fshift) - (int fsize - int fshift) = int (nvec * fshift)" by linarith
  then show "nat (int (fsize + (nvec - 1) * fshift) - (int fsize - int fshift)) = nvec * fshift"
    by (simp only: nat_int)
  show "nvec * fshift \<le> L" using split assms(3,4) by linarith
  show "0 < nvec * fshift" using assms(1,2) by simp
qed

lemma VadInput_Compute_filled:
  assumes "buffer_init st" and "0 < nvec" and "0 < frame_shift st" and "frame_shift st \<le> frame_size st"
    and "frame_size st + (nvec - 1) * frame_shift st \<le> buffer_length st"
  shows "VadInput_Compute fuel E junk nvec st s = vad_loop fuel E
    (frame_size st + (nvec - 1) * frame_shift st) (nvec * frame_shift st) (st, None, []) s"
  using assms vad_sizes(2) [OF assms(2-5)]
  unfolding VadInput_Compute_def Let_def vad_sizes(1) [OF assms(2-5)] by (simp add: vad_fill_def)

lemma VadInput_Compute_first:
  assumes "\<not> buffer_init st" and "0 < nvec" and "0 < frame_shift st" and "frame_shift st \<le> frame_size st"
    and "L = buffer_length st + (frame_size st + (nvec - 1) * frame_shift st)"
    and "rd E (replicate L junk) s = (Inr (n, data), t)"
  shows "VadInput_Compute fuel E junk nvec st s = vad_loop fuel E
    (frame_size st + (nvec - 1) * frame_shift st) (nvec * frame_shift st)
    (st\<lparr>buffer_length := L, buffer := data, buffer_init := True, vad := vad_initialize E (vad st) data\<rparr>,
      None, []) t"
proof -
  have le: "frame_size st + (nvec - 1) * frame_shift st \<le> L" using assms(5) by simp
  show ?thesis
    using assms le vad_sizes(2) [OF assms(2-4) le]
    unfolding VadInput_Compute_def Let_def vad_sizes(1) [OF assms(2-4) le]
    by (simp add: vad_fill_def Let_def andthen_Inr)
qed

text \<open>
  C11. The input is a delay line with a gate: with the queue holding the first \<open>buffer_length\<close>
  samples of what is left of the stream, a call on a finite source with \<open>n\<close> more full requests
  of \<open>req = nvec * frame_shift\<close> samples returns (fuel for one turn per sample is enough). It
  looks at the newest request of the queue, reads the next and goes on with the queue moved
  by one request, and so skips exactly the \<open>j\<close> requests that \<open>gated\<close> does not let through: those
  in which fewer than three windows of ten are speech, unless the gate is open behind speech.
  When the first request that passes is one of the first \<open>n\<close>, there is more data: the features
  are those of the batch at the front of the queue at that time, and the queue has moved on by one
  request more, losing and repeating no sample. Otherwise the result is false, and the output
  is written only when the request after these passes, behind which the next one is cut short.
\<close>

theorem vad_input_is_delay_line:
  assumes "source_ok (rd E) todo" and "vad_timeout E \<noteq> Some 0" and "queue_at todo stream st s" and "buffer_init st" and "0 < nvec"
    and "0 < frame_shift st" and "frame_shift st \<le> frame_size st"
    and "frame_size st + (nvec - 1) * frame_shift st \<le> buffer_length st"
    and "nVadListeners st = 1" and "length (todo s) < fuel"
    and req: "req = nvec * frame_shift st" and n: "n = length (todo s) div req"
    and j: "j = skipped (gated (vad_proc E) (windows_of E) req (buffer_length st) (gate_of st) (Suc n) stream)"
  shows "\<exists>st' ev t. VadInput_Compute fuel E junk nvec st s = Some (Inr (j < n, st',
        (if j \<le> n then Some (extract_feats E (take (frame_size st + (nvec - 1) * frame_shift st) (drop (j * req) stream)))
         else None), ev), t)
    \<and> (if j < n then queue_at todo (drop (Suc j * req) stream) st' t
         \<and> gate_of st' = gate_after (vad_proc E) (windows_of E) req (buffer_length st) (gate_of st) (Suc j) stream
       else True)"
proof -
  let ?batch = "frame_size st + (nvec - 1) * frame_shift st"
  note sizes = vad_sizes(2,3) [OF assms(5-8), folded req]
  note C = VadInput_Compute_filled [OF assms(4-8), of fuel E junk s, folded req]
  note src = source_ok_ending [OF assms(1), of KaldiError req]
  have "\<exists>more_data st' out ev t. vad_loop fuel E ?batch req (st, None, []) s = Some (Inr (more_data, st', out, ev), t)
      \<and> gated_return E todo ?batch req stream st n None more_data st' out t"
    using ending_source.vad_loop_queue [OF src refl assms(2) TrueI assms(3) sizes(1) order_refl assms(9,8)
        sizes(2) assms(10), of None "[]", folded n]
    by (elim exE conjE, split sum.split_asm) (auto split: prod.split_asm)
  then obtain more_data st' out ev t where
    r: "vad_loop fuel E ?batch req (st, None, []) s = Some (Inr (more_data, st', out, ev), t)"
    and gr: "gated_return E todo ?batch req stream st n None more_data st' out t" by blast
  from gr have "more_data = (j < n)"
    "out = (if j \<le> n then Some (extract_feats E (take ?batch (drop (j * req) stream))) else None)"
    "j < n \<Longrightarrow> queue_at todo (drop (Suc j * req) stream) st' t
      \<and> gate_of st' = gate_after (vad_proc E) (windows_of E) req (buffer_length st) (gate_of st) (Suc j) stream"
    unfolding gated_return_def Let_def j [symmetric] batch_returned_def by (auto split: if_splits)
  then show ?thesis using r C by simp
qed

text \<open>
  When the source runs dry while there is silence, the call returns without having
  written the output matrix, whose rows the caller then takes for features.
\<close>

theorem vad_input_ends_unwritten:
  assumes "source_ok (rd E) todo" and "vad_timeout E \<noteq> Some 0" and "queue_at todo stream st s" and "buffer_init st" and "0 < nvec"
    and "0 < frame_shift st" and "frame_shift st \<le> frame_size st"
    and "frame_size st + (nvec - 1) * frame_shift st \<le> buffer_length st"
    and "\<not> batchVad st" and "\<forall>v b. \<not> fst (DoVad (vad_proc E) (windows_of E) v b)"
    and "nVadListeners st = 1" and "length (todo s) < nvec * frame_shift st"
  shows "\<exists>st' ev t. VadInput_Compute 1 E junk nvec st s = Some (Inr (False, st', None, ev), t)"
proof -
  let ?batch = "frame_size st + (nvec - 1) * frame_shift st" and ?req = "nvec * frame_shift st"
  note le = vad_sizes(2) [OF assms(5-8)]
  note C = VadInput_Compute_filled [OF assms(4-8), of 1 E junk s]
  note src = source_ok_ending [OF assms(1), of KaldiError ?req]
  obtain speech st1 out1 ev1 t1 where turn: "vad_turn E ?batch ?req (st, None, []) s =
      (Inr ((speech, min (length (todo s)) ?req), st1, out1, ev1), t1)"
    "speech = (batchVad st \<or> batchVad st1)"
    "out1 = (if speech then Some (extract_feats E (take ?batch (buffer st))) else None)"
    using ending_source.vad_turn_queue [OF src refl TrueI assms(3) le order_refl assms(11), of ?batch None "[]"]
    by (auto simp: opened_def gate_of_def)
  have "\<not> batchVad st1"
    using turn(1) assms(9,10)
    by (auto simp: vad_turn_def Let_def andthen_Inr_iff notify_listeners_def split: prod.splits)
      (metis fst_conv)+
  then have "\<not> speech" "out1 = None" using turn(2,3) assms(9) by auto
  then show ?thesis using C turn(1) assms(2,12) by simp
qed

text \<open>
  The timeout is no timeout: any positive value does what a null pointer does, however long the
  call blocks, for the value is neither handed to the source nor compared with a clock; a value
  that is already zero makes every call that returns report more data, also behind the end of the
  source.
\<close>

lemma vad_turn_timeout: "vad_turn (E\<lparr>vad_timeout := tm\<rparr>) = vad_turn E"
proof -
  have same: "rd (E\<lparr>vad_timeout := tm\<rparr>) = rd E" "windows_of (E\<lparr>vad_timeout := tm\<rparr>) = windows_of E"
    "extract_feats (E\<lparr>vad_timeout := tm\<rparr>) = extract_feats E" "vad_proc (E\<lparr>vad_timeout := tm\<rparr>) = vad_proc E"
    by simp_all
  show ?thesis by (intro ext) (unfold vad_turn_def same, rule refl)
qed

lemma vad_fill_timeout: "vad_fill (E\<lparr>vad_timeout := tm\<rparr>) junk batch st = vad_fill E junk batch st"
  by (cases "buffer_init st") (simp_all add: vad_fill_def)

lemma vad_loop_timeout:
  assumes "0 < ms"
  shows "vad_loop fuel (E\<lparr>vad_timeout := Some ms\<rparr>) batch req x s
    = vad_loop fuel (E\<lparr>vad_timeout := None\<rparr>) batch req x s"
proof (induction fuel arbitrary: x s)
  case (Suc fuel)
  then show ?case using assms by (simp add: vad_turn_timeout split: prod.splits sum.splits)
qed simp

theorem vad_timeout_ignored:
  assumes "0 < ms"
  shows "VadInput_Compute fuel (E\<lparr>vad_timeout := Some ms\<rparr>) junk nvec st s
    = VadInput_Compute fuel (E\<lparr>vad_timeout := None\<rparr>) junk nvec st s"
  unfolding VadInput_Compute_def vad_fill_timeout vad_loop_timeout [OF assms] by (rule refl)

lemma vad_loop_expired:
  "vad_timeout E = Some 0 \<Longrightarrow> vad_loop fuel E batch req x s = Some (Inr (b, y), t) \<Longrightarrow> b"
  by (induction fuel arbitrary: x s) (auto split: prod.splits sum.splits if_splits)

theorem vad_expired_never_ends:
  assumes "vad_timeout E = Some 0"
    and "VadInput_Compute fuel E junk nvec st s = Some (Inr (b, y), t)"
  shows b
  using assms(2)
  by (auto simp: VadInput_Compute_def Let_def split: if_splits prod.splits sum.splits
      dest: vad_loop_expired [OF assms(1)])

section \<open>Witnesses\<close>

definition list_env :: "(nat list, nat, unit, nat) vad_env" where
  "list_env = \<lparr>rd = (\<lambda>data s. (Inr (min (length s) (length data),
       take (min (length s) (length data)) s @ drop (min (length s) (length data)) data),
       drop (min (length s) (length data)) s)),
     windows_of = (\<lambda>b. map (\<lambda>x. [x]) b), extract_feats = (\<lambda>b. b),
     vad_proc = (\<lambda>v w. (w \<noteq> [0], v)), vad_initialize = (\<lambda>v b. v), vad_timeout = None\<rparr>"

definition list_queue :: "nat list \<Rightarrow> (nat, unit) vad_input" where
  "list_queue b = \<lparr>frame_size = 2, frame_shift = 1, buffer_length = length b, buffer_init = True,
     buffer = b, batchVad = False, hangoverCount = 0, nVadListeners = 1, vad = ()\<rparr>"

lemma list_env_ok: "source_ok (rd list_env) (\<lambda>s. s)"
  by (auto simp: source_ok_def list_env_def Let_def)

lemma list_queue_at: "queue_at (\<lambda>s. s) (b @ s) (list_queue b) s"
  by (simp add: queue_at_def list_queue_def)

theorem vad_hangover_witness:
  "vstate (fold vad_step [1, 2, 2] (SimpleEnergyVad_new 9 3 5 0\<lparr>vstate := kSpeech\<rparr>)) = kSilence"
  using vad_hangover [of "SimpleEnergyVad_new 9 3 5 0\<lparr>vstate := kSpeech\<rparr>" 1 "[2, 2]" 6]
  by (simp add: SimpleEnergyVad_new_def)

theorem hangover_counts_all_pauses_witness:
  "fold (batch_step 4320 12560) [True, False, True, True, False, True, False] (False, 0, [])
     = (False, 12960, [OnSpeechStart 0, OnSpeechEnd 0])"
proof -
  have "fold (batch_step 4320 12560) (True # [False, True, True, False, True] @ [False]) (False, 0, [])
    = (False, 4320 * (length (filter Not [False, True, True, False, True]) + 1),
        [OnSpeechStart 0, OnSpeechEnd 0])"
    by (rule conjunct2 [OF hangover_counts_all_pauses]) simp_all
  then show ?thesis by (simp del: fold_simps)
qed

lemma list_queue_simps [simp]:
  "frame_size (list_queue b) = 2" "frame_shift (list_queue b) = 1"
  "buffer_length (list_queue b) = length b" "buffer_init (list_queue b)" "\<not> batchVad (list_queue b)"
  "nVadListeners (list_queue b) = 1"
  by (simp_all add: list_queue_def)

theorem vad_input_is_delay_line_witness:
  "\<exists>st' ev t. VadInput_Compute 6 list_env 0 2 (list_queue [0, 0, 0, 0]) [0, 1, 2, 3, 0]
      = Some (Inr (True, st', Some [0, 0, 0], ev), t)"
proof -
  have j: "1 = skipped (gated (vad_proc list_env) (windows_of list_env) 2 (length [0, 0, 0, 0 :: nat]) (gate_of (list_queue [0, 0, 0, 0]))
      (Suc 2) ([0, 0, 0, 0] @ [0, 1, 2, 3, 0]))"
    by (simp add: gated_def newest_def opened_def mostly_speech_nat list_env_def list_queue_def gate_of_def
        numeral_3_eq_3 upt_rec)
  have feats: "extract_feats list_env b = b" "vad_timeout list_env \<noteq> Some 0" for b
    by (simp_all add: list_env_def)
  show ?thesis
    using vad_input_is_delay_line [OF list_env_ok _ list_queue_at, of "[0, 0, 0, 0]" 2
        "[0, 1, 2, 3, 0]" 6 2 2 1 0] j feats by auto
qed

theorem vad_input_ends_unwritten_witness:
  "\<exists>st' ev t. VadInput_Compute 1 (list_env\<lparr>vad_proc := \<lambda>v w. (False, v)\<rparr>) 0 2 (list_queue [0, 0, 0, 0]) [7]
      = Some (Inr (False, st', None, ev), t)"
proof (rule vad_input_ends_unwritten)
  have *: "vad_windows (\<lambda>v w. (False, v)) v ws = (0, v)" for v :: unit and ws :: "nat list list"
    by (induction ws) simp_all
  then show "\<forall>v b. \<not> fst (DoVad (vad_proc (list_env\<lparr>vad_proc := \<lambda>v w. (False, v)\<rparr>))
      (windows_of (list_env\<lparr>vad_proc := \<lambda>v w. (False, v)\<rparr>)) v b)"
    by (simp add: DoVad_def Let_def)
  show "queue_at (\<lambda>s. s) ([0, 0, 0, 0] @ [7]) (list_queue [0, 0, 0, 0]) [7]"
    by (rule list_queue_at)
  show "source_ok (rd (list_env\<lparr>vad_proc := \<lambda>v w. (False, v)\<rparr>)) (\<lambda>s. s)"
    using list_env_ok by simp
  show "vad_timeout (list_env\<lparr>vad_proc := \<lambda>v w. (False, v)\<rparr>) \<noteq> Some 0" by (simp add: list_env_def)
qed simp_all

text \<open>A source that has ended, and a timeout that has expired: the answer is that there is more.\<close>

theorem vad_expired_never_ends_witness:
  "\<exists>st' ev t. VadInput_Compute 1 (list_env\<lparr>vad_timeout := Some 0\<rparr>) 0 2 (list_queue [0, 0, 0, 0]) []
      = Some (Inr (True, st', None, ev), t)"
proof -
  let ?C = "VadInput_Compute 1 (list_env\<lparr>vad_timeout := Some 0\<rparr>) 0 2 (list_queue [0, 0, 0, 0]) []"
  have "map_option (\<lambda>(x, t). case x of Inl e \<Rightarrow> None | Inr (b, st, out, ev) \<Rightarrow> Some out) ?C = Some (Some None)"
    by code_simp
  then obtain x t where x: "?C = Some (x, t)"
    "(case x of Inl e \<Rightarrow> None | Inr (b, st, out, ev) \<Rightarrow> Some out) = Some None" by auto
  then obtain b st' ev where r: "?C = Some (Inr (b, st', None, ev), t)" by (cases x) auto
  then have b by (rule vad_expired_never_ends [rotated]) (simp add: list_env_def)
  with r show ?thesis by auto
qed

theorem vad_timeout_ignored_witness:
  "VadInput_Compute 1 (list_env\<lparr>vad_timeout := Some 7\<rparr>) 0 2 (list_queue [0, 0, 0, 0]) []
    = VadInput_Compute 1 (list_env\<lparr>vad_timeout := None\<rparr>) 0 2 (list_queue [0, 0, 0, 0]) []"
  by (rule vad_timeout_ignored) simp

end
