(* ===== verification/AudioInputs.thy ===== *)
theory AudioInputs
  imports Features Vad
begin

text \<open>
  The feature inputs that read audio: \<open>OnlineAudioInput\<close> and \<open>OnlineFeInput\<close>
  (\<open>online-feat-input.cc\<close>). The audio source is a parameter, as in \<open>Vad\<close>, and so is the
  feature extractor, which fails or returns the features and the samples it has no further use for.

  The pointer \<open>timeout\<close> refers to a variable of the caller, which the source may set: the
  variable is a part of the state of the source, and \<open>tmo\<close> reads it (\<^const>\<open>None\<close> is the null
  pointer).
\<close>

section \<open>OnlineAudioInput\<close>

record 'a audio_input =
  au_frame_size :: nat
  au_wave :: "'a list"

definition OnlineAudioInput_new :: "(nat \<Rightarrow> 'a list) \<Rightarrow> nat \<Rightarrow> 'a audio_input" where
  "OnlineAudioInput_new alloc n = \<lparr>au_frame_size = n, au_wave = alloc n\<rparr>"

definition AudioInput_Compute :: "('a list \<Rightarrow> ('s, nat \<times> 'a list) prog) \<Rightarrow> ('s \<Rightarrow> nat option)
    \<Rightarrow> ('a audio_input \<times> 's) feat_input" where
  "AudioInput_Compute read tmo out = (\<lambda>(st, s).
     case read (au_wave st) s of
       (Inl e, s') \<Rightarrow> (Inl e, st, s')
     | (Inr (n, data), s') \<Rightarrow>
         (Inr (n = au_frame_size st \<or> tmo s' = Some 0, out), st\<lparr>au_wave := data\<rparr>, s'))"

section \<open>OnlineFeInput\<close>

record 'a fe_input =
  fe_frame_size :: nat
  fe_frame_shift :: nat
  wave :: "'a list"
  wave_remainder :: "'a list"

definition OnlineFeInput_new :: "nat \<Rightarrow> nat \<Rightarrow> 'a fe_input" where
  "OnlineFeInput_new fsize fshift = \<lparr>fe_frame_size = fsize, fe_frame_shift = fshift, wave = [],
     wave_remainder = []\<rparr>"

text \<open>
  The sub-vector of the samples to read fails when the remainder is longer than the batch. When the
  extractor fails it has not written the remainder.
\<close>

definition FeInput_Compute :: "(nat \<Rightarrow> 'a list) \<Rightarrow> ('a list \<Rightarrow> ('s, nat \<times> 'a list) prog) \<Rightarrow> ('s \<Rightarrow> nat option)
    \<Rightarrow> ('a list \<Rightarrow> fault + matrix \<times> 'a list) \<Rightarrow> ('a fe_input \<times> 's) feat_input" where
  "FeInput_Compute alloc read tmo fe out = (\<lambda>(st, s).
     let nvec = length (rows out) in
     if nvec = 0 then (Inr (True, out), st, s)
     else if num_cols out \<noteq> 13 then (Inl KaldiError, st, s)
     else let total = fe_frame_size st + (nvec - 1) * fe_frame_shift st;
              w = (if total \<noteq> length (wave st) then alloc total else wave st);
              rem = wave_remainder st; samples_req = total - length rem in
       if total < length rem then (Inl OutOfBounds, st\<lparr>wave := w\<rparr>, s)
       else (case read (drop (length rem) w) s of
           (Inl e, s') \<Rightarrow> (Inl e, st\<lparr>wave := w\<rparr>, s')
         | (Inr (samples_rcv, data), s') \<Rightarrow>
             (case fe (take (samples_rcv + length rem) (rem @ data)) of
                Inl e \<Rightarrow> (Inl e, st\<lparr>wave := rem @ data\<rparr>, s')
              | Inr (output, rem') \<Rightarrow>
                  (Inr (samples_rcv = samples_req \<or> tmo s' = Some 0, output),
                    st\<lparr>wave := rem @ data, wave_remainder := rem'\<rparr>, s'))))"

section \<open>The frames of a signal\<close>

definition num_frames :: "nat \<Rightarrow> nat \<Rightarrow> nat \<Rightarrow> nat" where
  "num_frames fsize fshift len = (if len < fsize then 0 else 1 + (len - fsize) div fshift)"

definition frames :: "nat \<Rightarrow> nat \<Rightarrow> 'a list \<Rightarrow> 'a list list" where
  "frames fsize fshift x = map (\<lambda>k. take fsize (drop (k * fshift) x)) [0..<num_frames fsize fshift (length x)]"

definition unused :: "nat \<Rightarrow> nat \<Rightarrow> 'a list \<Rightarrow> 'a list" where
  "unused fsize fshift x = drop (num_frames fsize fshift (length x) * fshift) x"

text \<open>What the code relies on: the extractor turns every frame into a vector, by itself, and
  returns the samples from the start of the first frame that is not complete; it throws an exception
  when the samples do not fill one frame, as Kaldi documents for \<open>Mfcc::Compute\<close>.\<close>

definition extractor_ok :: "('a list \<Rightarrow> fault + matrix \<times> 'a list) \<Rightarrow> nat \<Rightarrow> nat \<Rightarrow> ('a list \<Rightarrow> vec) \<Rightarrow> bool" where
  "extractor_ok fe fsize fshift feat \<longleftrightarrow> (\<forall>x. if length x < fsize then fe x = Inl KaldiError
     else \<exists>m. fe x = Inr (m, unused fsize fshift x) \<and> rows m = map feat (frames fsize fshift x))"

lemma frames_end:
  assumes "0 < fshift" and "k < num_frames fsize fshift n"
  shows "k * fshift + fsize \<le> n"
proof -
  have "fsize \<le> n" "k \<le> (n - fsize) div fshift" using assms(2) by (auto simp: num_frames_def split: if_splits)
  then have "k * fshift \<le> n - fsize" using assms(1) by (simp add: less_eq_div_iff_mult_less_eq)
  with \<open>fsize \<le> n\<close> show ?thesis by simp
qed

lemma frames_cover:
  assumes "0 < fshift" and "fshift \<le> fsize"
  shows "num_frames fsize fshift n * fshift \<le> n" and "n < num_frames fsize fshift n * fshift + fsize"
proof -
  show "num_frames fsize fshift n * fshift \<le> n"
  proof (cases "num_frames fsize fshift n")
    case (Suc k)
    then show ?thesis using frames_end [of fshift k fsize n] assms by simp
  qed simp
  show "n < num_frames fsize fshift n * fshift + fsize"
  proof (cases "n < fsize")
    case False
    have "(n - fsize) mod fshift < fshift" using assms(1) by simp
    moreover have "(n - fsize) div fshift * fshift + (n - fsize) mod fshift = n - fsize"
      by (rule div_mult_mod_eq)
    ultimately have "n < fshift + (n - fsize) div fshift * fshift + fsize" using False by linarith
    then show ?thesis using False by (simp add: num_frames_def)
  qed simp
qed

lemma num_frames_drop:
  assumes "0 < fshift" and "k \<le> num_frames fsize fshift n" and "k * fshift \<le> n"
  shows "num_frames fsize fshift (n - k * fshift) = num_frames fsize fshift n - k"
proof (cases "n - k * fshift < fsize")
  case True
  have "num_frames fsize fshift n \<le> k"
    using frames_end [of fshift k fsize n] assms(1) True by (cases "k < num_frames fsize fshift n") simp_all
  with True assms(2) show ?thesis by (simp add: num_frames_def)
next
  case False
  then have le: "k * fshift \<le> n - fsize" and n: "\<not> n < fsize" using assms(3) by auto
  define m where "m = n - k * fshift - fsize"
  have "n - fsize = m + k * fshift" using le n False unfolding m_def by linarith
  then have "(n - fsize) div fshift = m div fshift + k" using assms(1) by simp
  with False n show ?thesis by (simp add: num_frames_def m_def)
qed

lemma frames_append:
  assumes "0 < fshift" and "fshift \<le> fsize"
  shows "frames fsize fshift (a @ b) = frames fsize fshift a @ frames fsize fshift (unused fsize fshift a @ b)"
    and "unused fsize fshift (a @ b) = unused fsize fshift (unused fsize fshift a @ b)"
proof -
  let ?n = "num_frames fsize fshift (length a)" and ?N = "num_frames fsize fshift (length (a @ b))"
  have le: "?n \<le> ?N" using assms(1) by (auto simp: num_frames_def intro!: div_le_mono)
  have cover: "?n * fshift \<le> length a" by (rule frames_cover(1) [OF assms])
  then have u: "unused fsize fshift a @ b = drop (?n * fshift) (a @ b)" by (simp add: unused_def)
  have N: "num_frames fsize fshift (length (unused fsize fshift a @ b)) = ?N - ?n"
    unfolding u using num_frames_drop [OF assms(1) le] cover by simp
  have 1: "take fsize (drop (k * fshift) (a @ b)) = take fsize (drop (k * fshift) a)" if "k < ?n" for k
    using frames_end [OF assms(1) that] by simp
  have 2: "take fsize (drop ((?n + k) * fshift) (a @ b))
      = take fsize (drop (k * fshift) (unused fsize fshift a @ b))" for k
    unfolding u by (simp add: algebra_simps del: drop_append)
  have "[0..<?N] = [0..<?n] @ map (\<lambda>k. ?n + k) [0..<?N - ?n]"
    using le upt_add_eq_append [of 0 ?n "?N - ?n"] map_add_upt [of ?n "?N - ?n"] by (simp add: add.commute)
  then show "frames fsize fshift (a @ b) = frames fsize fshift a @ frames fsize fshift (unused fsize fshift a @ b)"
    unfolding frames_def N using 1 2 by simp
  have "(?N - ?n) * fshift + ?n * fshift = ?N * fshift" using le by (simp add: add_mult_distrib [symmetric])
  then show "unused fsize fshift (a @ b) = unused fsize fshift (unused fsize fshift a @ b)"
    unfolding unused_def [of fsize fshift "unused fsize fshift a @ b"] N unfolding u
    by (simp add: unused_def del: drop_append)
qed

section \<open>The batches of OnlineFeInput do not show\<close>

definition fe_ready :: "nat \<Rightarrow> nat \<Rightarrow> 'a list \<Rightarrow> 'a fe_input \<Rightarrow> bool" where
  "fe_ready fsize fshift consumed st \<longleftrightarrow> fe_frame_size st = fsize \<and> fe_frame_shift st = fshift
     \<and> wave_remainder st = unused fsize fshift consumed"

text \<open>
  A source with timeouts: it delivers the next samples, and fewer than there are only when the
  timeout has expired, which sets the variable to 0.
\<close>

definition timed_source_ok :: "('a list \<Rightarrow> ('s, nat \<times> 'a list) prog) \<Rightarrow> ('s \<Rightarrow> nat option) \<Rightarrow> ('s \<Rightarrow> 'a list) \<Rightarrow> bool" where
  "timed_source_ok read tmo todo \<longleftrightarrow> (\<forall>s data. \<exists>k data' t. read data s = (Inr (k, data'), t)
     \<and> k \<le> min (length (todo s)) (length data) \<and> take k data' = take k (todo s) \<and> length data' = length data
     \<and> todo t = drop k (todo s) \<and> (k < min (length (todo s)) (length data) \<longrightarrow> tmo t = Some 0))"

lemma source_ok_timed: "source_ok read todo \<Longrightarrow> timed_source_ok read tmo todo"
  unfolding source_ok_def timed_source_ok_def Let_def by (meson order_refl less_irrefl)

definition fe_env_ok :: "('a list \<Rightarrow> ('s, nat \<times> 'a list) prog) \<Rightarrow> ('s \<Rightarrow> nat option) \<Rightarrow> ('s \<Rightarrow> 'a list)
    \<Rightarrow> (nat \<Rightarrow> 'a list) \<Rightarrow> ('a list \<Rightarrow> fault + matrix \<times> 'a list) \<Rightarrow> ('a list \<Rightarrow> vec) \<Rightarrow> nat \<Rightarrow> nat \<Rightarrow> bool" where
  "fe_env_ok read tmo todo alloc fe feat fsize fshift \<longleftrightarrow> timed_source_ok read tmo todo
     \<and> extractor_ok fe fsize fshift feat \<and> 0 < fshift \<and> fshift \<le> fsize \<and> (\<forall>n. length (alloc n) = n)"

lemma full_batch_frames:
  assumes "0 < fshift" and "0 < n"
  shows "num_frames fsize fshift (fsize + (n - 1) * fshift) = n"
  using assms by (simp add: num_frames_def)

lemma FeInput_Compute_step:
  assumes env: "fe_env_ok read tmo todo alloc fe feat fsize fshift" and ready: "fe_ready fsize fshift c st"
    and out: "rows out \<noteq> []" "num_cols out = 13"
  shows "\<exists>st' t k. todo t = drop k (todo s) \<and>
    (if length (unused fsize fshift c @ take k (todo s)) < fsize
     then FeInput_Compute alloc read tmo fe out (st, s) = (Inl KaldiError, st', t) \<and> (todo t = [] \<or> tmo t = Some 0)
     else \<exists>m. FeInput_Compute alloc read tmo fe out (st, s) = (Inr m, st', t)
       \<and> fe_ready fsize fshift (c @ take k (todo s)) st'
       \<and> rows (snd m) = map feat (frames fsize fshift (unused fsize fshift c @ take k (todo s)))
       \<and> (fst m \<or> todo t = [])
       \<and> (fst m \<and> tmo t \<noteq> Some 0 \<longrightarrow> length (rows (snd m)) = length (rows out)))"
proof -
  let ?n = "length (rows out)" and ?rem = "unused fsize fshift c"
  define total where "total = fsize + (?n - 1) * fshift"
  define w where "w = (if total \<noteq> length (wave st) then alloc total else wave st)"
  have env': "timed_source_ok read tmo todo" "extractor_ok fe fsize fshift feat" "0 < fshift" "fshift \<le> fsize"
    "\<And>n. length (alloc n) = n"
    using env by (simp_all add: fe_env_ok_def)
  have st: "fe_frame_size st = fsize" "fe_frame_shift st = fshift" "wave_remainder st = ?rem"
    using ready by (simp_all add: fe_ready_def)
  have "length ?rem < fsize"
    using frames_cover [OF env'(3,4), of "length c"] by (simp add: unused_def)
  then have rem: "length ?rem \<le> total" by (simp add: total_def)
  have lenw: "length w = total" by (simp add: w_def env'(5))
  define req where "req = total - length ?rem"
  have lend: "length (drop (length ?rem) w) = req" using lenw by (simp add: req_def)
  obtain k data t where r: "read (drop (length ?rem) w) s = (Inr (k, data), t)"
    "take k data = take k (todo s)" "length data = req" "todo t = drop k (todo s)"
    and k: "k \<le> min (length (todo s)) req" "k < min (length (todo s)) req \<longrightarrow> tmo t = Some 0"
    using env'(1) [unfolded timed_source_ok_def, THEN spec, of s, THEN spec, of "drop (length ?rem) w"]
    unfolding lend by blast
  let ?x = "?rem @ take k (todo s)"
  have ne: "?n \<noteq> 0" using out by simp
  have C: "FeInput_Compute alloc read tmo fe out (st, s) = (case fe ?x of
      Inl e \<Rightarrow> (Inl e, st\<lparr>wave := ?rem @ data\<rparr>, t)
    | Inr (output, rem') \<Rightarrow> (Inr (k = req \<or> tmo t = Some 0, output),
        st\<lparr>wave := ?rem @ data, wave_remainder := rem'\<rparr>, t))"
    using ne out rem r(1) unfolding FeInput_Compute_def Let_def prod.case st
      total_def [symmetric] w_def [symmetric] req_def [symmetric]
    by (simp add: r(2) not_less)
  have full: "length ?x = total" if "k = req"
    using that k(1) rem by (simp add: req_def)
  have ending: "todo t = []" if "k \<noteq> req" "tmo t \<noteq> Some 0"
    using k that r(4) by (auto simp: min_def split: if_splits)
  show ?thesis
  proof (cases "length ?x < fsize")
    case True
    then have "fe ?x = Inl KaldiError" using env'(2) by (simp add: extractor_ok_def)
    moreover have "k \<noteq> req" using True full by (auto simp: total_def)
    ultimately show ?thesis using C ending r(4) True
      by (intro exI [of _ "st\<lparr>wave := ?rem @ data\<rparr>"] exI [of _ t] exI [of _ k]) auto
  next
    case False
    then obtain m where m: "fe ?x = Inr (m, unused fsize fshift ?x)" "rows m = map feat (frames fsize fshift ?x)"
      using env'(2) [unfolded extractor_ok_def, THEN spec, of ?x] by (simp only: if_False) blast
    have rem': "unused fsize fshift ?x = unused fsize fshift (c @ take k (todo s))"
      using frames_append(2) [OF env'(3,4), of c] by simp
    have "length (rows m) = ?n" if "k = req"
      using full [OF that] m(2) full_batch_frames [OF env'(3), of ?n fsize] ne
      by (simp add: frames_def total_def)
    then show ?thesis using C m ending r(4) False st rem'
      by (intro exI [of _ "st\<lparr>wave := ?rem @ data, wave_remainder := unused fsize fshift ?x\<rparr>"] exI [of _ t] exI [of _ k])
        (auto simp: fe_ready_def)
  qed
qed

lemma FeInput_Compute_run:
  assumes env: "fe_env_ok read tmo todo alloc fe feat fsize fshift" "rows out \<noteq> []" "num_cols out = 13"
    and ready: "fe_ready fsize fshift c st"
  shows "\<exists>r st' t k. repeats (FeInput_Compute alloc read tmo fe out) n (st, s) = (r, st', t)
    \<and> todo t = drop k (todo s)
    \<and> (case r of
         Inl e \<Rightarrow> e = KaldiError \<and> (todo t = [] \<or> tmo t = Some 0)
       | Inr outs \<Rightarrow>
           map feat (frames fsize fshift c) @ all_rows outs = map feat (frames fsize fshift (c @ take k (todo s)))
           \<and> ((\<exists>m \<in> set outs. \<not> fst m) \<longrightarrow> todo t = [])
           \<and> ((\<forall>x. tmo x \<noteq> Some 0) \<longrightarrow> (\<forall>m \<in> set outs. fst m \<longrightarrow> length (rows (snd m)) = length (rows out))))"
  using ready
proof (induction n arbitrary: c st s)
  case 0
  show ?case by (intro exI [of _ "Inr []"] exI [of _ st] exI [of _ s] exI [of _ "0 :: nat"]) simp
next
  case (Suc n)
  let ?F = "FeInput_Compute alloc read tmo fe out"
  obtain st1 u k where u: "todo u = drop k (todo s)" and step:
    "if length (unused fsize fshift c @ take k (todo s)) < fsize
     then ?F (st, s) = (Inl KaldiError, st1, u) \<and> (todo u = [] \<or> tmo u = Some 0)
     else \<exists>m. ?F (st, s) = (Inr m, st1, u)
       \<and> fe_ready fsize fshift (c @ take k (todo s)) st1
       \<and> rows (snd m) = map feat (frames fsize fshift (unused fsize fshift c @ take k (todo s)))
       \<and> (fst m \<or> todo u = [])
       \<and> (fst m \<and> tmo u \<noteq> Some 0 \<longrightarrow> length (rows (snd m)) = length (rows out))"
    using FeInput_Compute_step [where alloc = alloc and read = read and out = out and s = s,
        OF env(1) Suc.prems env(2,3)] by blast
  show ?case
  proof (cases "length (unused fsize fshift c @ take k (todo s)) < fsize")
    case True
    then have "repeats ?F (Suc n) (st, s) = (Inl KaldiError, st1, u)" using step by (simp add: andthen_Inl)
    then show ?thesis using True step u
      by (intro exI [of _ "Inl KaldiError"] exI [of _ st1] exI [of _ u] exI [of _ k]) simp
  next
    case False
    then obtain m where m: "?F (st, s) = (Inr m, st1, u)" "fe_ready fsize fshift (c @ take k (todo s)) st1"
      "rows (snd m) = map feat (frames fsize fshift (unused fsize fshift c @ take k (todo s)))"
      "fst m \<or> todo u = []" "fst m \<and> tmo u \<noteq> Some 0 \<longrightarrow> length (rows (snd m)) = length (rows out)"
      using step unfolding if_not_P [OF False] by blast
    from Suc.IH [OF m(2), of u] obtain r st' t k' where o: "repeats ?F n (st1, u) = (r, st', t)"
      "todo t = drop k' (todo u)" and r: "case r of
         Inl e \<Rightarrow> e = KaldiError \<and> (todo t = [] \<or> tmo t = Some 0)
       | Inr outs \<Rightarrow>
           map feat (frames fsize fshift (c @ take k (todo s))) @ all_rows outs
             = map feat (frames fsize fshift ((c @ take k (todo s)) @ take k' (todo u)))
           \<and> ((\<exists>m \<in> set outs. \<not> fst m) \<longrightarrow> todo t = [])
           \<and> ((\<forall>x. tmo x \<noteq> Some 0) \<longrightarrow> (\<forall>m \<in> set outs. fst m \<longrightarrow> length (rows (snd m)) = length (rows out)))"
      by blast
    have todo: "todo t = drop (k + k') (todo s)" using o(2) u by (simp add: add.commute)
    have run: "repeats ?F (Suc n) (st, s) = (case r of Inl e \<Rightarrow> (Inl e, st', t) | Inr outs \<Rightarrow> (Inr (m # outs), st', t))"
      using m(1) o(1) by (cases r) (simp_all add: andthen_Inr andthen_Inl)
    show ?thesis
    proof (cases r)
      case (Inl e)
      then show ?thesis using run r todo
        by (intro exI [of _ r] exI [of _ st'] exI [of _ t] exI [of _ "k + k'"]) simp
    next
      case (Inr outs)
      have "0 < fshift" "fshift \<le> fsize" using env(1) by (simp_all add: fe_env_ok_def)
      note app = frames_append(1) [OF this, of c "take k (todo s)"]
      have "take k (todo s) @ take k' (todo u) = take (k + k') (todo s)" using u by (simp add: take_add)
      then have "map feat (frames fsize fshift c) @ all_rows (m # outs)
          = map feat (frames fsize fshift (c @ take (k + k') (todo s)))"
        using r Inr m(3) app by simp
      moreover have "(\<exists>m \<in> set (m # outs). \<not> fst m) \<longrightarrow> todo t = []" using m(4) o(2) r Inr by auto
      moreover have "(\<forall>x. tmo x \<noteq> Some 0) \<longrightarrow>
          (\<forall>m \<in> set (m # outs). fst m \<longrightarrow> length (rows (snd m)) = length (rows out))"
        using m(5) r Inr by simp
      ultimately show ?thesis using run todo Inr
        by (intro exI [of _ "Inr (m # outs)"] exI [of _ st'] exI [of _ t] exI [of _ "k + k'"])
          (simp only: sum.case simp_thms)
    qed
  qed
qed

text \<open>
  C22. The batches of \<open>OnlineFeInput\<close> do not show: however many calls are made and wherever
  timeouts expire, as long as the calls return, their features together are those of the
  frames of all the samples read, no frame across the boundary of two batches being lost or made
  twice; the answer that there is no more data is only given when the source is exhausted,
  and without timeouts a call that reports more data returns exactly the number of vectors
  requested. A call fails only by the exception of the extractor for less than one frame, and only
  when the source is exhausted or a timeout has expired in this call.
\<close>

theorem fe_input_frames_of_stream:
  assumes "fe_env_ok read tmo todo alloc fe feat fsize fshift" and "rows out \<noteq> []" and "num_cols out = 13"
  shows "\<exists>r st t k. repeats (FeInput_Compute alloc read tmo fe out) n (OnlineFeInput_new fsize fshift, s)
      = (r, st, t)
    \<and> todo t = drop k (todo s)
    \<and> (case r of
         Inl e \<Rightarrow> e = KaldiError \<and> (todo t = [] \<or> tmo t = Some 0)
       | Inr outs \<Rightarrow>
           all_rows outs = map feat (frames fsize fshift (take k (todo s)))
           \<and> ((\<exists>m \<in> set outs. \<not> fst m) \<longrightarrow> todo t = [])
           \<and> ((\<forall>x. tmo x \<noteq> Some 0) \<longrightarrow> (\<forall>m \<in> set outs. fst m \<longrightarrow> length (rows (snd m)) = length (rows out))))"
proof -
  have "0 < fsize" using assms(1) unfolding fe_env_ok_def by linarith
  then have "frames fsize fshift ([] :: 'a list) = []" by (simp add: frames_def num_frames_def)
  moreover have "fe_ready fsize fshift [] (OnlineFeInput_new fsize fshift)"
    by (simp add: fe_ready_def OnlineFeInput_new_def unused_def)
  ultimately show ?thesis
    using FeInput_Compute_run [OF assms, where c = "[]" and st = "OnlineFeInput_new fsize fshift" and n = n and s = s]
    by (simp only: list.map append_Nil) blast
qed

text \<open>
  Behind the end of the source every call fails: the end is reported as such only when it is met
  by a call that still gets a whole frame, so not when the stream ends with a full batch.
\<close>

theorem fe_input_end_throws:
  assumes "fe_env_ok read tmo todo alloc fe feat fsize fshift" and "rows out \<noteq> []" and "num_cols out = 13"
    and "fe_ready fsize fshift c st" and "todo s = []"
  shows "\<exists>st' t. FeInput_Compute alloc read tmo fe out (st, s) = (Inl KaldiError, st', t)"
proof -
  have "0 < fshift" "fshift \<le> fsize" using assms(1) by (simp_all add: fe_env_ok_def)
  then have "length (unused fsize fshift c) < fsize"
    using frames_cover [of fshift fsize "length c"] by (simp add: unused_def)
  then show ?thesis
    using FeInput_Compute_step [where alloc = alloc and read = read and out = out and s = s, OF assms(1,4,2,3)]
      assms(5) by auto
qed

section \<open>OnlineAudioInput delivers nothing\<close>

text \<open>
  \<open>OnlineAudioInput::Compute\<close> never writes its output, although it is to be filled with
  the samples: on every call the caller gets back the matrix it passed, while a frame of samples
  is taken from the source.
\<close>

theorem audio_input_loses_samples:
  assumes "source_ok read todo" and "length (au_wave st) = au_frame_size st"
  shows "\<exists>st' t. AudioInput_Compute read tmo out (st, s) =
      (Inr (au_frame_size st \<le> length (todo s) \<or> tmo t = Some 0, out), st', t)
    \<and> length (au_wave st') = au_frame_size st' \<and> todo t = drop (au_frame_size st) (todo s)"
proof -
  let ?k = "min (length (todo s)) (au_frame_size st)"
  obtain data t where r: "read (au_wave st) s = (Inr (?k, data), t)" "length data = au_frame_size st"
    "todo t = drop ?k (todo s)"
    using source_okE [OF assms(1), of "au_wave st" s] unfolding assms(2) by blast
  have "drop ?k (todo s) = drop (au_frame_size st) (todo s)" by (simp add: min_def)
  then show ?thesis using r by (auto simp: AudioInput_Compute_def min_def)
qed

section \<open>Witnesses\<close>

text \<open>A source of which a timeout of 5 milliseconds always expires after two samples.\<close>

definition slow_read :: "nat list \<Rightarrow> (nat list \<times> nat option, nat \<times> nat list) prog" where
  "slow_read data = (\<lambda>(xs, tm). let k = min 2 (min (length xs) (length data)) in
     (Inr (k, take k xs @ drop k data), drop k xs, if k < length data then Some 0 else Some 5))"

lemma slow_read_ok: "timed_source_ok slow_read snd fst"
  by (auto simp: timed_source_ok_def slow_read_def Let_def min_def)

definition two_samples :: "nat list \<Rightarrow> fault + matrix \<times> nat list" where
  "two_samples x = (if length x < 2 then Inl KaldiError
     else Inr (\<lparr>num_cols = 13, rows = map (\<lambda>w. map real w) (frames 2 1 x)\<rparr>, unused 2 1 x))"

lemma two_samples_ok: "fe_env_ok slow_read snd fst (\<lambda>n. replicate n 0) two_samples (\<lambda>w. map real w) 2 1"
  using slow_read_ok by (simp add: fe_env_ok_def extractor_ok_def two_samples_def)

theorem fe_input_frames_of_stream_witness:
  "\<exists>outs st t k. repeats (FeInput_Compute (\<lambda>n. replicate n 0) slow_read snd two_samples (zeros 2 13)) 2
      (OnlineFeInput_new 2 1, [1, 2, 3, 4], Some 5) = (Inr outs, st, t)
    \<and> all_rows outs = map (\<lambda>w. map real w) (frames 2 1 (take k [1, 2, 3, 4]))"
proof -
  let ?C = "repeats (FeInput_Compute (\<lambda>n. replicate n 0) slow_read snd two_samples (zeros 2 13)) 2
      (OnlineFeInput_new 2 1, [1, 2, 3, 4], Some 5)"
  have out: "rows (zeros 2 13) \<noteq> []" "num_cols (zeros 2 13) = 13" by (simp_all add: zeros_def)
  have live: "(case ?C of (r, x) \<Rightarrow> isl r) = False" by code_simp
  obtain r st t k where r: "?C = (r, st, t)" "case r of Inl e \<Rightarrow> True
      | Inr outs \<Rightarrow> all_rows outs = map (\<lambda>w. map real w) (frames 2 1 (take k [1, 2, 3, 4]))"
    using fe_input_frames_of_stream [OF two_samples_ok out, of 2 "([1, 2, 3, 4], Some 5)"]
    unfolding fst_conv by (elim exE conjE) (rule that, assumption, simp split: sum.splits)
  then obtain outs where "r = Inr outs" using live by (cases r) simp_all
  with r show ?thesis by auto
qed

theorem fe_input_end_throws_witness:
  "\<exists>st' t. FeInput_Compute (\<lambda>n. replicate n 0) slow_read snd two_samples (zeros 2 13)
      (OnlineFeInput_new 2 1, [], Some 5) = (Inl KaldiError, st', t)"
proof (rule fe_input_end_throws [OF two_samples_ok])
  show "fe_ready 2 1 [] (OnlineFeInput_new 2 1)" by (simp add: fe_ready_def OnlineFeInput_new_def unused_def)
qed (simp_all add: zeros_def)

theorem audio_input_loses_samples_witness:
  "\<exists>st' t. AudioInput_Compute (rd list_env) (\<lambda>s. None) no_rows (OnlineAudioInput_new (\<lambda>n. replicate n 0) 2, [1, 2, 3])
      = (Inr (True, no_rows), st', t) \<and> t = [3]"
  using audio_input_loses_samples [OF list_env_ok, of "OnlineAudioInput_new (\<lambda>n. replicate n 0) 2" "\<lambda>s. None" no_rows
      "[1, 2, 3]"]
  by (auto simp: OnlineAudioInput_new_def)

end
