(* ===== verification/PaSource.thy ===== *)
theory PaSource
  imports Prelude
begin

text \<open>
  \<open>OnlinePaSource\<close> (\<open>online-audio-source.cc\<close>): the microphone source, fed by PortAudio's callback
  through PortAudio's ring buffer while \<open>Read\<close> polls it. PortAudio is a parameter: its ring
  buffer is described by what its documentation promises (\<open>ring_ok\<close>), the interleaving of the
  callbacks with the polls of \<open>Read\<close> by a schedule.
\<close>

section \<open>The source\<close>

type_synonym pa_sample = "16 word"

record 'r ring =
  ReadAvailable :: "'r \<Rightarrow> nat"
  WriteAvailable :: "'r \<Rightarrow> nat"
  ReadRingBuffer :: "nat \<Rightarrow> 'r \<Rightarrow> pa_sample list \<times> 'r"
  WriteRingBuffer :: "pa_sample list \<Rightarrow> 'r \<Rightarrow> nat \<times> 'r"

record 'r pa_source =
  pa_started :: bool
  report_interval :: "32 word"
  nread_calls :: "32 word"
  noverflows :: "32 word"
  samples_lost :: "32 word"
  pa_ringbuf :: 'r

text \<open>What PortAudio's set-up calls answer.\<close>

record 'r portaudio =
  InitializeRingBuffer :: "nat \<Rightarrow> int \<times> 'r"
  Initialize_ok :: bool
  OpenDefaultStream_ok :: bool
  StartStream_ok :: bool

text \<open>The constructor, for a positive size: the buffer has \<open>rb_size_\<close> bytes, two for a sample.\<close>

definition ring_bits :: "nat \<Rightarrow> int" where
  "ring_bits rb_size = \<lceil>ln (real rb_size) / ln 2\<rceil>"

definition OnlinePaSource_new :: "'r portaudio \<Rightarrow> nat \<Rightarrow> 32 word \<Rightarrow> fault + 'r pa_source" where
  "OnlinePaSource_new pa rb_size report =
     (if 30 < ring_bits rb_size then Inl InvalidArgument
      else case InitializeRingBuffer pa (2 ^ nat (ring_bits rb_size) div 2) of (rbs, r) \<Rightarrow>
        if rbs \<noteq> 0 then Inl RuntimeError
        else if \<not> Initialize_ok pa then Inl RuntimeError
        else if \<not> OpenDefaultStream_ok pa then Inl RuntimeError
        else Inr \<lparr>pa_started = False, report_interval = report, nread_calls = 0, noverflows = 0,
          samples_lost = 0, pa_ringbuf = r\<rparr>)"

definition Callback :: "'r ring \<Rightarrow> pa_sample list \<Rightarrow> 'r pa_source \<Rightarrow> 'r pa_source" where
  "Callback R input p =
     (let p1 = (if report_interval p \<noteq> 0 \<and> WriteAvailable R (pa_ringbuf p) < length input
          then p\<lparr>noverflows := noverflows p + 1\<rparr> else p)
      in case WriteRingBuffer R input (pa_ringbuf p1) of (written, r) \<Rightarrow>
        p1\<lparr>samples_lost := samples_lost p1 + (word_of_nat (length input) - word_of_nat written), pa_ringbuf := r\<rparr>)"

text \<open>
  The waiting loop of \<open>Read\<close>. A step of the schedule is one poll: the milliseconds that the
  timer shows if it is asked, and the callbacks that arrive while the thread sleeps
  afterwards. The result is the number of samples to read, the new timeout and the state;
  \<^const>\<open>None\<close> if the schedule ends while it is still waiting.
\<close>

type_synonym schedule = "(nat \<times> pa_sample list list) list"

fun pa_wait :: "'r ring \<Rightarrow> nat option \<Rightarrow> nat \<Rightarrow> schedule \<Rightarrow> 'r pa_source \<Rightarrow> (nat \<times> nat option \<times> 'r pa_source) option" where
  "pa_wait R timeout req [] p = None"
| "pa_wait R timeout req ((elapsed, inputs) # sched) p =
     (let nsamples = ReadAvailable R (pa_ringbuf p) in
      if req \<le> nsamples then Some (req, timeout, p)
      else case timeout of
        Some ms \<Rightarrow>
          if ms < elapsed then Some (nsamples, Some 0, p)
          else pa_wait R timeout req sched (foldl (\<lambda>p x. Callback R x p) p inputs)
      | None \<Rightarrow> pa_wait R timeout req sched (foldl (\<lambda>p x. Callback R x p) p inputs))"

definition pa_report :: "'r pa_source \<Rightarrow> 'r pa_source" where
  "pa_report p =
     (if report_interval p = 0 then p
      else let p1 = p\<lparr>nread_calls := nread_calls p + 1\<rparr> in
        if nread_calls p1 mod report_interval p1 = 0 \<and> 0 < noverflows p1
        then p1\<lparr>samples_lost := 0, noverflows := 0\<rparr> else p1)"

definition pa_value :: "pa_sample \<Rightarrow> real" where
  "pa_value x = real_of_int (sint x)"

text \<open>\<open>Read\<close> into a vector: the number of samples, the vector, and the timeout.\<close>

definition PaRead :: "'r ring \<Rightarrow> 'r portaudio \<Rightarrow> schedule \<Rightarrow> real list \<Rightarrow> nat option \<Rightarrow> 'r pa_source
    \<Rightarrow> ((fault + nat \<times> real list \<times> nat option) \<times> 'r pa_source) option" where
  "PaRead R pa sched data timeout p =
     (if \<not> pa_started p \<and> \<not> StartStream_ok pa then Some (Inl RuntimeError, p)
      else case pa_wait R timeout (length data) sched (pa_report (p\<lparr>pa_started := True\<rparr>)) of
        None \<Rightarrow> None
      | Some (req, timeout', p') \<Rightarrow>
          (case ReadRingBuffer R req (pa_ringbuf p') of (buf, r) \<Rightarrow>
            Some (Inr (length buf, map pa_value buf @ drop (length buf) data, timeout'),
              p'\<lparr>pa_ringbuf := r\<rparr>)))"

text \<open>
  The destructor, as the series of its calls: it depends on whether \<open>Read\<close> has started the
  stream, and on the two pointers, which are not null behind the constructor. The stream, whose
  callback writes into the ring buffer, is closed before the buffer is freed, and a stream that
  has been started is stopped first.
\<close>

datatype pa_call = StopStream | CloseStream | Terminate | FreeRingBuffer

definition OnlinePaSource_delete :: "bool \<Rightarrow> bool \<Rightarrow> 'r pa_source \<Rightarrow> pa_call list" where
  "OnlinePaSource_delete pa_stream ring_buffer p =
     (if pa_started p then [StopStream] else [])
     @ (if pa_stream then [CloseStream, Terminate] else [])
     @ (if ring_buffer then [FreeRingBuffer] else [])"

lemma freed_after_read:
  assumes "PaRead R pa sched data timeout p = Some (Inr x, p')"
  shows "OnlinePaSource_delete True True p' = [StopStream, CloseStream, Terminate, FreeRingBuffer]"
proof -
  have callbacks: "pa_started (foldl (\<lambda>p x. Callback R x p) p xs) = pa_started p" for R :: "'a ring" and xs p
    by (induction xs arbitrary: p) (simp_all add: Callback_def Let_def split_def)
  have wait: "pa_wait R tm req sched p = Some (r, tm', q) \<Longrightarrow> pa_started q = pa_started p"
    for R :: "'a ring" and tm req sched r tm' p q
    by (induction R tm req sched p rule: pa_wait.induct)
      (auto simp: Let_def callbacks split: if_splits option.splits)
  have "pa_started (pa_report (p\<lparr>pa_started := True\<rparr>))" by (simp add: pa_report_def Let_def)
  then have "pa_started p'"
    using assms by (auto simp: PaRead_def split: if_splits option.splits prod.splits dest!: wait)
  then show ?thesis by (simp add: OnlinePaSource_delete_def)
qed

section \<open>What PortAudio promises\<close>

text \<open>A queue of at most \<open>cap\<close> samples.\<close>

definition ring_ok :: "'r ring \<Rightarrow> ('r \<Rightarrow> pa_sample list) \<Rightarrow> nat \<Rightarrow> bool" where
  "ring_ok R queue cap \<longleftrightarrow>
     (\<forall>r. length (queue r) \<le> cap \<and> ReadAvailable R r = length (queue r)
       \<and> WriteAvailable R r = cap - length (queue r)) \<and>
     (\<forall>r n buf r'. ReadRingBuffer R n r = (buf, r') \<longrightarrow> buf = take n (queue r) \<and> queue r' = drop n (queue r)) \<and>
     (\<forall>r xs k r'. WriteRingBuffer R xs r = (k, r') \<longrightarrow>
       k = min (length xs) (cap - length (queue r)) \<and> queue r' = queue r @ take k xs)"

definition held :: "('r \<Rightarrow> pa_sample list) \<Rightarrow> 'r pa_source \<Rightarrow> pa_sample list" where
  "held queue p = queue (pa_ringbuf p)"

lemma Callback_queue:
  assumes "ring_ok R queue cap"
  shows "\<exists>k. k \<le> length x \<and> held queue (Callback R x p) = held queue p @ take k x
    \<and> samples_lost (Callback R x p) = samples_lost p + word_of_nat (length x - k)
    \<and> k = min (length x) (cap - length (held queue p))
    \<and> report_interval (Callback R x p) = report_interval p \<and> length (held queue (Callback R x p)) \<le> cap"
proof -
  obtain k r where w: "WriteRingBuffer R x (pa_ringbuf p) = (k, r)" by fastforce
  have k: "k = min (length x) (cap - length (held queue p))" and q: "queue r = held queue p @ take k x"
    using assms w unfolding ring_ok_def held_def by blast+
  have le: "k \<le> length x" using k by simp
  have "held queue (Callback R x p) = queue r" using w by (simp add: Callback_def held_def Let_def)
  moreover have "samples_lost (Callback R x p) = samples_lost p + word_of_nat (length x - k)"
    using w le by (simp add: Callback_def Let_def of_nat_diff)
  moreover have "report_interval (Callback R x p) = report_interval p"
    using w by (simp add: Callback_def Let_def)
  moreover have "length (queue r) \<le> cap" using assms unfolding ring_ok_def by blast
  ultimately show ?thesis using k q le by (intro exI [of _ k]) auto
qed

section \<open>The source is a queue that loses what does not fit\<close>

text \<open>The callbacks that a waiting loop lives through.\<close>

fun pa_seen :: "'r ring \<Rightarrow> nat option \<Rightarrow> nat \<Rightarrow> schedule \<Rightarrow> 'r pa_source \<Rightarrow> pa_sample list list" where
  "pa_seen R timeout req [] p = []"
| "pa_seen R timeout req ((elapsed, inputs) # sched) p =
     (if req \<le> ReadAvailable R (pa_ringbuf p) \<or> (\<exists>ms. timeout = Some ms \<and> ms < elapsed) then []
      else inputs @ pa_seen R timeout req sched (foldl (\<lambda>p x. Callback R x p) p inputs))"

text \<open>
  A queue of at most \<open>cap\<close> samples by itself: what is offered is appended as far as it fits, and
  what is taken is taken from the front. The result is what was taken, the number of samples
  that did not fit, and the queue.
\<close>

datatype queue_op = Offered "pa_sample list" | Taken nat

fun bounded :: "nat \<Rightarrow> pa_sample list \<Rightarrow> queue_op list \<Rightarrow> pa_sample list list \<times> nat \<times> pa_sample list" where
  "bounded cap b [] = ([], 0, b)"
| "bounded cap b (Offered x # ops) = (let room = cap - length b in
     case bounded cap (b @ take room x) ops of (takes, lost, b') \<Rightarrow> (takes, lost + (length x - room), b'))"
| "bounded cap b (Taken n # ops) =
     (case bounded cap (drop n b) ops of (takes, lost, b') \<Rightarrow> (take n b # takes, lost, b'))"

lemma bounded_append:
  "bounded cap b xs = (takes, n, b') \<Longrightarrow> bounded cap b' ys = (takes', n', b'') \<Longrightarrow>
     bounded cap b (xs @ ys) = (takes @ takes', n + n', b'')"
  by (induction cap b xs arbitrary: takes n rule: bounded.induct) (auto simp: Let_def split: prod.splits)

text \<open>The source goes from \<open>p\<close> to \<open>q\<close> as this queue does.\<close>

definition queued :: "nat \<Rightarrow> ('r \<Rightarrow> pa_sample list) \<Rightarrow> queue_op list \<Rightarrow> 'r pa_source \<Rightarrow> 'r pa_source
    \<Rightarrow> pa_sample list list \<Rightarrow> bool" where
  "queued cap queue ops p q takes \<longleftrightarrow> (\<exists>n. bounded cap (held queue p) ops = (takes, n, held queue q)
     \<and> (report_interval p = 0 \<longrightarrow> samples_lost q = samples_lost p + word_of_nat n)
     \<and> report_interval q = report_interval p)"

lemma queued_append:
  assumes "queued cap queue xs p q takes" and "queued cap queue ys q r takes'"
  shows "queued cap queue (xs @ ys) p r (takes @ takes')"
proof -
  obtain n where n: "bounded cap (held queue p) xs = (takes, n, held queue q)"
    "report_interval p = 0 \<longrightarrow> samples_lost q = samples_lost p + word_of_nat n" "report_interval q = report_interval p"
    using assms(1) unfolding queued_def by blast
  obtain m where m: "bounded cap (held queue q) ys = (takes', m, held queue r)"
    "report_interval q = 0 \<longrightarrow> samples_lost r = samples_lost q + word_of_nat m" "report_interval r = report_interval q"
    using assms(2) unfolding queued_def by blast
  show ?thesis unfolding queued_def using n(2,3) m(2,3)
    by (intro exI [of _ "n + m"] conjI bounded_append [OF n(1) m(1)]) simp_all
qed

lemma queued_Nil: "held queue q = held queue p \<Longrightarrow> report_interval q = report_interval p \<Longrightarrow>
    (report_interval p = 0 \<Longrightarrow> samples_lost q = samples_lost p) \<Longrightarrow> queued cap queue [] p q []"
  by (simp add: queued_def)

lemma Callback_queued:
  assumes "ring_ok R queue cap"
  shows "queued cap queue [Offered x] p (Callback R x p) []"
proof -
  obtain k where "held queue (Callback R x p) = held queue p @ take k x"
    "samples_lost (Callback R x p) = samples_lost p + word_of_nat (length x - k)"
    "k = min (length x) (cap - length (held queue p))" "report_interval (Callback R x p) = report_interval p"
    using Callback_queue [OF assms, of x p] by blast
  moreover have "take (min (length x) n) x = take n x" "length x - min (length x) n = length x - n" for n
    by (auto simp: min_def)
  ultimately show ?thesis by (simp add: queued_def Let_def)
qed

lemma Callbacks_queued:
  assumes "ring_ok R queue cap"
  shows "queued cap queue (map Offered xss) p (foldl (\<lambda>p x. Callback R x p) p xss) []"
proof (induction xss arbitrary: p)
  case (Cons x xss)
  from queued_append [OF Callback_queued [OF assms] Cons] show ?case by simp
qed (simp add: queued_Nil)

lemma pa_wait_queued:
  assumes "ring_ok R queue cap"
  shows "pa_wait R timeout req sched p = Some (n, timeout', p') \<Longrightarrow>
    queued cap queue (map Offered (pa_seen R timeout req sched p)) p p' [] \<and> n \<le> length (held queue p')
    \<and> (if n = req then True else n < req \<and> timeout \<noteq> None \<and> timeout' = Some 0)
    \<and> (timeout = None \<longrightarrow> timeout' = None)"
proof (induction sched arbitrary: p)
  case (Cons step sched)
  obtain elapsed inputs where step: "step = (elapsed, inputs)" by fastforce
  have avail: "ReadAvailable R (pa_ringbuf p) = length (held queue p)"
    using assms by (simp add: held_def ring_ok_def)
  let ?p = "foldl (\<lambda>p x. Callback R x p) p inputs"
  show ?case
  proof (cases "req \<le> ReadAvailable R (pa_ringbuf p) \<or> (\<exists>ms. timeout = Some ms \<and> ms < elapsed)")
    case True
    then show ?thesis using Cons.prems avail
      by (auto simp: step Let_def queued_Nil split: if_splits)
  next
    case False
    then have "pa_wait R timeout req sched ?p = Some (n, timeout', p')"
      using Cons.prems by (auto simp: step Let_def split: option.splits if_splits)
    from Cons.IH [OF this] show ?thesis
      using False queued_append [OF Callbacks_queued [OF assms, of inputs p]] by (auto simp: step)
  qed
qed simp

text \<open>A run: callbacks between the calls, and calls of \<open>Read\<close> with the callbacks during them. The
  result is what was read, all that was offered and taken in its order, and the state.\<close>

datatype pa_event = Arrives "pa_sample list" | Reads schedule "real list" "nat option"

fun pa_run :: "'r ring \<Rightarrow> 'r portaudio \<Rightarrow> pa_event list \<Rightarrow> 'r pa_source
    \<Rightarrow> (real list list \<times> queue_op list \<times> 'r pa_source) option" where
  "pa_run R pa [] p = Some ([], [], p)"
| "pa_run R pa (Arrives x # es) p =
     map_option (\<lambda>(outs, ops, q). (outs, Offered x # ops, q)) (pa_run R pa es (Callback R x p))"
| "pa_run R pa (Reads sched data timeout # es) p =
     (case PaRead R pa sched data timeout p of
        Some (Inr (n, data', _), q) \<Rightarrow>
          map_option (\<lambda>(outs, ops, r). (take n data' # outs,
            map Offered (pa_seen R timeout (length data) sched (pa_report (p\<lparr>pa_started := True\<rparr>))) @ Taken n # ops, r))
            (pa_run R pa es q)
      | _ \<Rightarrow> None)"

lemma pa_report_held [simp]:
  "held queue (pa_report (p\<lparr>pa_started := b\<rparr>)) = held queue p"
  "report_interval (pa_report (p\<lparr>pa_started := b\<rparr>)) = report_interval p"
  "report_interval p = 0 \<Longrightarrow> samples_lost (pa_report (p\<lparr>pa_started := b\<rparr>)) = samples_lost p"
  by (simp_all add: pa_report_def held_def Let_def)

lemma PaRead_queued:
  assumes ring: "ring_ok R queue cap" and r: "PaRead R pa sched data timeout p = Some (Inr (n, data', timeout'), p')"
  shows "\<exists>buf. queued cap queue (map Offered (pa_seen R timeout (length data) sched
        (pa_report (p\<lparr>pa_started := True\<rparr>))) @ [Taken n]) p p' [buf]
      \<and> take n data' = map pa_value buf"
    and "n \<le> length data" and "n < length data \<longrightarrow> timeout \<noteq> None \<and> timeout' = Some 0"
proof -
  let ?p = "pa_report (p\<lparr>pa_started := True\<rparr>)"
  have "pa_wait R timeout (length data) sched ?p \<noteq> None"
    by (rule notI) (use r in \<open>simp add: PaRead_def split: if_splits\<close>)
  then obtain m t1 q where w0: "pa_wait R timeout (length data) sched ?p = Some (m, t1, q)" by auto
  obtain buf r' where b: "ReadRingBuffer R m (pa_ringbuf q) = (buf, r')" by fastforce
  have eq: "n = length buf" "data' = map pa_value buf @ drop (length buf) data" "t1 = timeout'"
    "p' = q\<lparr>pa_ringbuf := r'\<rparr>"
    using r w0 b by (auto simp: PaRead_def split: if_splits)
  have buf: "buf = take m (held queue q)" "queue r' = drop m (held queue q)"
    using ring b unfolding ring_ok_def held_def by blast+
  note W = pa_wait_queued [OF ring w0 [unfolded eq(3)]]
  have m: "m \<le> length (held queue q)" "m \<le> length data" using W by (auto split: if_splits)
  have n: "n = m" using eq(1) buf(1) m(1) by simp
  have start: "queued cap queue [] p ?p []" by (rule queued_Nil) simp_all
  have "queued cap queue [Taken n] q p' [buf]"
    using eq(4) buf n by (simp add: queued_def held_def)
  with queued_append [OF queued_append [OF start conjunct1 [OF W]] this] eq(1,2)
  show "\<exists>buf. queued cap queue (map Offered (pa_seen R timeout (length data) sched ?p) @ [Taken n]) p p' [buf]
      \<and> take n data' = map pa_value buf" by auto
  show "n \<le> length data" using n m(2) by simp
  show "n < length data \<longrightarrow> timeout \<noteq> None \<and> timeout' = Some 0"
    using W n by (auto split: if_splits)
qed

lemma pa_run_queued:
  assumes ring: "ring_ok R queue cap"
  shows "pa_run R pa es p = Some (outs, ops, q) \<Longrightarrow>
    \<exists>takes. queued cap queue ops p q takes \<and> outs = map (map pa_value) takes"
proof (induction es arbitrary: p outs ops)
  case Nil
  then show ?case by (auto intro: queued_Nil)
next
  case (Cons e es)
  show ?case
  proof (cases e)
    case (Arrives x)
    then obtain ops' where r: "pa_run R pa es (Callback R x p) = Some (outs, ops', q)" "ops = Offered x # ops'"
      using Cons.prems by auto
    from Cons.IH [OF r(1)] queued_append [OF Callback_queued [OF ring, of x p]] r(2) show ?thesis by fastforce
  next
    case (Reads sched data timeout)
    let ?seen = "pa_seen R timeout (length data) sched (pa_report (p\<lparr>pa_started := True\<rparr>))"
    obtain n data' t u where r: "PaRead R pa sched data timeout p = Some (Inr (n, data', t), u)"
      using Cons.prems Reads by (auto split: option.splits sum.splits prod.splits)
    with Cons.prems Reads obtain outs' ops' where run: "pa_run R pa es u = Some (outs', ops', q)"
      "outs = take n data' # outs'" "ops = (map Offered ?seen @ [Taken n]) @ ops'" by auto
    obtain buf where buf: "queued cap queue (map Offered ?seen @ [Taken n]) p u [buf]" "take n data' = map pa_value buf"
      using PaRead_queued(1) [OF ring r] by blast
    obtain takes where "queued cap queue ops' u q takes" "outs' = map (map pa_value) takes"
      using Cons.IH [OF run(1)] by blast
    then show ?thesis using queued_append [OF buf(1)] buf(2) run(2,3)
      by (intro exI [of _ "buf # takes"]) auto
  qed
qed

text \<open>
  C29. \<open>OnlinePaSource\<close> is a lossy queue of \<open>cap\<close> samples: whatever the interleaving of the callbacks
  with the reads, the reads return, and the ring buffer holds in the end, what a queue of this
  capacity gives that is offered the blocks of the callbacks and from which the samples are
  taken in the same order, each block being kept as far as there is room. When reports are
  switched off (\<open>report_interval_\<close> is 0), \<open>samples_lost_\<close> counts the samples without room, up to
  its wrap-around.
\<close>

theorem pa_source_is_lossy_queue:
  assumes "ring_ok R queue cap" and "pa_run R pa es p = Some (outs, ops, q)"
  shows "case bounded cap (held queue p) ops of (takes, lost, rest) \<Rightarrow>
    outs = map (map pa_value) takes \<and> held queue q = rest
    \<and> (if report_interval p = 0 then samples_lost q = samples_lost p + word_of_nat lost else True)"
proof -
  obtain takes where "queued cap queue ops p q takes" "outs = map (map pa_value) takes"
    using pa_run_queued [OF assms] by blast
  then show ?thesis by (auto simp: queued_def)
qed

section \<open>When Read returns\<close>

lemma Callbacks_length:
  assumes "ring_ok R queue cap"
  shows "length (held queue (foldl (\<lambda>p x. Callback R x p) p xss)) = min cap (length (held queue p) + length (concat xss))"
proof (induction xss arbitrary: p)
  case Nil
  have "length (held queue p) \<le> cap" using assms by (simp add: ring_ok_def held_def)
  then show ?case by simp
next
  case (Cons x xss)
  have "length (held queue p) \<le> cap" using assms by (simp add: ring_ok_def held_def)
  moreover obtain k where "held queue (Callback R x p) = held queue p @ take k x"
    "k = min (length x) (cap - length (held queue p))"
    using Callback_queue [OF assms, of x p] by blast
  ultimately show ?case using Cons.IH [of "Callback R x p"] by auto
qed

lemma pa_wait_returns:
  assumes ring: "ring_ok R queue cap"
  shows "pa_wait R None req sched p \<noteq> None \<longleftrightarrow> (\<exists>k < length sched.
    req \<le> min cap (length (held queue p) + length (concat (concat (map snd (take k sched))))))"
proof (induction sched arbitrary: p)
  case (Cons step sched)
  obtain elapsed inputs where step: "step = (elapsed, inputs)" by fastforce
  let ?p = "foldl (\<lambda>p x. Callback R x p) p inputs"
  have avail: "ReadAvailable R (pa_ringbuf p) = length (held queue p)" "length (held queue p) \<le> cap"
    using ring by (simp_all add: held_def ring_ok_def)
  have len: "min cap (length (held queue ?p) + n) = min cap (length (held queue p) + (length (concat inputs) + n))"
    for n using Callbacks_length [OF ring, of p inputs] by simp
  have ex: "(\<exists>k < Suc m. P k) \<longleftrightarrow> P 0 \<or> (\<exists>k < m. P (Suc k))" for P :: "nat \<Rightarrow> bool" and m
    by (auto simp: less_Suc_eq_0_disj)
  show ?case
    using Cons.IH [of ?p] avail by (simp add: step ex Let_def len)
qed simp

text \<open>
  C32. Without a timeout \<open>Read\<close> returns at the first poll at which as many samples have arrived as
  were requested, and it returns all of them; so it returns when enough samples arrive, and
  never, whatever arrives, when more are requested than the ring buffer holds.
\<close>

theorem pa_read_returns:
  assumes "ring_ok R queue cap" and "StartStream_ok pa"
  shows "(PaRead R pa sched data None p \<noteq> None \<longleftrightarrow> (\<exists>k < length sched.
      length data \<le> min cap (length (held queue p) + length (concat (concat (map snd (take k sched)))))))
    \<and> (\<forall>r q. PaRead R pa sched data None p = Some (r, q) \<longrightarrow> (\<exists>data'. r = Inr (length data, data', None)))"
proof
  let ?p = "pa_report (p\<lparr>pa_started := True\<rparr>)"
  have eq: "PaRead R pa sched data None p \<noteq> None \<longleftrightarrow> pa_wait R None (length data) sched ?p \<noteq> None"
    using assms(2) by (auto simp: PaRead_def split: option.splits prod.splits)
  show "PaRead R pa sched data None p \<noteq> None \<longleftrightarrow> (\<exists>k < length sched.
      length data \<le> min cap (length (held queue p) + length (concat (concat (map snd (take k sched))))))"
    unfolding eq pa_wait_returns [OF assms(1)] by simp
  show "\<forall>r q. PaRead R pa sched data None p = Some (r, q) \<longrightarrow> (\<exists>data'. r = Inr (length data, data', None))"
  proof (intro allI impI)
    fix r q
    assume r: "PaRead R pa sched data None p = Some (r, q)"
    then obtain n data' t where x: "r = Inr (n, data', t)" 
      using assms(2) by (auto simp: PaRead_def split: option.splits prod.splits)
    have "n = length data" using PaRead_queued(2,3) [OF assms(1) r [unfolded x]] by auto
    moreover have "t = None" using r x pa_wait_queued [OF assms(1)] assms(2)
      by (auto simp: PaRead_def split: option.splits prod.splits)
    ultimately show "\<exists>data'. r = Inr (length data, data', None)" using x by blast
  qed
qed

section \<open>The size of the ring buffer\<close>

text \<open>The requested size is rounded up to a power of two, as the header says.\<close>

lemma ring_bits_bounds:
  assumes "0 < n"
  shows "0 \<le> ring_bits n" "n \<le> 2 ^ nat (ring_bits n)" "2 ^ nat (ring_bits n) < 2 * n"
proof -
  have log: "ring_bits n = \<lceil>log 2 (real n)\<rceil>" by (simp add: ring_bits_def log_def)
  have "0 \<le> log 2 (real n)" using assms by simp
  then show nonneg: "0 \<le> ring_bits n" using log by linarith
  then have bits: "real (nat (ring_bits n)) = real_of_int \<lceil>log 2 (real n)\<rceil>" by (simp add: log)
  have "real n = 2 powr log 2 (real n)" using assms by simp
  also have "\<dots> \<le> 2 powr real (nat (ring_bits n))" unfolding bits by (simp add: le_of_int_ceiling)
  also have "\<dots> = real (2 ^ nat (ring_bits n))" by (simp add: powr_realpow)
  finally show "n \<le> 2 ^ nat (ring_bits n)" by linarith
  have "real (nat (ring_bits n)) < log 2 (real n) + 1" unfolding bits by linarith
  then have "2 powr real (nat (ring_bits n)) < 2 powr (log 2 (real n) + 1)" by simp
  also have "\<dots> = 2 * real n" using assms by (simp add: powr_add)
  also have "2 powr real (nat (ring_bits n)) = real (2 ^ nat (ring_bits n))" by (simp add: powr_realpow)
  finally show "2 ^ nat (ring_bits n) < 2 * n" by linarith
qed

section \<open>Witnesses\<close>

text \<open>A ring buffer for four samples.\<close>

definition four_ring :: "pa_sample list ring" where
  "four_ring = \<lparr>ReadAvailable = (\<lambda>r. length (take 4 r)), WriteAvailable = (\<lambda>r. 4 - length (take 4 r)),
     ReadRingBuffer = (\<lambda>n r. (take n (take 4 r), drop n (take 4 r))),
     WriteRingBuffer = (\<lambda>xs r. let k = min (length xs) (4 - length (take 4 r)) in (k, take 4 r @ take k xs))\<rparr>"

definition four_pa :: "pa_sample list portaudio" where
  "four_pa = \<lparr>InitializeRingBuffer = (\<lambda>n. (0, [])), Initialize_ok = True, OpenDefaultStream_ok = True,
     StartStream_ok = True\<rparr>"

definition four_source :: "pa_sample list pa_source" where
  "four_source = \<lparr>pa_started = False, report_interval = 0, nread_calls = 0, noverflows = 0, samples_lost = 0,
     pa_ringbuf = []\<rparr>"

lemma four_ring_ok: "ring_ok four_ring (take 4) 4"
  by (auto simp: ring_ok_def four_ring_def Let_def min_def)

text \<open>Of the block [4, 5, 6] the last two samples are lost.\<close>

theorem pa_source_is_lossy_queue_witness:
  "\<exists>q. pa_run four_ring four_pa [Arrives [1, 2, 3], Reads [(0, [[4, 5, 6]]), (0, [])] [0, 0, 0, 0] None, Arrives [7]]
      four_source = Some ([[1, 2, 3, 4]], [Offered [1, 2, 3], Offered [4, 5, 6], Taken 4, Offered [7]], q)
    \<and> held (take 4) q = [7] \<and> samples_lost q = 2"
proof -
  obtain q where r: "pa_run four_ring four_pa [Arrives [1, 2, 3], Reads [(0, [[4, 5, 6]]), (0, [])] [0, 0, 0, 0] None,
      Arrives [7]] four_source = Some ([[1, 2, 3, 4]], [Offered [1, 2, 3], Offered [4, 5, 6], Taken 4, Offered [7]], q)"
    by (simp add: four_ring_def four_pa_def four_source_def PaRead_def pa_report_def Callback_def pa_value_def Let_def)
  have empty: "held (take 4) four_source = []" "report_interval four_source = 0" "samples_lost four_source = 0"
    by (simp_all add: four_source_def held_def)
  from pa_source_is_lossy_queue [OF four_ring_ok r, unfolded empty] r show ?thesis by (simp add: Let_def)
qed

theorem pa_read_returns_witness:
  "PaRead four_ring four_pa [(0, [[1, 2, 3]]), (2, [[4, 5]]), (4, [[6]])] [0, 0, 0, 0, 0] None four_source = None"
proof -
  have "StartStream_ok four_pa" by (simp add: four_pa_def)
  note ret = conjunct1 [OF pa_read_returns [OF four_ring_ok this]]
  show ?thesis by (rule ccontr) (unfold ret, simp)
qed

end
