(* ===== verification/Results.thy ===== *)
theory Results
  imports Streaming
begin

text \<open>
  How recognition results reach the client: the texts (\<open>SymbolsToWords\<close> and \<open>GetPartialResult\<close>
  in \<open>DecodeWorker.cc\<close>, \<open>PrintPartialResult\<close> in \<open>onlinebin-util.cc\<close>) and \<open>SendOutput\<close>. The symbol
  table is OpenFst's: a function from numbers to words, the empty word for a number that it
  does not have; the pointer to it may be \<open>NULL\<close> (\<^const>\<open>None\<close>).
\<close>

type_synonym symbol_table = "(int \<Rightarrow> string) option"

section \<open>The text of a result\<close>

fun SymbolsToWords :: "int list \<Rightarrow> symbol_table \<Rightarrow> fault + string" where
  "SymbolsToWords [] table = Inr []"
| "SymbolsToWords (s # ss) table =
     (case table of
        None \<Rightarrow> Inl NullDeref
      | Some Find \<Rightarrow>
          if Find s = [] then Inl AssertFailed
          else map_sum (\<lambda>e. e) (\<lambda>words. Find s @ '' '' @ words) (SymbolsToWords ss table))"

fun partial_result :: "int list \<Rightarrow> (int \<Rightarrow> string) \<Rightarrow> fault + string" where
  "partial_result [] Find = Inr []"
| "partial_result (w # ws) Find =
     (if Find w = [] then Inl KaldiError
      else map_sum (\<lambda>e. e) (\<lambda>result. Find w @ '' '' @ result) (partial_result ws Find))"

definition GetPartialResult :: "int list \<Rightarrow> symbol_table \<Rightarrow> fault + string" where
  "GetPartialResult ws table = (case table of None \<Rightarrow> Inl KaldiError | Some Find \<Rightarrow> partial_result ws Find)"

text \<open>\<open>PrintPartialResult\<close>: what it has printed when it returns or fails.\<close>

fun print_words :: "int list \<Rightarrow> (int \<Rightarrow> string) \<Rightarrow> string \<times> fault option" where
  "print_words [] Find = ([], None)"
| "print_words (w # ws) Find =
     (if Find w = [] then ([], Some KaldiError)
      else case print_words ws Find of (out, e) \<Rightarrow> (Find w @ '' '' @ out, e))"

definition PrintPartialResult :: "int list \<Rightarrow> symbol_table \<Rightarrow> bool \<Rightarrow> string \<times> fault option" where
  "PrintPartialResult ws table line_break =
     (case table of
        None \<Rightarrow> ([], Some KaldiError)
      | Some Find \<Rightarrow> (case print_words ws Find of
            (out, Some e) \<Rightarrow> (out, Some e)
          | (out, None) \<Rightarrow> (if line_break then out @ [CHR 0x0A, CHR 0x0A] else out, None)))"

text \<open>The specification of all three: every word, a blank behind each.\<close>

definition words_text :: "(int \<Rightarrow> string) \<Rightarrow> int list \<Rightarrow> string" where
  "words_text Find ws = concat (map (\<lambda>w. Find w @ '' '') ws)"

lemma words_text_append [simp]: "words_text Find (ws @ vs) = words_text Find ws @ words_text Find vs"
  by (simp add: words_text_def)

lemma partial_result_eq:
  "partial_result ws Find = (if \<exists>w \<in> set ws. Find w = [] then Inl KaldiError else Inr (words_text Find ws))"
  by (induction ws) (auto simp: words_text_def)

lemma print_words_eq:
  "print_words ws Find = (words_text Find (takeWhile (\<lambda>w. Find w \<noteq> []) ws),
     if \<exists>w \<in> set ws. Find w = [] then Some KaldiError else None)"
  by (induction ws) (auto simp: words_text_def)

text \<open>
  The three routines agree: when the table has every word they all produce the words with
  a blank behind each; a word it does not have, or no table at all, is an error in each of
  them, \<open>PrintPartialResult\<close> having already printed the words before it.
\<close>

theorem result_texts_agree:
  "case table of
     None \<Rightarrow> GetPartialResult ws None = Inl KaldiError \<and> PrintPartialResult ws None line_break = ([], Some KaldiError)
       \<and> SymbolsToWords ws None = (if ws = [] then Inr [] else Inl NullDeref)
   | Some Find \<Rightarrow>
       if \<exists>w \<in> set ws. Find w = []
       then SymbolsToWords ws table = Inl AssertFailed \<and> GetPartialResult ws table = Inl KaldiError
         \<and> PrintPartialResult ws table line_break
           = (words_text Find (takeWhile (\<lambda>w. Find w \<noteq> []) ws), Some KaldiError)
       else SymbolsToWords ws table = Inr (words_text Find ws)
         \<and> GetPartialResult ws table = Inr (words_text Find ws)
         \<and> PrintPartialResult ws table line_break
           = (words_text Find ws @ (if line_break then [CHR 0x0A, CHR 0x0A] else []), None)"
proof (cases table)
  case None
  have "SymbolsToWords ws None = (if ws = [] then Inr [] else Inl NullDeref)" by (cases ws) simp_all
  then show ?thesis using None by (simp add: GetPartialResult_def PrintPartialResult_def)
next
  case (Some Find)
  have "SymbolsToWords ws (Some Find)
      = (if \<exists>w \<in> set ws. Find w = [] then Inl AssertFailed else Inr (words_text Find ws))"
    by (induction ws) (auto simp: words_text_def)
  moreover have "words_text Find (takeWhile (\<lambda>w. Find w \<noteq> []) ws) = words_text Find ws"
    if "\<forall>w \<in> set ws. Find w \<noteq> []"
    using that takeWhile_eq_all_conv [of "\<lambda>w. Find w \<noteq> []" ws] by metis
  ultimately show ?thesis
    using Some by (auto simp: GetPartialResult_def PrintPartialResult_def partial_result_eq print_words_eq)
qed

section \<open>SendOutput\<close>

definition str_bytes :: "string \<Rightarrow> byte list" where
  "str_bytes str = map (\<lambda>c. word_of_nat (of_char c)) str"

definition SendOutput :: "'s os \<Rightarrow> bool \<Rightarrow> string \<Rightarrow> ('s, unit) prog" where
  "SendOutput os end_utterance str =
     andthen (Send os (header_bytes \<lparr>payload_length = word_of_nat (1 + length str),
         packet_type = type_code DECODE_OUTPUT\<rparr>) 8) (\<lambda>_.
     andthen (Send os [bool_byte end_utterance] 1) (\<lambda>_.
     Send os (str_bytes str) (sint (word_of_nat (length str) :: cint))))"

lemma length_str_bytes [simp]: "length (str_bytes str) = length str"
  by (simp add: str_bytes_def)

lemma SendOutput_complete:
  assumes "os_ok os inc out" and "os_sends os" and "length str < 2 ^ 31"
  shows "\<exists>t. SendOutput os e str s = (Inr (), t) \<and> inc t = inc s
    \<and> out t = out s @ message_bytes (Output e (str_bytes str))"
proof -
  let ?h = "header_bytes \<lparr>payload_length = word_of_nat (1 + length str), packet_type = type_code DECODE_OUTPUT\<rparr>"
  obtain t1 where t1: "Send os ?h 8 s = (Inr (), t1)" "inc t1 = inc s" "out t1 = out s @ ?h"
    using Send_complete [OF assms(1,2), of 8 ?h s] by auto
  obtain t2 where t2: "Send os [bool_byte e] 1 t1 = (Inr (), t2)" "inc t2 = inc t1"
    "out t2 = out t1 @ [bool_byte e]"
    using Send_complete [OF assms(1,2), of 1 "[bool_byte e]" t1] by auto
  have len: "sint (word_of_nat (length str) :: cint) = int (length str)" using assms(3) by (rule sint_small_length)
  obtain t3 where t3: "Send os (str_bytes str) (int (length str)) t2 = (Inr (), t3)" "inc t3 = inc t2"
    "out t3 = out t2 @ str_bytes str"
    using Send_complete [OF assms(1,2), of "int (length str)" "str_bytes str" t2] by auto
  show ?thesis
    using t1 t2 t3 unfolding SendOutput_def len
    by (auto simp: andthen_Inr packet_def)
qed

lemma c_text_str_bytes:
  assumes "CHR 0x00 \<notin> set str"
  shows "c_text (str_bytes str) = str"
  using assms
proof (induction str)
  case (Cons c str)
  define n :: nat where "n = of_char c"
  have n: "n < 256" by (simp add: n_def)
  have c: "c = char_of n" by (simp add: n_def)
  have "n \<noteq> 0"
  proof
    assume "n = 0"
    then have "c = CHR 0x00" using c by (simp add: char_of_def)
    then show False using Cons.prems by simp
  qed
  then have nz: "(word_of_nat n :: byte) \<noteq> 0"
    using n by (auto simp: word_of_nat_eq_0_iff dest: dvd_imp_le)
  have "unat (word_of_nat n :: byte) = n" using n by (simp add: unat_of_nat take_bit_nat_eq_self)
  then show ?case using Cons nz n c by (simp add: c_text_def str_bytes_def)
qed (simp add: c_text_def str_bytes_def)

text \<open>
  C30. What \<open>SendOutput\<close> writes is shown by the client: one turn of the client's loop consumes
  exactly the packet and shows the text without the blanks around it, and a new line at the
  end of an utterance, as long as the text fits its buffer and has no zero character.
\<close>

theorem SendOutput_shown_by_client:
  assumes "os_ok os inc out" and "os_sends os"
    and "os_ok os' inc' out'" and "os_live os' inc'" and "os_sends os'"
    and "length str < output_size" and "CHR 0x00 \<notin> set str"
    and "4 * length wave < 2 ^ 31" and "pos \<le> length wave" and "pos < 2 ^ 31"
    and "SendOutput os e str s = (r, t)" and "inc' x = drop (length (out s)) (out t) @ rest"
  shows "r = Inr () \<and> (\<exists>y. Client_turn os' wave (int pos, sh) x
      = (Inr (int pos, sh @ (if trim str \<noteq> [] then [Words (trim str)] else []) @ (if e then [EndLine] else [])), y)
    \<and> inc' y = rest \<and> out' y = out' x)"
proof -
  let ?m = "Output e (str_bytes str)"
  have small: "length str < 2 ^ 31" using assms(6) by (simp add: output_size_def)
  have t: "r = Inr ()" "out t = out s @ message_bytes ?m"
    using SendOutput_complete [OF assms(1,2) small, of e s] assms(11) by auto
  have "inc' x = message_bytes ?m @ rest" using assms(12) t(2) by simp
  from Client_turn_message [OF assms(3-5) _ assms(8,9) _ this, of sh] assms(6,10) t(1)
    c_text_str_bytes [OF assms(7)]
  show ?thesis by auto
qed

section \<open>Witnesses\<close>

lemma trim_hi: "trim ''hi '' = ''hi''"
  by (simp add: trim_def is_blank_def)

theorem SendOutput_shown_by_client_witness:
  "\<exists>r t y. SendOutput conn_os True ''hi '' \<lparr>inbox = [], outbox = []\<rparr> = (r, t) \<and> r = Inr ()
    \<and> Client_turn conn_os [] (0, []) \<lparr>inbox = [outbox t], outbox = []\<rparr> = (Inr (0, [Words ''hi'', EndLine]), y)"
proof -
  obtain r t where t: "SendOutput conn_os True ''hi '' \<lparr>inbox = [], outbox = []\<rparr> = (r, t)" by fastforce
  have x: "incoming \<lparr>inbox = [outbox t], outbox = []\<rparr>
      = drop (length (outbox \<lparr>inbox = [], outbox = []\<rparr>)) (outbox t) @ []"
    by (simp add: incoming_def)
  show ?thesis
    using SendOutput_shown_by_client [OF conn_os_ok conn_os_sends conn_os_ok conn_os_live conn_os_sends
        _ _ _ _ _ t x, of "[]" 0 "[]"] t
    by (auto simp: output_size_def trim_hi)
qed

end
