(* ===== verification/DecodeLoop.thy ===== *)
theory DecodeLoop
  imports Traceback
begin

text \<open>
  \<open>OnlineFasterDecoder::Decode\<close> with its reset and its beam control
  (\<open>online-faster-decoder.cc\<close>), and the batching of \<open>OnlineDecodableDiagGmmScaled\<close>
  (\<open>online-decodable.cc\<close>). The token search is Kaldi's \<open>FasterDecoder\<close>: its operations act on a
  search state that also holds the decodable, and are parameters. A batch of features is
  fetched while a frame is searched, so it is then that a listener may call
  \<open>ForceEndUtterance\<close>: \<open>process_emitting\<close> reports it, or the fault the fetching ran into. Costs
  and times are exact reals.
\<close>

unbundle bit_operations_syntax

section \<open>The decoder\<close>

datatype DecodeState = kEndFeats | kEndUtt | kEndBatch

text \<open>The values are single bits, so that callers can test for several states at once.\<close>

fun state_code :: "DecodeState \<Rightarrow> cint" where
  "state_code kEndFeats = 1"
| "state_code kEndUtt = 2"
| "state_code kEndBatch = 4"

instantiation DecodeState :: enum
begin

definition enum_DecodeState_def: "enum_class.enum = [kEndFeats, kEndUtt, kEndBatch]"

definition enum_all_DecodeState_def:
  "enum_class.enum_all P \<longleftrightarrow> P kEndFeats \<and> P kEndUtt \<and> P kEndBatch"

definition enum_ex_DecodeState_def:
  "enum_class.enum_ex P \<longleftrightarrow> P kEndFeats \<or> P kEndUtt \<or> P kEndBatch"

instance
proof
  fix P :: "DecodeState \<Rightarrow> bool"
  have all: "(\<forall>s. P s) \<longleftrightarrow> P kEndFeats \<and> P kEndUtt \<and> P kEndBatch" for P by (metis DecodeState.exhaust)
  have ex: "(\<exists>s. P s) \<longleftrightarrow> P kEndFeats \<or> P kEndUtt \<or> P kEndBatch" for P by (metis DecodeState.exhaust)
  show "(UNIV :: DecodeState set) = set enum_class.enum"
    by (auto simp: enum_DecodeState_def intro: DecodeState.exhaust)
  show "distinct (enum_class.enum :: DecodeState list)" by (simp add: enum_DecodeState_def)
  show "enum_class.enum_all P \<longleftrightarrow> Ball UNIV P" by (simp add: enum_all_DecodeState_def all)
  show "enum_class.enum_ex P \<longleftrightarrow> Bex UNIV P" by (simp add: enum_ex_DecodeState_def ex)
qed

end

lemma state_bits [simp]:
  "state_code st AND (state_code kEndUtt OR state_code kEndFeats) = 0 \<longleftrightarrow> st = kEndBatch"
  "state_code st AND state_code kEndBatch = 0 \<longleftrightarrow> st \<noteq> kEndBatch"
  by (cases st; simp)+

record decoder_opts =
  rt_min :: real
  rt_max :: real
  batch_size :: nat
  update_interval :: nat
  beam_update :: real
  max_beam_update :: real

definition OnlineFasterDecoderOpts_new :: decoder_opts where
  "OnlineFasterDecoderOpts_new = \<lparr>rt_min = 0.7, rt_max = 0.75, batch_size = 27,
     update_interval = 3, beam_update = 0.01, max_beam_update = 0.05\<rparr>"

record decoder =
  dstate :: DecodeState
  frame :: int
  utt_frames :: nat
  forcingEndUtt :: bool
  beam_max :: real
  effective_beam :: real
  dtraces :: traces

definition OnlineFasterDecoder_new :: "real \<Rightarrow> traces \<Rightarrow> decoder" where
  "OnlineFasterDecoder_new beam tr = \<lparr>dstate = kEndFeats, frame = 0, utt_frames = 0,
     forcingEndUtt = False, beam_max = beam, effective_beam = beam, dtraces = tr\<rparr>"

record 'w search =
  is_last_frame :: "'w \<Rightarrow> int \<Rightarrow> bool"
  process_emitting :: "int \<Rightarrow> real \<Rightarrow> ('w, real \<times> bool) prog"
  process_nonemitting :: "real option \<Rightarrow> 'w \<Rightarrow> 'w"
  elapsed_time :: "'w \<Rightarrow> real \<times> 'w"
  clear_toks :: "'w \<Rightarrow> 'w"
  new_addr :: "'w \<Rightarrow> nat \<times> 'w"
  insert_tok :: "int \<Rightarrow> tokptr \<Rightarrow> 'w \<Rightarrow> 'w"

definition ForceEndUtterance :: "decoder \<Rightarrow> decoder" where
  "ForceEndUtterance d = d\<lparr>forcingEndUtt := True\<rparr>"

definition kNoStateId :: int where
  "kNoStateId = -1"

definition ResetDecoder :: "'w search \<Rightarrow> graph \<Rightarrow> bool \<Rightarrow> decoder \<Rightarrow> ('w, decoder) prog" where
  "ResetDecoder S g full d w0 =
     (let w1 = clear_toks S w0; start_state = fst_start g in
      if start_state = kNoStateId then (Inl KaldiError, w1)
      else case new_addr S w1 of (a, w2) \<Rightarrow>
        let dummy = \<lparr>tok_addr = a, ilabel = 0, olabel = 0, arc_weight = 0,
              nextstate = start_state, tok_weight = 0\<rparr>;
            w3 = insert_tok S start_state [dummy] w2
        in (Inr (d\<lparr>dtraces := \<lparr>immortal_tok = [dummy], prev_immortal_tok = [dummy]\<rparr>,
              utt_frames := 0, frame := if full then 0 else frame d\<rparr>), w3))"

text \<open>Lines 363 to 371. A quotient by zero is infinite, so the smaller number is the other.\<close>

definition adjust_beam :: "decoder_opts \<Rightarrow> real \<Rightarrow> real \<Rightarrow> real \<Rightarrow> real" where
  "adjust_beam opts elapsed maxb b =
     (let factor = elapsed / (rt_max opts * real (update_interval opts) * 10);
          min_factor = rt_min opts / rt_max opts
      in if factor > 1 \<or> factor < min_factor then
           let update_factor =
             (if factor > 1 then - min (beam_update opts * factor) (max_beam_update opts)
              else if factor = 0 then max_beam_update opts
              else min (beam_update opts / factor) (max_beam_update opts))
           in min (b + b * update_factor) maxb
         else b)"

text \<open>
  The body of the loop of lines 356 to 387 up to the test of \<open>forcingEndUtt_\<close> (the update
  interval is positive), and the loop: whether it was left by the \<open>return\<close>, the decoder, the
  number of frames counted and the search state.
\<close>

definition update_beam :: "decoder_opts \<Rightarrow> 'w search \<Rightarrow> decoder \<Rightarrow> nat \<Rightarrow> real \<Rightarrow> 'w
    \<Rightarrow> (decoder \<times> real) \<times> 'w" where
  "update_beam opts S d batch_frame tstart w =
     (if batch_frame \<noteq> 0 \<and> batch_frame mod update_interval opts = 0 then
        (case elapsed_time S w of (tend, w') \<Rightarrow>
          ((d\<lparr>effective_beam := adjust_beam opts ((tend - tstart) * 1000) (beam_max d)
              (effective_beam d)\<rparr>, tend), w'))
      else ((d, tstart), w))"

definition search_frame :: "decoder_opts \<Rightarrow> 'w search \<Rightarrow> decoder \<Rightarrow> nat \<Rightarrow> real
    \<Rightarrow> ('w, decoder \<times> real) prog" where
  "search_frame opts S d batch_frame tstart w =
     (case update_beam opts S d batch_frame tstart w of ((d1, tstart1), w1) \<Rightarrow>
      (case process_emitting S (frame d1) (effective_beam d1) w1 of
         (Inl e, w2) \<Rightarrow> (Inl e, w2)
       | (Inr (weight_cutoff, forced), w2) \<Rightarrow>
        (Inr (if forced then ForceEndUtterance d1 else d1, tstart1),
          process_nonemitting S (Some weight_cutoff) w2)))"

function decode_loop :: "decoder_opts \<Rightarrow> 'w search \<Rightarrow> decoder \<Rightarrow> nat \<Rightarrow> real
    \<Rightarrow> ('w, bool \<times> decoder \<times> nat) prog" where
  "decode_loop opts S d batch_frame tstart w =
     (if \<not> is_last_frame S w (frame d - 1) \<and> batch_frame < batch_size opts then
        (case search_frame opts S d batch_frame tstart w of
           (Inl e, w') \<Rightarrow> (Inl e, w')
         | (Inr (d', tstart'), w') \<Rightarrow>
          if forcingEndUtt d'
          then (Inr (True, d'\<lparr>dstate := kEndUtt, forcingEndUtt := False\<rparr>, batch_frame), w')
          else decode_loop opts S (d'\<lparr>frame := frame d' + 1, utt_frames := utt_frames d' + 1\<rparr>)
            (batch_frame + 1) tstart' w')
      else (Inr (False, d, batch_frame), w))"
  by pat_completeness auto
termination
  by (relation "measure (\<lambda>(opts, S, d, n, t, w). batch_size opts - n)") auto

declare decode_loop.simps [simp del]

definition Decode :: "decoder_opts \<Rightarrow> 'w search \<Rightarrow> graph \<Rightarrow> decoder \<Rightarrow> ('w, DecodeState \<times> decoder) prog" where
  "Decode opts S g d0 =
     andthen (if dstate d0 = kEndFeats \<or> dstate d0 = kEndUtt
        then ResetDecoder S g (dstate d0 = kEndFeats) d0 else ret d0) (\<lambda>d w0.
     let w1 = process_nonemitting S None w0 in
     case elapsed_time S w1 of (tstart, w2) \<Rightarrow>
     (case decode_loop opts S d 0 tstart w2 of
        (Inl e, w3) \<Rightarrow> (Inl e, w3)
      | (Inr (returned, d', batch_frame), w3) \<Rightarrow>
       if returned then (Inr (dstate d', d'), w3)
       else let st = (if batch_frame = batch_size opts \<and> \<not> is_last_frame S w3 (frame d' - 1)
              then kEndBatch else kEndFeats)
            in (Inr (st, d'\<lparr>dstate := st\<rparr>), w3)))"

section \<open>Which frames are searched\<close>

text \<open>An observer of the search state that records the frames handed to the search.\<close>

definition logs_frames :: "'w search \<Rightarrow> ('w \<Rightarrow> int list) \<Rightarrow> bool" where
  "logs_frames S obs \<longleftrightarrow>
     (\<forall>f b w. obs (snd (process_emitting S f b w)) = obs w @ [f]) \<and>
     (\<forall>c w. obs (process_nonemitting S c w) = obs w) \<and> (\<forall>w. obs (snd (elapsed_time S w)) = obs w) \<and>
     (\<forall>w. obs (clear_toks S w) = obs w) \<and> (\<forall>w. obs (snd (new_addr S w)) = obs w) \<and>
     (\<forall>k p w. obs (insert_tok S k p w) = obs w)"

lemma search_frame_logs:
  assumes "logs_frames S obs" and "search_frame opts S d n t w = (Inr (d', t'), w')"
  shows "obs w' = obs w @ [frame d] \<and> frame d' = frame d \<and> utt_frames d' = utt_frames d
    \<and> dtraces d' = dtraces d \<and> beam_max d' = beam_max d"
proof -
  obtain d1 t1 w1 where u: "update_beam opts S d n t w = ((d1, t1), w1)" by (metis prod.collapse)
  obtain c f w2 where p: "process_emitting S (frame d1) (effective_beam d1) w1 = (Inr (c, f), w2)"
    using assms(2) u by (auto simp: search_frame_def split: prod.splits sum.splits)
  have "frame d1 = frame d \<and> utt_frames d1 = utt_frames d \<and> dtraces d1 = dtraces d
      \<and> beam_max d1 = beam_max d"
    using u by (auto simp: update_beam_def split: if_splits prod.splits)
  moreover have "obs w1 = obs w"
  proof (cases "n \<noteq> 0 \<and> n mod update_interval opts = 0")
    case True
    with u have "w1 = snd (elapsed_time S w)" by (simp add: update_beam_def split: prod.splits)
    with assms(1) show ?thesis unfolding logs_frames_def by blast
  next
    case False
    with u show ?thesis by (auto simp: update_beam_def)
  qed
  moreover have "obs w2 = obs w1 @ [frame d1]"
    using assms(1) p unfolding logs_frames_def by (metis snd_conv)
  moreover have "d' = (if f then ForceEndUtterance d1 else d1)"
    "w' = process_nonemitting S (Some c) w2"
    using assms(2) u p by (auto simp: search_frame_def)
  ultimately show ?thesis using assms(1) unfolding logs_frames_def
    by (auto simp: ForceEndUtterance_def)
qed

definition loop_result :: "decoder_opts \<Rightarrow> 'w search \<Rightarrow> ('w \<Rightarrow> int list) \<Rightarrow> decoder \<Rightarrow> nat \<Rightarrow> 'w
    \<Rightarrow> bool \<Rightarrow> decoder \<Rightarrow> nat \<Rightarrow> 'w \<Rightarrow> nat \<Rightarrow> bool" where
  "loop_result opts S obs d n w returned d' n' w' k \<longleftrightarrow>
     obs w' = obs w @ map (\<lambda>i. frame d + int i) [0..<k] \<and> n + k \<le> batch_size opts
     \<and> n \<le> n' \<and> utt_frames d' = utt_frames d + (n' - n) \<and> frame d' = frame d + int (n' - n)
     \<and> dtraces d' = dtraces d \<and> beam_max d' = beam_max d
     \<and> (if returned then n' + 1 = n + k \<and> dstate d' = kEndUtt \<and> \<not> forcingEndUtt d'
        else n' = n + k \<and> (n' = batch_size opts \<or> is_last_frame S w' (frame d' - 1)))"

lemma decode_loop_frames:
  "logs_frames S obs \<Longrightarrow> decode_loop opts S d n tstart w = (Inr (returned, d', n'), w') \<Longrightarrow>
    n \<le> batch_size opts \<Longrightarrow> \<exists>k. loop_result opts S obs d n w returned d' n' w' k"
proof (induction opts S d n tstart w rule: decode_loop.induct)
  case (1 opts S d n tstart w)
  note simps = decode_loop.simps [of opts S d n tstart w]
  show ?case
  proof (cases "\<not> is_last_frame S w (frame d - 1) \<and> n < batch_size opts")
    case False
    then have "decode_loop opts S d n tstart w = (Inr (False, d, n), w)"
      by (subst simps) (simp only: if_False)
    then show ?thesis using "1.prems" False by (intro exI [of _ 0]) (auto simp: loop_result_def)
  next
    case True
    obtain r w2 where s0: "search_frame opts S d n tstart w = (r, w2)" by fastforce
    have "r \<noteq> Inl e" for e
    proof
      assume "r = Inl e"
      then have "decode_loop opts S d n tstart w = (Inl e, w2)" using True s0 by (subst simps) simp
      then show False using "1.prems"(2) by simp
    qed
    then obtain d2 t2 where s: "search_frame opts S d n tstart w = (Inr (d2, t2), w2)"
      using s0 by (cases r) auto
    note logs = search_frame_logs [OF "1.prems"(1) s]
    let ?d = "d2\<lparr>frame := frame d2 + 1, utt_frames := utt_frames d2 + 1\<rparr>"
    have eq: "decode_loop opts S d n tstart w = (if forcingEndUtt d2
        then (Inr (True, d2\<lparr>dstate := kEndUtt, forcingEndUtt := False\<rparr>, n), w2)
        else decode_loop opts S ?d (n + 1) t2 w2)"
      using True s by (subst simps) simp
    show ?thesis
    proof (cases "forcingEndUtt d2")
      case f: True
      then show ?thesis using eq "1.prems" logs True
        by (intro exI [of _ 1]) (auto simp: loop_result_def)
    next
      case f: False
      have rec: "decode_loop opts S ?d (n + 1) t2 w2 = (Inr (returned, d', n'), w')"
        using eq "1.prems"(2) f by simp
      obtain k where "loop_result opts S obs ?d (n + 1) w2 returned d' n' w' k"
        using "1.IH" [OF True s [symmetric] refl refl f "1.prems"(1) rec] True by auto
      moreover have "map (\<lambda>i. frame d + int i) [0..<Suc k]
          = frame d # map (\<lambda>i. frame ?d + int i) [0..<k]"
        using logs by (simp add: upt_conv_Cons map_Suc_upt [symmetric] comp_def del: upt_Suc)
      ultimately show ?thesis
        using logs by (intro exI [of _ "Suc k"]) (auto simp: loop_result_def split: if_splits)
    qed
  qed
qed

lemma ResetDecoder_frame:
  assumes "logs_frames S obs" and "ResetDecoder S g full d w = (Inr d', w')"
  shows "frame d' = (if full then 0 else frame d) \<and> obs w' = obs w"
proof -
  obtain a w2 where a: "new_addr S (clear_toks S w) = (a, w2)" by fastforce
  then have "obs w2 = obs w" using assms(1) unfolding logs_frames_def by (metis snd_conv)
  then show ?thesis using assms a
    by (auto simp: ResetDecoder_def Let_def logs_frames_def split: if_splits)
qed

text \<open>
  C18. Each call of \<open>Decode\<close> searches consecutive frames, at most a batch of them, from frame 0
  after the end of the features and else from where the last call stopped. At the end of a
  batch or of the features the next frame is one that has not been searched; but an end of
  utterance leaves the frame counter on the last searched frame, which the next call searches
  again.
\<close>

theorem Decode_searches_consecutive_frames:
  assumes "logs_frames S obs" and "Decode opts S g d w = (Inr (st, d'), w')"
  shows "\<exists>k. let first = (if dstate d = kEndFeats then 0 else frame d) in
      obs w' = obs w @ map (\<lambda>i. first + int i) [0..<k] \<and> k \<le> batch_size opts \<and> dstate d' = st
      \<and> (st = kEndUtt \<longrightarrow> 1 \<le> k \<and> frame d' = first + int k - 1 \<and> \<not> forcingEndUtt d')
      \<and> (st \<noteq> kEndUtt \<longrightarrow> frame d' = first + int k)
      \<and> (st = kEndBatch \<longrightarrow> k = batch_size opts \<and> \<not> is_last_frame S w' (frame d' - 1))
      \<and> (st = kEndFeats \<longrightarrow> is_last_frame S w' (frame d' - 1))"
proof -
  let ?reset = "if dstate d = kEndFeats \<or> dstate d = kEndUtt
        then ResetDecoder S g (dstate d = kEndFeats) d else ret d"
  obtain d0 w0 where r: "?reset w = (Inr d0, w0)" using assms(2)
    unfolding Decode_def andthen_Inr_iff by blast
  have d0: "frame d0 = (if dstate d = kEndFeats then 0 else frame d)" "obs w0 = obs w"
    using r assms(1) ResetDecoder_frame [OF assms(1), of g "dstate d = kEndFeats" d w d0 w0]
    by (auto split: if_splits)
  obtain tstart w2 where t: "elapsed_time S (process_nonemitting S None w0) = (tstart, w2)"
    by fastforce
  have w2: "obs w2 = obs w" using assms(1) t d0(2) unfolding logs_frames_def by (metis snd_conv)
  have D0: "Decode opts S g d w = (case decode_loop opts S d0 0 tstart w2 of
        (Inl e, w3) \<Rightarrow> (Inl e, w3)
      | (Inr (returned, d1, n), w3) \<Rightarrow> if returned then (Inr (dstate d1, d1), w3)
      else let st = (if n = batch_size opts \<and> \<not> is_last_frame S w3 (frame d1 - 1)
             then kEndBatch else kEndFeats) in (Inr (st, d1\<lparr>dstate := st\<rparr>), w3))"
    unfolding Decode_def by (subst andthen_Inr [of ?reset w d0 w0, OF r]) (simp add: t)
  obtain returned d1 n w3 where l: "decode_loop opts S d0 0 tstart w2 = (Inr (returned, d1, n), w3)"
    using assms(2) D0 by (auto split: prod.splits sum.splits)
  obtain k where k: "loop_result opts S obs d0 0 w2 returned d1 n w3 k"
    using decode_loop_frames [OF assms(1) l] by auto
  have "Decode opts S g d w = (if returned then (Inr (dstate d1, d1), w3)
      else let st = (if n = batch_size opts \<and> \<not> is_last_frame S w3 (frame d1 - 1)
             then kEndBatch else kEndFeats) in (Inr (st, d1\<lparr>dstate := st\<rparr>), w3))"
    using D0 by (simp add: l)
  note D = trans [OF assms(2) [symmetric] this]
  show ?thesis
    using D k d0 w2 unfolding loop_result_def Let_def
    by (intro exI [of _ k]) (auto split: if_splits)
qed

text \<open>
  C40. One adjustment keeps the beam between 0 and its maximum and changes it by at most the
  maximal rate: it shrinks when decoding is slower than real time, and otherwise, if it
  changes, it grows.
\<close>

theorem adjust_beam_bounds:
  assumes "0 < b" and "b \<le> maxb" and "0 \<le> elapsed" and "0 < rt_max opts" and "0 < update_interval opts"
    and "rt_min opts \<le> rt_max opts"
    and "0 \<le> beam_update opts" and "0 \<le> max_beam_update opts" and "max_beam_update opts < 1"
  shows "0 < adjust_beam opts elapsed maxb b \<and> adjust_beam opts elapsed maxb b \<le> maxb
    \<and> \<bar>adjust_beam opts elapsed maxb b - b\<bar> \<le> b * max_beam_update opts
    \<and> (rt_max opts * real (update_interval opts) * 10 < elapsed \<longrightarrow> adjust_beam opts elapsed maxb b \<le> b)
    \<and> (elapsed \<le> rt_max opts * real (update_interval opts) * 10 \<longrightarrow> b \<le> adjust_beam opts elapsed maxb b)"
proof -
  define budget where "budget = rt_max opts * real (update_interval opts) * 10"
  define factor where "factor = elapsed / budget"
  have budget: "0 < budget" using assms by (simp add: budget_def)
  have f: "0 \<le> factor" "factor > 1 \<longleftrightarrow> budget < elapsed"
    using budget assms(3) by (simp_all add: factor_def)
  define u where "u = (if factor > 1 then - min (beam_update opts * factor) (max_beam_update opts)
              else if factor = 0 then max_beam_update opts
              else min (beam_update opts / factor) (max_beam_update opts))"
  have u: "\<bar>u\<bar> \<le> max_beam_update opts" "factor > 1 \<Longrightarrow> u \<le> 0" "\<not> factor > 1 \<Longrightarrow> 0 \<le> u"
    using assms(7,8) f(1) by (auto simp: u_def min_def)
  have eq: "adjust_beam opts elapsed maxb b =
      (if factor > 1 \<or> factor < rt_min opts / rt_max opts then min (b + b * u) maxb else b)"
    by (simp add: adjust_beam_def factor_def budget_def u_def Let_def)
  have bu: "\<bar>b * u\<bar> \<le> b * max_beam_update opts" using u(1) assms(1) by (simp add: abs_mult)
  have small: "b * max_beam_update opts < b" using assms(1,9) by simp
  have sign: "factor > 1 \<Longrightarrow> b * u \<le> 0" "\<not> factor > 1 \<Longrightarrow> 0 \<le> b * u"
    using u(2,3) assms(1) by (simp_all add: mult_nonneg_nonpos)
  have nonneg: "0 \<le> b * max_beam_update opts" using assms(1,8) by simp
  have "\<bar>min (b + x) maxb - b\<bar> \<le> y \<and> 0 < min (b + x) maxb" if "\<bar>x\<bar> \<le> y" "y < b" "0 \<le> y" for x y
    using that assms(1,2) by (auto simp: min_def)
  from this [OF bu small nonneg]
  have bounds: "\<bar>min (b + b * u) maxb - b\<bar> \<le> b * max_beam_update opts" "0 < min (b + b * u) maxb"
    by auto
  have slower: "factor > 1 \<longrightarrow> min (b + b * u) maxb \<le> b" using sign(1) by auto
  have faster: "\<not> factor > 1 \<longrightarrow> b \<le> min (b + b * u) maxb" using sign(2) assms(2) by auto
  show ?thesis
    using bounds slower faster assms(1,2) nonneg
    unfolding eq f(2) budget_def [symmetric] by auto
qed

section \<open>The decodable\<close>

text \<open>
  The current batch of features, the offset of its first frame (a \<open>uint32\<close>) and whether the
  input is exhausted. The comparisons and the difference are those of 32-bit unsigned numbers,
  as in C++. The server passes no timeout. \<open>input_->Compute\<close> is a program over the state of
  the input, \<open>loglik\<close> the score of a feature vector.
\<close>

record 'f decodable =
  feat_matrix :: "'f list"
  feat_offset :: "32 word"
  finished :: bool

definition Decodable_new :: "'f decodable" where
  "Decodable_new = \<lparr>feat_matrix = [], feat_offset = 0, finished = False\<rparr>"

definition current_loglik :: "('f \<Rightarrow> int \<Rightarrow> real) \<Rightarrow> int \<Rightarrow> int \<Rightarrow> 'f decodable \<times> 'i
    \<Rightarrow> (fault + real) \<times> 'f decodable \<times> 'i" where
  "current_loglik loglik frm index = (\<lambda>(d, i).
     let req_frame = sint (word_of_int frm - feat_offset d) in
     if 0 \<le> req_frame \<and> req_frame < int (length (feat_matrix d))
     then (Inr (loglik (feat_matrix d ! nat req_frame) index), d, i)
     else (Inl OutOfBounds, d, i))"

definition LogLikelihood :: "(nat \<Rightarrow> ('i, 'f list \<times> bool) prog) \<Rightarrow> ('f \<Rightarrow> int \<Rightarrow> real) \<Rightarrow> nat
    \<Rightarrow> int \<Rightarrow> int \<Rightarrow> ('f decodable \<times> 'i, real) prog" where
  "LogLikelihood compute loglik batch frm index = (\<lambda>(d, i).
     let feat_size = word_of_nat (length (feat_matrix d)) in
     if feat_offset d + feat_size \<le> word_of_int frm then
       if finished d then (Inl KaldiError, d, i)
       else (case compute batch i of
           (Inl e, i') \<Rightarrow> (Inl e, d, i')
         | (Inr (rows, more_data), i') \<Rightarrow>
             let d1 = d\<lparr>feat_matrix := rows, finished := \<not> more_data\<rparr> in
             if length rows = 0 then (Inl RuntimeError, d1, i')
             else current_loglik loglik frm index (d1\<lparr>feat_offset := feat_offset d + feat_size\<rparr>, i'))
     else current_loglik loglik frm index (d, i))"

definition IsLastFrame :: "'f decodable \<Rightarrow> int \<Rightarrow> bool" where
  "IsLastFrame d frm \<longleftrightarrow>
     (if \<not> finished d then False
      else feat_offset d + word_of_nat (length (feat_matrix d)) - 1 \<le> (word_of_int frm :: 32 word))"

text \<open>What an input promises: it delivers its frames in order, at least one if there is one,
  and says that there is no more when it has delivered all.\<close>

definition delivers :: "(nat \<Rightarrow> ('i, 'f list \<times> bool) prog) \<Rightarrow> ('i \<Rightarrow> 'f list) \<Rightarrow> nat \<Rightarrow> bool" where
  "delivers compute todo batch \<longleftrightarrow> (\<forall>i. \<exists>rows more_data i'. compute batch i = (Inr (rows, more_data), i') \<and>
     todo i = rows @ todo i' \<and> (\<not> more_data \<longrightarrow> todo i' = []) \<and> (todo i \<noteq> [] \<longrightarrow> rows \<noteq> []))"

definition decodable_ok :: "('i \<Rightarrow> 'f list) \<Rightarrow> 'f list \<Rightarrow> 'f decodable \<Rightarrow> 'i \<Rightarrow> bool" where
  "decodable_ok todo feats d i \<longleftrightarrow> length feats < 2 ^ 31 \<and>
     feats = take (unat (feat_offset d)) feats @ feat_matrix d @ todo i
     \<and> unat (feat_offset d) + length (feat_matrix d) + length (todo i) = length feats
     \<and> (finished d \<longrightarrow> todo i = [])"

lemma word_of_nat_le: "(m :: nat) < 2 ^ 32 \<Longrightarrow> n < 2 ^ 32 \<Longrightarrow>
    (word_of_nat m :: 32 word) \<le> word_of_nat n \<longleftrightarrow> m \<le> n"
  by (simp add: word_le_nat_alt unat_of_nat take_bit_nat_eq_self)

lemma current_loglik_ok:
  assumes "decodable_ok todo feats d i" and "unat (feat_offset d) \<le> f"
    and "f < unat (feat_offset d) + length (feat_matrix d)"
  shows "current_loglik loglik (int f) index (d, i) = (Inr (loglik (feats ! f) index), d, i)"
proof -
  let ?o = "unat (feat_offset d)"
  have small: "length feats < 2 ^ 31" and feats: "feats = take ?o feats @ feat_matrix d @ todo i"
    and len: "?o + length (feat_matrix d) + length (todo i) = length feats"
    using assms(1) unfolding decodable_ok_def by blast+
  have "(word_of_int (int f) :: 32 word) - feat_offset d = word_of_nat (f - ?o)"
    using assms(2) by (simp add: of_nat_diff)
  moreover have "f - ?o < 2 ^ 31" using assms(3) len small by simp
  then have "sint (word_of_nat (f - ?o) :: 32 word) = int (f - ?o)"
    by (simp add: signed_of_nat signed_take_bit_int_eq_self)
  ultimately have req: "sint ((word_of_int (int f) :: 32 word) - feat_offset d) = int (f - ?o)" by simp
  have "feats ! f = (take ?o feats @ feat_matrix d @ todo i) ! f" using feats by simp
  also have "\<dots> = feat_matrix d ! (f - ?o)"
  proof -
    have "f - ?o < length (feat_matrix d)" "length (take ?o feats) = ?o"
      using assms(2,3) len by auto
    then show ?thesis using assms(2) by (simp only: nth_append not_less [symmetric]) simp
  qed
  finally have at: "feats ! f = feat_matrix d ! (f - ?o)" .
  define k where "k = f - ?o"
  have "k < length (feat_matrix d)" using assms(2,3) by (simp add: k_def)
  then show ?thesis
    unfolding current_loglik_def Let_def prod.case req at k_def [symmetric] by simp
qed

lemma LogLikelihood_ok:
  assumes "delivers compute todo batch" and ok: "decodable_ok todo feats d i" and "f < length feats"
    and "unat (feat_offset d) \<le> f" and "f \<le> unat (feat_offset d) + length (feat_matrix d)"
  shows "\<exists>d' i'. LogLikelihood compute loglik batch (int f) index (d, i)
      = (Inr (loglik (feats ! f) index), d', i') \<and> decodable_ok todo feats d' i'
    \<and> unat (feat_offset d') \<le> f \<and> f < unat (feat_offset d') + length (feat_matrix d')"
proof -
  let ?o = "unat (feat_offset d)" and ?n = "length (feat_matrix d)"
  have small: "length feats < 2 ^ 31" and feats: "feats = take ?o feats @ feat_matrix d @ todo i"
    and len: "?o + ?n + length (todo i) = length feats" and fin: "finished d \<longrightarrow> todo i = []"
    using ok unfolding decodable_ok_def by blast+
  have sum: "feat_offset d + word_of_nat ?n = word_of_nat (?o + ?n)" by simp
  have cond: "feat_offset d + word_of_nat ?n \<le> (word_of_int (int f) :: 32 word) \<longleftrightarrow> ?o + ?n \<le> f"
    using small len assms(3) word_of_nat_le [of "?o + ?n" f] by (simp del: of_nat_add add: sum)
  show ?thesis
  proof (cases "?o + ?n \<le> f")
    case False
    then show ?thesis
      using cond current_loglik_ok [OF ok assms(4), of loglik index] ok assms(4)
      by (simp add: LogLikelihood_def Let_def)
  next
    case True
    with assms(5) have f: "f = ?o + ?n" by simp
    with assms(3) len have todo: "todo i \<noteq> []" by auto
    then have nf: "\<not> finished d" using fin by blast
    obtain rows more_data i' where c: "compute batch i = (Inr (rows, more_data), i')"
      and rows: "todo i = rows @ todo i'" "\<not> more_data \<longrightarrow> todo i' = []" "rows \<noteq> []"
      using assms(1) todo unfolding delivers_def by blast
    let ?d = "d\<lparr>feat_matrix := rows, finished := \<not> more_data, feat_offset := feat_offset d + word_of_nat ?n\<rparr>"
    have "unat (word_of_nat (?o + ?n) :: 32 word) = ?o + ?n"
      using small len by (simp add: unat_of_nat take_bit_nat_eq_self del: of_nat_add)
    then have "unat (feat_offset d + word_of_nat ?n) = ?o + ?n" by (simp only: sum)
    then have off: "unat (feat_offset ?d) = ?o + ?n" by simp
    have "length (take ?o feats) = ?o" using len by simp
    then have "take (?o + ?n) (take ?o feats @ feat_matrix d @ todo i) = take ?o feats @ feat_matrix d"
      by simp
    with arg_cong [OF feats, of "take (?o + ?n)"]
    have "take (?o + ?n) feats = take ?o feats @ feat_matrix d" by (rule trans)
    moreover have "feats = (take ?o feats @ feat_matrix d) @ rows @ todo i'"
      using feats unfolding rows(1) by simp
    ultimately have "feats = take (?o + ?n) feats @ rows @ todo i'" by (rule ssubst)
    then have ok': "decodable_ok todo feats ?d i'"
      unfolding decodable_ok_def off using small len rows by simp
    have "f < unat (feat_offset ?d) + length (feat_matrix ?d)" using off f rows(3) by simp
    from current_loglik_ok [OF ok' _ this, of loglik index] off f
    have "current_loglik loglik (int f) index (?d, i') = (Inr (loglik (feats ! f) index), ?d, i')"
      by simp
    then have "LogLikelihood compute loglik batch (int f) index (d, i)
        = (Inr (loglik (feats ! f) index), ?d, i')"
      using cond True nf c rows(3) by (simp add: LogLikelihood_def Let_def)
    then show ?thesis using ok' off f rows(3) by fastforce
  qed
qed

text \<open>A series of requests, as the search makes them: many per frame, the frame never going
  back by more than the batch holds and never forward by more than one.\<close>

fun LogLikelihoods :: "(nat \<Rightarrow> ('i, 'f list \<times> bool) prog) \<Rightarrow> ('f \<Rightarrow> int \<Rightarrow> real) \<Rightarrow> nat
    \<Rightarrow> (nat \<times> int) list \<Rightarrow> ('f decodable \<times> 'i, real list) prog" where
  "LogLikelihoods compute loglik batch [] = ret []"
| "LogLikelihoods compute loglik batch ((f, index) # reqs) =
     andthen (LogLikelihood compute loglik batch (int f) index) (\<lambda>x.
     andthen (LogLikelihoods compute loglik batch reqs) (\<lambda>xs. ret (x # xs)))"

fun steps_ok :: "nat \<Rightarrow> nat list \<Rightarrow> bool" where
  "steps_ok cur [] \<longleftrightarrow> True"
| "steps_ok cur (f # fs) \<longleftrightarrow> (f = cur \<or> f = Suc cur) \<and> steps_ok f fs"

lemma LogLikelihoods_ok:
  assumes "delivers compute todo batch"
  shows "decodable_ok todo feats d i \<Longrightarrow> unat (feat_offset d) \<le> cur \<Longrightarrow>
    cur < unat (feat_offset d) + length (feat_matrix d) \<Longrightarrow> steps_ok cur (map fst reqs) \<Longrightarrow>
    \<forall>f \<in> set (map fst reqs). f < length feats \<Longrightarrow>
    \<exists>d' i'. LogLikelihoods compute loglik batch reqs (d, i)
      = (Inr (map (\<lambda>(f, index). loglik (feats ! f) index) reqs), d', i')
      \<and> decodable_ok todo feats d' i'
      \<and> unat (feat_offset d') \<le> last (cur # map fst reqs)
      \<and> last (cur # map fst reqs) < unat (feat_offset d') + length (feat_matrix d')"
proof (induction reqs arbitrary: d i cur)
  case (Cons r reqs)
  obtain f index where r: "r = (f, index)" by fastforce
  have f: "f < length feats" "unat (feat_offset d) \<le> f"
    "f \<le> unat (feat_offset d) + length (feat_matrix d)" "steps_ok f (map fst reqs)"
    using Cons.prems r by auto
  obtain d1 i1 where d1: "LogLikelihood compute loglik batch (int f) index (d, i)
      = (Inr (loglik (feats ! f) index), d1, i1)" "decodable_ok todo feats d1 i1"
    "unat (feat_offset d1) \<le> f" "f < unat (feat_offset d1) + length (feat_matrix d1)"
    using LogLikelihood_ok [OF assms Cons.prems(1) f(1-3)] by blast
  from Cons.IH [OF d1(2-4) f(4)] Cons.prems(5) obtain d2 i2 where
    "LogLikelihoods compute loglik batch reqs (d1, i1)
      = (Inr (map (\<lambda>(f, index). loglik (feats ! f) index) reqs), d2, i2)"
    "decodable_ok todo feats d2 i2" "unat (feat_offset d2) \<le> last (f # map fst reqs)"
    "last (f # map fst reqs) < unat (feat_offset d2) + length (feat_matrix d2)"
    by auto
  then show ?case using d1(1) by (auto simp: r andthen_Inr)
qed simp

text \<open>
  C21. The batching is transparent: as long as the requests move forward one frame at a time,
  every one is answered by the score of that frame of the whole feature stream, no feature
  being skipped at a batch boundary, and afterwards the last frame is recognised as such
  exactly when the input is exhausted and it is the last of the stream.
\<close>

theorem LogLikelihood_batching_transparent:
  assumes "delivers compute todo batch" and "length (todo i) < 2 ^ 31" and "todo i \<noteq> []"
    and "steps_ok 0 (map fst reqs)" and "\<forall>f \<in> set (map fst reqs). f < length (todo i)"
  shows "\<exists>d' i'. LogLikelihoods compute loglik batch ((0, index) # reqs) (Decodable_new, i)
      = (Inr (map (\<lambda>(f, index). loglik (todo i ! f) index) ((0, index) # reqs)), d', i')
    \<and> (IsLastFrame d' (int (last (0 # map fst reqs))) \<longleftrightarrow>
        finished d' \<and> last (0 # map fst reqs) = length (todo i) - 1)"
proof -
  let ?feats = "todo i" and ?last = "last (0 # map fst reqs)"
  have new: "decodable_ok todo ?feats Decodable_new i"
    using assms(2) by (simp add: decodable_ok_def Decodable_new_def)
  obtain d1 i1 where d1: "LogLikelihood compute loglik batch (int 0) index (Decodable_new, i)
      = (Inr (loglik (?feats ! 0) index), d1, i1)" "decodable_ok todo ?feats d1 i1"
    "unat (feat_offset d1) \<le> 0" "0 < unat (feat_offset d1) + length (feat_matrix d1)"
    using LogLikelihood_ok [OF assms(1) new, of 0 loglik index] assms(3)
    by (auto simp: Decodable_new_def)
  obtain d2 i2 where d2: "LogLikelihoods compute loglik batch reqs (d1, i1)
      = (Inr (map (\<lambda>(f, index). loglik (?feats ! f) index) reqs), d2, i2)"
    "decodable_ok todo ?feats d2 i2" "unat (feat_offset d2) \<le> ?last"
    "?last < unat (feat_offset d2) + length (feat_matrix d2)"
    using LogLikelihoods_ok [OF assms(1) d1(2-4) assms(4,5), of loglik] by blast
  let ?o = "unat (feat_offset d2)" and ?n = "length (feat_matrix d2)"
  have len: "?o + ?n + length (todo i2) = length ?feats" and fin: "finished d2 \<longrightarrow> todo i2 = []"
    using d2(2) unfolding decodable_ok_def by blast+
  have sum: "feat_offset d2 + word_of_nat ?n - 1 = (word_of_nat (?o + ?n - 1) :: 32 word)"
    using d2(4) by (simp add: of_nat_diff)
  have "(word_of_nat (?o + ?n - 1) :: 32 word) \<le> word_of_int (int ?last) \<longleftrightarrow> ?o + ?n - 1 \<le> ?last"
    using word_of_nat_le [of "?o + ?n - 1" ?last] len assms(2) d2(4)
    by (simp del: of_nat_add of_nat_diff)
  then have "IsLastFrame d2 (int ?last) \<longleftrightarrow> finished d2 \<and> ?last = length ?feats - 1"
    using len fin d2(4) unfolding IsLastFrame_def sum by auto
  then show ?thesis using d1(1) d2(1) by (auto simp: andthen_Inr)
qed

section \<open>Witnesses\<close>

text \<open>A search that only records its frames; the end of the utterance is forced in frame 1.\<close>

definition logging_search :: "int list search" where
  "logging_search = \<lparr>is_last_frame = (\<lambda>w f. 4 \<le> f),
     process_emitting = (\<lambda>f b w. (Inr (b, f = 1), w @ [f])), process_nonemitting = (\<lambda>c w. w),
     elapsed_time = (\<lambda>w. (0, w)), clear_toks = (\<lambda>w. w), new_addr = (\<lambda>w. (7, w)),
     insert_tok = (\<lambda>k p w. w)\<rparr>"

theorem Decode_searches_consecutive_frames_witness:
  "\<exists>d'. Decode OnlineFasterDecoderOpts_new logging_search small_graph
      (OnlineFasterDecoder_new 16 undefined) [] = (Inr (kEndUtt, d'), [0, 1]) \<and> frame d' = 1"
proof -
  have logs: "logs_frames logging_search (\<lambda>w. w)"
    by (simp add: logs_frames_def logging_search_def)
  obtain d' where d': "Decode OnlineFasterDecoderOpts_new logging_search small_graph
      (OnlineFasterDecoder_new 16 undefined) [] = (Inr (kEndUtt, d'), [0, 1])"
    by (simp add: Decode_def andthen_def ResetDecoder_def decode_loop.simps search_frame_def
        update_beam_def logging_search_def OnlineFasterDecoder_new_def OnlineFasterDecoderOpts_new_def
        small_graph_def kNoStateId_def ForceEndUtterance_def Let_def)
  from Decode_searches_consecutive_frames [OF logs d'] have "frame d' = 1"
    by (auto simp: OnlineFasterDecoder_new_def Let_def dest: arg_cong [where f = length])
  with d' show ?thesis by blast
qed

theorem adjust_beam_bounds_witness:
  "adjust_beam OnlineFasterDecoderOpts_new 30 16 15 \<le> 15 \<and> 14.25 \<le> adjust_beam OnlineFasterDecoderOpts_new 30 16 15"
  using adjust_beam_bounds [of 15 16 30 OnlineFasterDecoderOpts_new]
  by (auto simp: OnlineFasterDecoderOpts_new_def abs_le_iff)

text \<open>An input that delivers a list in batches.\<close>

definition list_input :: "nat \<Rightarrow> ('f list, 'f list \<times> bool) prog" where
  "list_input n i = (Inr (take n i, drop n i \<noteq> []), drop n i)"

theorem LogLikelihood_batching_transparent_witness:
  "\<exists>d' i'. LogLikelihoods list_input (\<lambda>x ix. x + real_of_int ix) 2 [(0, 1), (0, 2), (1, 1), (2, 1)]
      (Decodable_new, [10, 20, 30])
    = (Inr [11, 12, 21, 31], d', i')"
proof -
  have "delivers list_input (\<lambda>i :: real list. i) 2" by (auto simp: delivers_def list_input_def)
  from LogLikelihood_batching_transparent [OF this, of "[10, 20, 30]" "[(0, 2), (1, 1), (2, 1)]"
      "\<lambda>x ix. x + real_of_int ix" 1]
  show ?thesis by (auto simp: nth_Cons' simp del: LogLikelihoods.simps)
qed

end
