(* ===== verification/Lda.thy ===== *)
theory Lda
  imports Features
begin

text \<open>
  \<open>OnlineLdaInput\<close> (\<open>online-feat-input.cc\<close>), which splices every frame with its neighbours in
  a circular window and transforms the result, and \<open>LdaTransform\<close> (\<open>DecodeWorker.cc\<close>), the
  copy of this code for a whole recording.
\<close>

section \<open>OnlineLdaInput\<close>

record lda =
  lfeat_dim :: nat
  transform :: matrix
  window_size :: nat
  window_center :: nat
  window_pos :: nat
  trans_rows :: nat
  feat_window :: "vec list"

definition OnlineLdaInput_new :: "nat \<Rightarrow> matrix \<Rightarrow> nat \<Rightarrow> nat \<Rightarrow> lda" where
  "OnlineLdaInput_new d T left_context right_context = \<lparr>lfeat_dim = d, transform = T,
     window_size = left_context + right_context + 1, window_center = left_context, window_pos = 0,
     trans_rows = length (rows T), feat_window = []\<rparr>"

definition LdaInput_InitFeatWindow :: "vec list \<Rightarrow> lda \<Rightarrow> lda option" where
  "LdaInput_InitFeatWindow feat_in l =
     (case first_window (window_center l) (window_size l) feat_in of
        None \<Rightarrow> None
      | Some w \<Rightarrow> Some (l\<lparr>feat_window := w, window_pos := 0\<rparr>))"

definition lda_push :: "lda \<Rightarrow> vec \<Rightarrow> lda" where
  "lda_push l x = l\<lparr>feat_window := (feat_window l)[window_pos l := x],
     window_pos := (window_pos l + 1) mod window_size l\<rparr>"

text \<open>Lines 127 to 133: the rows of the window from the oldest on, one behind the other.\<close>

fun splice_from :: "vec list \<Rightarrow> nat \<Rightarrow> nat \<Rightarrow> nat \<Rightarrow> vec" where
  "splice_from w wsize fwi 0 = []"
| "splice_from w wsize fwi (Suc n) = w ! fwi @ splice_from w wsize ((fwi + 1) mod wsize) n"

fun lda_loop :: "lda \<Rightarrow> vec list \<Rightarrow> vec list \<times> lda" where
  "lda_loop l [] = ([], l)"
| "lda_loop l (x # xs) =
     (let l' = lda_push l x;
          spliced_row = splice_from (feat_window l') (window_size l') (window_pos l') (window_size l')
      in case lda_loop l' xs of (rs, l'') \<Rightarrow> (spliced_row # rs, l''))"

definition inner :: "vec \<Rightarrow> vec \<Rightarrow> real" where
  "inner u v = sum_list (map2 (*) u v)"

definition times_transpose :: "vec list \<Rightarrow> matrix \<Rightarrow> matrix" where
  "times_transpose A T = \<lparr>num_cols = length (rows T), rows = map (\<lambda>a. map (inner a) (rows T)) A\<rparr>"

text \<open>
  Lines 111 to 136, behind the early return. \<open>Resize\<close> takes zero rows only together with zero
  columns (Kaldi's documentation: zero is OK as long as both are zero), so no row is allowed to
  be left for the output.
\<close>

definition lda_output :: "matrix \<Rightarrow> lda \<Rightarrow> fault + matrix \<times> lda" where
  "lda_output feat_in l =
     (case (if feat_window l = []
        then map_option (\<lambda>l'. (window_size l - window_center l - 1, l')) (LdaInput_InitFeatWindow (rows feat_in) l)
        else Some (0, l)) of
       None \<Rightarrow> Inl OutOfBounds
     | Some (cur_feat, l1) \<Rightarrow>
         if length (rows feat_in) = cur_feat
           \<or> num_cols feat_in \<noteq> lfeat_dim l \<or> num_cols (transform l) \<noteq> lfeat_dim l * window_size l
         then Inl KaldiError
         else (case lda_loop l1 (drop cur_feat (rows feat_in)) of (spliced_feats, l2) \<Rightarrow>
           Inr (times_transpose spliced_feats (transform l), l2)))"

definition LdaInput_Compute :: "(nat \<Rightarrow> nat \<Rightarrow> matrix) \<Rightarrow> 's feat_input \<Rightarrow> (lda \<times> 's) feat_input" where
  "LdaInput_Compute alloc input out = (\<lambda>(l, s).
     if num_cols out \<noteq> trans_rows l then (Inl KaldiError, l, s)
     else case input (alloc (length (rows out)) (lfeat_dim l)) s of
       (Inl e, s') \<Rightarrow> (Inl e, l, s')
     | (Inr (more_data, feat_in), s') \<Rightarrow>
         let n = length (rows feat_in) in
         if n \<noteq> length (rows out) \<and> (n = 0 \<or> (n < window_size l \<and> feat_window l = []))
         then (Inr (more_data, no_rows), l, s')
         else (case lda_output feat_in l of
             Inl e \<Rightarrow> (Inl e, l, s')
           | Inr (output, l') \<Rightarrow> (Inr (more_data, output), l', s')))"

text \<open>\<open>LdaTransform\<close> of \<open>DecodeWorker.cc\<close>, the copy of this code for a whole recording.\<close>

fun splice_loop :: "nat \<Rightarrow> vec list \<Rightarrow> nat \<Rightarrow> vec list \<Rightarrow> vec list" where
  "splice_loop wsize w pos [] = []"
| "splice_loop wsize w pos (x # xs) =
     (let w' = w[pos := x]; pos' = (pos + 1) mod wsize
      in splice_from w' wsize pos' wsize # splice_loop wsize w' pos' xs)"

definition LdaTransform :: "matrix \<Rightarrow> matrix \<Rightarrow> nat \<Rightarrow> nat \<Rightarrow> fault + matrix" where
  "LdaTransform cmvn T left_context right_context =
     (let wsize = left_context + right_context + 1; cur_feat = wsize - left_context - 1 in
      case first_window left_context wsize (rows cmvn) of
        None \<Rightarrow> Inl OutOfBounds
      | Some w \<Rightarrow>
          if length (rows cmvn) = cur_feat \<or> num_cols T \<noteq> num_cols cmvn * wsize then Inl KaldiError
          else Inr (times_transpose (splice_loop wsize w 0 (drop cur_feat (rows cmvn))) T))"

section \<open>What the spliced windows are\<close>

lemma ring_contents_rotate: "p < length w \<Longrightarrow> ring_contents w p = rotate p w"
  by (simp add: ring_contents_def rotate_drop_take)

lemma splice_from_rotate:
  "fwi < length w \<Longrightarrow> splice_from w (length w) fwi n = concat (map (\<lambda>i. w ! ((fwi + i) mod length w)) [0..<n])"
proof (induction n arbitrary: fwi)
  case (Suc n)
  have "map (\<lambda>i. w ! ((fwi + i) mod length w)) [0..<Suc n]
      = w ! fwi # map (\<lambda>i. w ! (((fwi + 1) mod length w + i) mod length w)) [0..<n]"
    using Suc.prems by (simp add: upt_conv_Cons map_Suc_upt [symmetric] mod_add_left_eq comp_def del: upt_Suc)
  moreover have "(fwi + 1) mod length w < length w" using Suc.prems by (intro mod_less_divisor) auto
  ultimately show ?case using Suc.IH by simp
qed simp

lemma splice_ring:
  assumes "pos < length w"
  shows "splice_from w (length w) pos (length w) = concat (ring_contents w pos)"
proof -
  have "map (\<lambda>i. w ! ((pos + i) mod length w)) [0..<length w] = rotate pos w"
    by (rule nth_equalityI) (simp_all add: nth_rotate)
  then show ?thesis using assms by (simp add: splice_from_rotate ring_contents_rotate)
qed

definition lda_window :: "lda \<Rightarrow> vec list" where
  "lda_window l = ring_contents (feat_window l) (window_pos l)"

definition lda_full :: "lda \<Rightarrow> bool" where
  "lda_full l \<longleftrightarrow> length (feat_window l) = window_size l \<and> window_pos l < window_size l"

lemma lda_push_simps [simp]:
  "lfeat_dim (lda_push l x) = lfeat_dim l" "transform (lda_push l x) = transform l"
  "window_size (lda_push l x) = window_size l" "trans_rows (lda_push l x) = trans_rows l"
  "window_center (lda_push l x) = window_center l"
  by (simp_all add: lda_push_def)

interpretation ldawin: sliding_window lda_push lda_window lda_full
proof
  fix l :: lda and x
  assume ok: "lda_full l"
  show "lda_full (lda_push l x)" using ok by (simp add: lda_full_def lda_push_def)
  show "lda_window (lda_push l x) = tl (lda_window l) @ [x]"
    using ok ring_push [of "window_pos l" "feat_window l" x]
    by (simp add: lda_window_def lda_full_def lda_push_def)
  show "lda_window l \<noteq> []" using ok by (auto simp: lda_window_def lda_full_def ring_contents_def)
qed

lemma lda_window_length: "lda_full l \<Longrightarrow> length (lda_window l) = window_size l"
  by (simp add: lda_window_def lda_full_def)

lemma lda_loop_windows:
  "lda_full l \<Longrightarrow> lda_loop l xs = (map concat (ldawin.windows l xs), foldl lda_push l xs)"
proof (induction xs arbitrary: l)
  case (Cons x xs)
  have full: "lda_full (lda_push l x)" by (rule ldawin.push_ok [OF Cons.prems])
  then have "splice_from (feat_window (lda_push l x)) (window_size l) (window_pos (lda_push l x)) (window_size l)
      = concat (lda_window (lda_push l x))"
    using splice_ring [of "window_pos (lda_push l x)" "feat_window (lda_push l x)"]
    by (simp add: lda_full_def lda_window_def)
  then show ?case using Cons.IH [OF full] by (simp add: Let_def)
qed simp

lemma splice_loop_windows:
  "lda_full l \<Longrightarrow> splice_loop (window_size l) (feat_window l) (window_pos l) xs
     = map concat (ldawin.windows l xs)"
proof (induction xs arbitrary: l)
  case (Cons x xs)
  have full: "lda_full (lda_push l x)" by (rule ldawin.push_ok [OF Cons.prems])
  let ?l = "lda_push l x"
  have sim: "(feat_window l)[window_pos l := x] = feat_window ?l"
    "(window_pos l + 1) mod window_size l = window_pos ?l" by (simp_all add: lda_push_def)
  have "splice_from (feat_window ?l) (window_size l) (window_pos ?l) (window_size l) = concat (lda_window ?l)"
    using full splice_ring [of "window_pos ?l" "feat_window ?l"] by (simp add: lda_full_def lda_window_def)
  then show ?case using Cons.IH [OF full] unfolding splice_loop.simps Let_def sim by simp
qed simp

text \<open>The output for one window.\<close>

definition lda_emit :: "matrix \<Rightarrow> vec list \<Rightarrow> vec" where
  "lda_emit T w = map (inner (concat w)) (rows T)"

definition lda_spec :: "matrix \<Rightarrow> nat \<Rightarrow> nat \<Rightarrow> vec list \<Rightarrow> vec list" where
  "lda_spec T left right feats =
     map (\<lambda>k. lda_emit T (context_rows left right feats k)) [0..<length feats - right]"

lemma rows_times_transpose: "rows (times_transpose (map concat ws) T) = map (lda_emit T) ws"
  by (simp add: times_transpose_def lda_emit_def)

definition start_lda :: "nat \<Rightarrow> matrix \<Rightarrow> nat \<Rightarrow> nat \<Rightarrow> vec list \<Rightarrow> lda" where
  "start_lda d T left right feats = (OnlineLdaInput_new d T left right)
     \<lparr>feat_window := replicate (left + 1) (hd feats) @ take right feats\<rparr>"

lemma start_lda_full:
  assumes "feats \<noteq> []" and "right \<le> length feats"
  shows "lda_full (start_lda d T left right feats)"
    and "lda_window (start_lda d T left right feats) = replicate (left + 1) (hd feats) @ take right feats"
  using assms by (simp_all add: start_lda_def OnlineLdaInput_new_def lda_full_def lda_window_def ring_contents_def)

lemma LdaTransform_spec:
  "LdaTransform cmvn T left right =
     (if rows cmvn = [] \<or> length (rows cmvn) < right then Inl OutOfBounds
      else if length (rows cmvn) = right \<or> num_cols T \<noteq> num_cols cmvn * (left + right + 1) then Inl KaldiError
      else Inr \<lparr>num_cols = length (rows T), rows = lda_spec T left right (rows cmvn)\<rparr>)"
proof (cases "rows cmvn = [] \<or> length (rows cmvn) < right")
  case True
  then show ?thesis using first_window_short [of "rows cmvn" right left] by (simp add: LdaTransform_def Let_def)
next
  case False
  let ?l = "start_lda 0 T left right (rows cmvn)"
  have full: "lda_full ?l" "lda_window ?l = replicate (left + 1) (hd (rows cmvn)) @ take right (rows cmvn)"
    using False by (intro start_lda_full; auto)+
  have "splice_loop (left + right + 1) (replicate (left + 1) (hd (rows cmvn)) @ take right (rows cmvn)) 0
      (drop right (rows cmvn)) = map concat (map (context_rows left right (rows cmvn)) [0..<length (rows cmvn) - right])"
    using splice_loop_windows [OF full(1), of "drop right (rows cmvn)"] ldawin.windows_context [OF full] False
    by (simp add: start_lda_def OnlineLdaInput_new_def)
  then show ?thesis
    using False first_window_eq [of "rows cmvn" right left]
    by (simp add: LdaTransform_def Let_def times_transpose_def lda_spec_def lda_emit_def)
qed

text \<open>
  C37. \<open>LdaTransform\<close> computes, for every frame of the recording except the last
  \<open>right_context\<close> ones, the transform of the frames around it, where the first frame stands for
  those before it; a recording with fewer than \<open>right_context\<close> frames, or with none, is read out
  of bounds, and one with exactly that many leaves no frame to transform, which Kaldi refuses.
\<close>

theorem LdaTransform_outcome:
  "LdaTransform cmvn T left right =
     (if rows cmvn = [] \<or> length (rows cmvn) < right then Inl OutOfBounds
      else if right < length (rows cmvn) \<and> num_cols T = num_cols cmvn * (left + right + 1)
        then Inr \<lparr>num_cols = length (rows T), rows = lda_spec T left right (rows cmvn)\<rparr>
      else Inl KaldiError)"
  unfolding LdaTransform_spec by auto

section \<open>OnlineLdaInput computes the same, batch by batch\<close>

definition lda_ready :: "nat \<Rightarrow> matrix \<Rightarrow> matrix \<Rightarrow> lda \<Rightarrow> bool" where
  "lda_ready d T out l \<longleftrightarrow> lda_full l \<and> transform l = T \<and> lfeat_dim l = d
     \<and> num_cols T = d * window_size l \<and> trans_rows l = length (rows T)
     \<and> num_cols out = length (rows T) \<and> rows out \<noteq> []"

definition lda_long :: "nat \<Rightarrow> matrix \<Rightarrow> nat \<Rightarrow> nat \<Rightarrow> matrix \<Rightarrow> vec list \<Rightarrow> bool" where
  "lda_long d T left right out xs \<longleftrightarrow> rows out \<noteq> [] \<and> right < length xs
     \<and> (length xs = length (rows out) \<or> left + right < length xs)
     \<and> num_cols T = d * (left + right + 1) \<and> num_cols out = length (rows T)"

lemma lda_ready_push: "lda_ready d T out l \<Longrightarrow> lda_ready d T out (lda_push l x)"
  using ldawin.push_ok [of l x] by (simp add: lda_ready_def)

lemma LdaInput_Compute_ready:
  assumes ready: "lda_ready d T out l" and m: "input (alloc (length (rows out)) d) s = (Inr m, u)"
    and "matrix_ok d (snd m)"
  shows "\<exists>m'. LdaInput_Compute alloc input out (l, s) = (Inr m', foldl lda_push l (rows (snd m)), u)
    \<and> fst m' = fst m \<and> rows (snd m') = map (lda_emit T) (ldawin.windows l (rows (snd m)))"
proof -
  obtain flag feat_in where m': "m = (flag, feat_in)" by fastforce
  have ne: "feat_window l \<noteq> []" using ready by (auto simp: lda_ready_def lda_full_def)
  have "lda_loop l (rows feat_in) = (map concat (ldawin.windows l (rows feat_in)), foldl lda_push l (rows feat_in))"
    using ready by (intro lda_loop_windows) (simp add: lda_ready_def)
  moreover have "num_cols feat_in = d" using assms(3) m' by (simp add: matrix_ok_def)
  ultimately show ?thesis
    using assms m' ne
    by (auto simp: LdaInput_Compute_def lda_ready_def lda_output_def Let_def no_rows_def
        rows_times_transpose)
qed

lemma LdaInput_Compute_first:
  assumes m: "input (alloc (length (rows out)) d) s = (Inr m, u)" and ok: "matrix_ok d (snd m)"
    and long: "lda_long d T left right out (rows (snd m))"
  shows "\<exists>m'. LdaInput_Compute alloc input out (OnlineLdaInput_new d T left right, s)
      = (Inr m', foldl lda_push (start_lda d T left right (rows (snd m))) (drop right (rows (snd m))), u)
    \<and> fst m' = fst m \<and> rows (snd m') = map (lda_emit T)
      (ldawin.windows (start_lda d T left right (rows (snd m))) (drop right (rows (snd m))))"
proof -
  let ?new = "OnlineLdaInput_new d T left right" and ?x = "rows (snd m)"
  let ?l = "start_lda d T left right ?x"
  have x: "?x \<noteq> []" "right \<le> length ?x" using long by (auto simp: lda_long_def)
  have "LdaInput_InitFeatWindow ?x ?new = Some ?l"
    using first_window_eq [OF x, of left]
    by (simp add: LdaInput_InitFeatWindow_def OnlineLdaInput_new_def start_lda_def)
  then have "lda_output (snd m) ?new
      = Inr (times_transpose (map concat (ldawin.windows ?l (drop right ?x))) T, foldl lda_push ?l (drop right ?x))"
    using lda_loop_windows [OF start_lda_full(1) [OF x], of d T left "drop right ?x"] ok long
    by (simp add: lda_output_def OnlineLdaInput_new_def matrix_ok_def start_lda_def lda_long_def)
  then show ?thesis
    using m long x
    by (auto simp: LdaInput_Compute_def OnlineLdaInput_new_def Let_def lda_long_def rows_times_transpose
        split: prod.splits)
qed

interpretation ldain: windowed_input lda_push lda_window "lda_ready d T out" "LdaInput_Compute alloc input out"
    "input (alloc (length (rows out)) d)" "matrix_ok d" "lda_emit T" "OnlineLdaInput_new d T left right"
    "start_lda d T left right" "lda_long d T left right out" left right
  for d T out alloc input left right
proof
  fix l :: lda and x
  assume "lda_ready d T out l"
  then have full: "lda_full l" by (simp add: lda_ready_def)
  show "lda_window (lda_push l x) = tl (lda_window l) @ [x]" by (rule ldawin.push_win [OF full])
  show "lda_window l \<noteq> []" by (rule ldawin.win_not_Nil [OF full])
next
  fix l :: lda and x
  assume "lda_ready d T out l"
  then show "lda_ready d T out (lda_push l x)" by (rule lda_ready_push)
next
  fix l s m u
  assume "lda_ready d T out l" "input (alloc (length (rows out)) d) s = (Inr m, u)" "matrix_ok d (snd m)"
  then show "\<exists>m'. LdaInput_Compute alloc input out (l, s) = (Inr m', foldl lda_push l (rows (snd m)), u)
    \<and> fst m' = fst m \<and> rows (snd m') = map (lda_emit T) (ldawin.windows l (rows (snd m)))"
    by (rule LdaInput_Compute_ready)
next
  fix s m u
  assume "input (alloc (length (rows out)) d) s = (Inr m, u)" "matrix_ok d (snd m)"
    "lda_long d T left right out (rows (snd m))"
  then show "\<exists>m'. LdaInput_Compute alloc input out (OnlineLdaInput_new d T left right, s)
      = (Inr m', foldl lda_push (start_lda d T left right (rows (snd m))) (drop right (rows (snd m))), u)
    \<and> fst m' = fst m \<and> rows (snd m') = map (lda_emit T)
      (ldawin.windows (start_lda d T left right (rows (snd m))) (drop right (rows (snd m))))"
    by (rule LdaInput_Compute_first)
next
  fix xs
  assume long: "lda_long d T left right out xs"
  then have "xs \<noteq> []" "right \<le> length xs" by (auto simp: lda_long_def)
  with start_lda_full [OF this] long show "xs \<noteq> [] \<and> right \<le> length xs \<and> lda_ready d T out (start_lda d T left right xs)
      \<and> lda_window (start_lda d T left right xs) = replicate (left + 1) (hd xs) @ take right xs"
    by (simp add: lda_ready_def lda_long_def start_lda_def OnlineLdaInput_new_def)
qed

lemma lda_batches:
  assumes "repeats (input (alloc (length (rows out)) d)) (Suc n) s = (Inr (m # ms), t)"
    and "\<forall>m \<in> set (m # ms). matrix_ok d (snd m)"
    and "lda_long d T left right out (rows (snd m))"
  shows "\<exists>outs l. repeats (LdaInput_Compute alloc input out) (Suc n) (OnlineLdaInput_new d T left right, s)
      = (Inr outs, l, t)
    \<and> map fst outs = map fst (m # ms)
    \<and> LdaTransform \<lparr>num_cols = d, rows = all_rows (m # ms)\<rparr> T left right
        = Inr \<lparr>num_cols = length (rows T), rows = all_rows outs\<rparr>"
proof -
  obtain outs l where o: "repeats (LdaInput_Compute alloc input out) (Suc n) (OnlineLdaInput_new d T left right, s)
      = (Inr outs, l, t)" "map fst outs = map fst (m # ms)"
    "all_rows outs = lda_spec T left right (all_rows (m # ms))"
    using ldain.emitted [where alloc = alloc and out = out and input = input and d = d, OF assms]
    unfolding lda_spec_def by blast
  have "all_rows (m # ms) \<noteq> []" "right < length (all_rows (m # ms))" "num_cols T = d * (left + right + 1)"
    using assms(3) by (auto simp: lda_long_def)
  then have "LdaTransform \<lparr>num_cols = d, rows = all_rows (m # ms)\<rparr> T left right
      = Inr \<lparr>num_cols = length (rows T), rows = all_rows outs\<rparr>"
    unfolding LdaTransform_spec by (simp add: o(3))
  with o(1,2) show ?thesis by blast
qed

text \<open>
  C12. The batching of \<open>OnlineLdaInput\<close> is transparent but for short batches at the beginning: the
  batches that come out, put together, are what \<open>LdaTransform\<close> computes at once for all the rows
  from the first batch on that is as long as requested or at least as long as the window (so
  without the last \<open>right_context\<close> frames, as it does); the batches before that are thrown away;
  and the answers whether there is more data are those of the wrapped input.
\<close>

theorem lda_online_is_batch:
  assumes "repeats (input (alloc (length (rows out)) d)) n s = (Inr ms, t)"
    and "\<forall>m \<in> set ms. matrix_ok d (snd m)"
    and "num_cols T = d * (left + right + 1)" and "num_cols out = length (rows T)" and "right < length (rows out)"
  shows "\<exists>outs l. repeats (LdaInput_Compute alloc input out) n (OnlineLdaInput_new d T left right, s)
      = (Inr outs, l, t)
    \<and> map fst outs = map fst ms
    \<and> (let heard = all_rows (dropWhile (short_batch (left + right + 1) out) ms) in
        if heard = [] then all_rows outs = []
        else LdaTransform \<lparr>num_cols = d, rows = heard\<rparr> T left right
          = Inr \<lparr>num_cols = length (rows T), rows = all_rows outs\<rparr>)"
proof -
  let ?short = "short_batch (left + right + 1) out"
  let ?heard = "all_rows (dropWhile ?short ms)"
  have long: "lda_long d T left right out (rows (snd m))" if "\<not> ?short m" for m
    using that assms(3-5) by (auto simp: lda_long_def short_batch_def)
  have "LdaInput_Compute alloc input out (OnlineLdaInput_new d T left right, x)
      = (Inr (fst m, no_rows), OnlineLdaInput_new d T left right, u)"
    if "input (alloc (length (rows out)) d) x = (Inr m, u)" "?short m" for x m u
    using that assms(4) by (cases m) (auto simp: LdaInput_Compute_def OnlineLdaInput_new_def Let_def short_batch_def)
  from ldain.all_emitted [where alloc = alloc and out = out and input = input and d = d and T = T and left = left
      and right = right, OF this long assms(1,2)]
  obtain outs l where o: "repeats (LdaInput_Compute alloc input out) n (OnlineLdaInput_new d T left right, s)
      = (Inr outs, l, t)" "map fst outs = map fst ms" "all_rows outs = lda_spec T left right ?heard"
    unfolding lda_spec_def by blast
  have "right < length ?heard" if ne: "?heard \<noteq> []"
  proof -
    obtain m ms' where m: "dropWhile ?short ms = m # ms'"
    proof (cases "dropWhile ?short ms")
      case Nil
      then show ?thesis using ne by (simp only: list.map all_rows_def concat.simps)
    qed
    then have "\<not> ?short m" using hd_dropWhile [of ?short ms] by simp
    from long [OF this] show ?thesis using m by (simp add: lda_long_def)
  qed
  then have "if ?heard = [] then all_rows outs = []
      else LdaTransform \<lparr>num_cols = d, rows = ?heard\<rparr> T left right = Inr \<lparr>num_cols = length (rows T), rows = all_rows outs\<rparr>"
    using o(3) assms(3) by (cases "?heard = []") (simp_all add: LdaTransform_spec lda_spec_def)
  with o(1,2) show ?thesis unfolding Let_def by blast
qed

text \<open>
  A short first batch is lost: if there are fewer rows than requested and than the window
  is long, they are dropped and the next batch starts a new stream, with its own first row in
  place of the frames before it.
\<close>

theorem lda_drops_short_first_batch:
  assumes "input (alloc (length (rows out)) d) s = (Inr m, u)"
    and "length (rows (snd m)) < left + right + 1" and "length (rows (snd m)) \<noteq> length (rows out)"
    and "num_cols out = length (rows T)"
  shows "repeats (LdaInput_Compute alloc input out) (Suc n) (OnlineLdaInput_new d T left right, s)
    = andthen (repeats (LdaInput_Compute alloc input out) n) (\<lambda>outs. ret ((fst m, no_rows) # outs))
        (OnlineLdaInput_new d T left right, u)"
proof -
  have "LdaInput_Compute alloc input out (OnlineLdaInput_new d T left right, s)
      = (Inr (fst m, no_rows), OnlineLdaInput_new d T left right, u)"
    using assms by (cases m) (auto simp: LdaInput_Compute_def OnlineLdaInput_new_def Let_def)
  then show ?thesis by (simp add: andthen_Inr)
qed

section \<open>Witnesses\<close>

definition sum_transform :: matrix where
  "sum_transform = \<lparr>num_cols = 6, rows = [[1, 0, 1, 0, 1, 0], [0, 1, 0, 1, 0, 1]]\<rparr>"

text \<open>Two rows are asked for: the first batch, of one row, is short.\<close>

theorem lda_online_is_batch_witness:
  "\<exists>outs l. repeats (LdaInput_Compute zeros scripted (zeros 2 2)) 3
      (OnlineLdaInput_new 2 sum_transform 1 1, [(True, \<lparr>num_cols = 2, rows = [[4, 4]]\<rparr>), (True, batch2 1 5), (False, batch2 7 9)])
      = (Inr outs, l, [])
    \<and> map fst outs = [True, True, False]
    \<and> LdaTransform \<lparr>num_cols = 2, rows = [[1, 0], [5, 0], [7, 0], [9, 0]]\<rparr> sum_transform 1 1
        = Inr \<lparr>num_cols = length (rows sum_transform), rows = all_rows outs\<rparr>"
proof -
  let ?ms = "[(True, \<lparr>num_cols = 2, rows = [[4, 4]]\<rparr>), (True, batch2 1 5), (False, batch2 7 9)]"
  have run: "repeats (scripted (zeros (length (rows (zeros 2 2))) 2)) 3 ?ms = (Inr ?ms, [])"
    by (simp add: andthen_Inr numeral_3_eq_3)
  have ok: "\<forall>m \<in> set ?ms. matrix_ok 2 (snd m)"
    by (simp add: matrix_ok_def batch2_def)
  have dims: "num_cols sum_transform = 2 * (1 + 1 + 1)" "num_cols (zeros 2 2) = length (rows sum_transform)"
    "1 < length (rows (zeros 2 2))" by (simp_all add: sum_transform_def zeros_def)
  show ?thesis
    using lda_online_is_batch [where alloc = zeros and out = "zeros 2 2" and input = scripted and d = 2,
        OF run ok dims]
    by (simp add: batch2_def short_batch_def zeros_def)
qed

theorem lda_drops_short_first_batch_witness:
  "repeats (LdaInput_Compute zeros scripted (zeros 5 2)) (Suc 0)
      (OnlineLdaInput_new 2 sum_transform 1 1, [(True, batch2 1 5)])
    = (Inr [(True, no_rows)], OnlineLdaInput_new 2 sum_transform 1 1, [])"
  using lda_drops_short_first_batch [of scripted zeros "zeros 5 2" 2 "[(True, batch2 1 5)]" "(True, batch2 1 5)"
      "[]" 1 1 sum_transform 0]
  by (simp add: zeros_def batch2_def sum_transform_def)

end
