(* ===== verification/OnlineSession.thy ===== *)
theory OnlineSession
  imports Results DecodeLoop Vad Lda
begin

text \<open>
  \<open>DecodeWorker::OnlineDecode\<close> (\<open>DecodeWorker.cc\<close>): the objects it wires together, from the
  socket over the voice activity detector, the normalisation and the LDA to the decodable and
  the decoder, and the loop that sends the results. Kaldi's token search, the acoustic
  scores, the MFCC computation and OpenFst's graphs are parameters, as in the component
  theories.
\<close>

section \<open>The constants\<close>

definition kSampleFreq :: nat where
  "kSampleFreq = 16000"

definition frame_length_samples :: nat where
  "frame_length_samples = 25 * (kSampleFreq div 1000)"

definition frame_shift_samples :: nat where
  "frame_shift_samples = 10 * (kSampleFreq div 1000)"

definition vad_hangover_frames :: nat where
  "vad_hangover_frames = (500 * (kSampleFreq div 1000) - frame_length_samples) div frame_shift_samples + 1"

definition vad_buffer_samples :: nat where
  "vad_buffer_samples = 500 * (kSampleFreq div 1000)"

definition online_batch_size :: nat where
  "online_batch_size = 27"

definition cmn_window :: nat where
  "cmn_window = 600"

lemmas online_constants = kSampleFreq_def frame_length_samples_def frame_shift_samples_def
  vad_hangover_frames_def vad_buffer_samples_def online_batch_size_def cmn_window_def

section \<open>The chain of inputs\<close>

text \<open>
  What belongs to Kaldi: the feature extractor, the cutting into windows, the number that the
  bits of a \<open>float\<close> stand for, the number of cepstra, the contents of uninitialised memory, the
  result for a constant feature column, the (scaled) acoustic score, and the value of a
  threshold that is no ordinary number.
\<close>

record kaldi_env =
  mfcc_rows :: "sample list \<Rightarrow> vec list"
  extract_windows :: "sample list \<Rightarrow> sample list list"
  float_value :: "sample \<Rightarrow> real"
  num_ceps :: nat
  junk_matrix :: "nat \<Rightarrow> nat \<Rightarrow> matrix"
  junk_sample :: sample
  constant_rows :: "vec list \<Rightarrow> vec list"
  score :: "vec \<Rightarrow> int \<Rightarrow> real"
  special_float :: real

type_synonym vad_source = "(sample, simple_vad) vad_input \<times> bool"
type_synonym 's chain = "lda \<times> cmn \<times> vad_source \<times> 's"

text \<open>\<open>OnlineVadFeInput\<close> on the socket. The listener's \<open>ForceEndUtterance\<close> is recorded in the
  flag. A length that is no \<open>int\<close> is not the number of samples requested either.\<close>

definition socket_vad_env :: "'s os \<Rightarrow> kaldi_env \<Rightarrow> ('s, sample, simple_vad, vec) vad_env" where
  "socket_vad_env os K = \<lparr>rd = (\<lambda>data. andthen (RemoteRead os data) (\<lambda>(n, d). ret (nat n, d))),
     windows_of = extract_windows K, extract_feats = mfcc_rows K,
     vad_proc = (\<lambda>v w. Process v (map (float_value K) w)),
     vad_initialize = (\<lambda>v w. fst (SimpleEnergyVad_Initialize v (map (map (float_value K)) (extract_windows K w)))),
     vad_timeout = None\<rparr>"

definition mfcc_matrix :: "kaldi_env \<Rightarrow> vec list \<Rightarrow> matrix" where
  "mfcc_matrix K rs = \<lparr>num_cols = (if rs = [] then 0 else num_ceps K), rows = rs\<rparr>"

definition ends_speech :: "vad_event \<Rightarrow> bool" where
  "ends_speech e \<longleftrightarrow> (case e of OnSpeechStart i \<Rightarrow> False | OnSpeechEnd i \<Rightarrow> True)"

definition VadFeatures :: "nat \<Rightarrow> 's os \<Rightarrow> kaldi_env \<Rightarrow> (vad_source \<times> 's) feat_input" where
  "VadFeatures fuel os K out = (\<lambda>((st, forced), s).
     case VadInput_Compute fuel (socket_vad_env os K) (junk_sample K) (length (rows out)) st s of
       None \<Rightarrow> (Inl OutOfFuel, (st, forced), s)
     | Some (Inl e, t) \<Rightarrow> (Inl e, (st, forced), t)
     | Some (Inr (more_data, st', feats, events), t) \<Rightarrow>
         (Inr (more_data, case feats of None \<Rightarrow> out | Some rs \<Rightarrow> mfcc_matrix K rs),
           (st', forced \<or> list_ex ends_speech events), t))"

definition chain_compute :: "nat \<Rightarrow> 's os \<Rightarrow> kaldi_env \<Rightarrow> nat \<Rightarrow> nat \<Rightarrow> ('s chain, vec list \<times> bool) prog" where
  "chain_compute fuel os K feat_dim batch =
     andthen (LdaInput_Compute (junk_matrix K)
         (CmvnInput_Compute (junk_matrix K) (constant_rows K) (VadFeatures fuel os K))
         (junk_matrix K batch feat_dim))
       (\<lambda>(more_data, m). ret (rows m, more_data))"

definition conf_float :: "kaldi_env \<Rightarrow> config \<Rightarrow> string \<Rightarrow> real \<times> config" where
  "conf_float K m key = (case GetFloat m key of
     (Some x, m') \<Rightarrow> (x, m') | (None, m') \<Rightarrow> (special_float K, m'))"

text \<open>Lines 240 to 283: the objects, for the contents of \<open>vad.conf\<close> if it can be read.\<close>

definition OnlineDecode_vad :: "kaldi_env \<Rightarrow> string option \<Rightarrow> fault + simple_vad" where
  "OnlineDecode_vad K vad_conf =
     (case Config_new vad_conf of
        Inl e \<Rightarrow> Inl e
      | Inr conf \<Rightarrow> (case conf_float K conf ''onset_threshold'' of (onset, conf1) \<Rightarrow>
          (case conf_float K conf1 ''offset_threshold'' of (offs, conf2) \<Rightarrow>
            (case conf_float K conf2 ''recover_threshold'' of (recov, conf3) \<Rightarrow>
              Inr (SimpleEnergyVad_new onset offs recov (int vad_hangover_frames))))))"

definition OnlineDecode_chain :: "kaldi_env \<Rightarrow> matrix \<Rightarrow> nat \<Rightarrow> nat \<Rightarrow> simple_vad \<Rightarrow> 's \<Rightarrow> 's chain" where
  "OnlineDecode_chain K T left_context right_context v s =
     (OnlineLdaInput_new (num_ceps K) T left_context right_context,
      OnlineCMN_new (num_ceps K) cmn_window,
      (AddVadListener (OnlineVadFeInput_new frame_length_samples frame_shift_samples vad_buffer_samples v), False),
      s)"

section \<open>The search over the chain\<close>

text \<open>
  Kaldi's \<open>FasterDecoder\<close> as it is used by \<open>OnlineFasterDecoder\<close>: the emitting step asks the
  decodable for scores, frame by frame and index by index.
\<close>

record ('t, 'c) token_search =
  ts_emitting :: "(int \<Rightarrow> int \<Rightarrow> ('c, real) prog) \<Rightarrow> int \<Rightarrow> real \<Rightarrow> ('t \<times> 'c, real) prog"
  ts_nonemitting :: "real option \<Rightarrow> 't \<Rightarrow> 't"
  ts_elapsed :: "'t \<Rightarrow> real \<times> 't"
  ts_clear :: "'t \<Rightarrow> 't"
  ts_new_addr :: "'t \<Rightarrow> nat \<times> 't"
  ts_insert :: "int \<Rightarrow> tokptr \<Rightarrow> 't \<Rightarrow> 't"
  ts_toks :: "'t \<Rightarrow> (int \<times> tokptr) list"
  ts_reached :: "'t \<Rightarrow> bool"

type_synonym ('t, 's) session = "'t \<times> vec decodable \<times> 's chain"

fun set_forced :: "bool \<Rightarrow> vec decodable \<times> 's chain \<Rightarrow> vec decodable \<times> 's chain" where
  "set_forced b (d, l, c, (v, forced), s) = (d, l, c, (v, b), s)"

fun was_forced :: "vec decodable \<times> 's chain \<Rightarrow> bool" where
  "was_forced (d, l, c, (v, forced), s) = forced"

definition online_search :: "('t, vec decodable \<times> 's chain) token_search \<Rightarrow> nat \<Rightarrow> 's os \<Rightarrow> kaldi_env \<Rightarrow> nat
    \<Rightarrow> ('t, 's) session search" where
  "online_search T fuel os K feat_dim = \<lparr>
     is_last_frame = (\<lambda>(t, d, c) f. IsLastFrame d f),
     process_emitting = (\<lambda>f beam (t, x).
       case ts_emitting T (\<lambda>frm index. LogLikelihood (chain_compute fuel os K feat_dim) (score K)
           online_batch_size frm index) f beam (t, set_forced False x) of
         (Inl e, y) \<Rightarrow> (Inl e, y)
       | (Inr weight_cutoff, (t', x')) \<Rightarrow> (Inr (weight_cutoff, was_forced x'), (t', x'))),
     process_nonemitting = (\<lambda>cutoff (t, x). (ts_nonemitting T cutoff t, x)),
     elapsed_time = (\<lambda>(t, x). case ts_elapsed T t of (r, t') \<Rightarrow> (r, (t', x))),
     clear_toks = (\<lambda>(t, x). (ts_clear T t, x)),
     new_addr = (\<lambda>(t, x). case ts_new_addr T t of (a, t') \<Rightarrow> (a, (t', x))),
     insert_tok = (\<lambda>k p (t, x). (ts_insert T k p t, x))\<rparr>"

section \<open>The loop\<close>

text \<open>
  What the loop uses: the decoder's search, sending a result, the active tokens, and OpenFst.
  The second component of a turn's state is what has been written to \<open>cerr\<close>.
\<close>

record 'w loop_env =
  le_search :: "'w search"
  le_send :: "bool \<Rightarrow> string \<Rightarrow> ('w, unit) prog"
  le_toks :: "'w \<Rightarrow> (int \<times> tokptr) list"
  le_reached :: "'w \<Rightarrow> bool"
  le_graph :: graph
  le_rmeps :: "lattice \<Rightarrow> lattice"
  le_worse :: "token \<Rightarrow> token \<Rightarrow> bool"
  le_symbols :: "lattice \<Rightarrow> int list"
  le_table :: symbol_table
  le_opts :: decoder_opts

definition send_result :: "'w loop_env \<Rightarrow> bool \<Rightarrow> lattice \<Rightarrow> ('w, string) prog" where
  "send_result E end_utterance L =
     (case GetPartialResult (le_symbols E L) (le_table E) of
        Inl e \<Rightarrow> fail e
      | Inr result \<Rightarrow> andthen (le_send E end_utterance result) (\<lambda>_. ret result))"

definition OnlineDecode_report :: "'w loop_env \<Rightarrow> DecodeState \<Rightarrow> decoder \<Rightarrow> string \<Rightarrow> ('w, decoder \<times> string) prog" where
  "OnlineDecode_report E st d cerr = (\<lambda>w.
     if state_code st AND (state_code kEndUtt OR state_code kEndFeats) \<noteq> 0 then
       (case FinishTraceBack (le_graph E) (le_rmeps E) (le_worse E) (le_reached E w) (le_toks E w) (dtraces d) of
          Inl e \<Rightarrow> (Inl e, w)
        | Inr L \<Rightarrow> andthen (send_result E True L) (\<lambda>result. ret (d, cerr @ result @ [CHR 0x0A])) w)
     else if state_code st AND state_code kEndBatch \<noteq> 0 then
       (case PartialTraceback (le_graph E) (le_rmeps E) (map snd (le_toks E w)) (dtraces d) of
          Inl e \<Rightarrow> (Inl e, w)
        | Inr (None, tr) \<Rightarrow> (Inr (d\<lparr>dtraces := tr\<rparr>, cerr), w)
        | Inr (Some L, tr) \<Rightarrow>
            andthen (send_result E False L) (\<lambda>result. ret (d\<lparr>dtraces := tr\<rparr>, cerr @ result)) w)
     else (Inr (d, cerr), w))"

definition OnlineDecode_turn :: "'w loop_env \<Rightarrow> decoder \<times> string \<Rightarrow> ('w, DecodeState \<times> decoder \<times> string) prog" where
  "OnlineDecode_turn E = (\<lambda>(d, cerr).
     andthen (Decode (le_opts E) (le_search E) (le_graph E) d) (\<lambda>(st, d').
     andthen (OnlineDecode_report E st d' cerr) (\<lambda>x. ret (st, x))))"

text \<open>The loop \<open>while (true)\<close> with fuel: the decoder and the text written when it is left.\<close>

fun OnlineDecode_loop :: "nat \<Rightarrow> 'w loop_env \<Rightarrow> decoder \<times> string \<Rightarrow> 'w
    \<Rightarrow> ((fault + decoder \<times> string) \<times> 'w) option" where
  "OnlineDecode_loop 0 E x w = None"
| "OnlineDecode_loop (Suc fuel) E x w =
     (case OnlineDecode_turn E x w of
        (Inl e, w') \<Rightarrow> Some (Inl e, w')
      | (Inr (st, x'), w') \<Rightarrow>
          if st = kEndFeats then Some (Inr x', w') else OnlineDecode_loop fuel E x' w')"

section \<open>OnlineDecode\<close>

record ('t, 's) online_env =
  oe_kaldi :: kaldi_env
  oe_search :: "('t, vec decodable \<times> 's chain) token_search"
  oe_new_search :: 't
  oe_lda :: matrix
  oe_left :: nat
  oe_right :: nat
  oe_graph :: graph
  oe_rmeps :: "lattice \<Rightarrow> lattice"
  oe_worse :: "token \<Rightarrow> token \<Rightarrow> bool"
  oe_symbols :: "lattice \<Rightarrow> int list"
  oe_table :: symbol_table
  oe_beam :: real
  oe_traces :: traces
  oe_vad_conf :: "string option"

definition online_loop_env :: "nat \<Rightarrow> ('t, 's) online_env \<Rightarrow> 's os \<Rightarrow> ('t, 's) session loop_env" where
  "online_loop_env fuel E os = \<lparr>
     le_search = online_search (oe_search E) fuel os (oe_kaldi E) (length (rows (oe_lda E))),
     le_send = (\<lambda>e str (t, d, l, c, v, s). case SendOutput os e str s of (r, s') \<Rightarrow> (r, (t, d, l, c, v, s'))),
     le_toks = (\<lambda>(t, x). ts_toks (oe_search E) t), le_reached = (\<lambda>(t, x). ts_reached (oe_search E) t),
     le_graph = oe_graph E, le_rmeps = oe_rmeps E, le_worse = oe_worse E, le_symbols = oe_symbols E,
     le_table = oe_table E, le_opts = OnlineFasterDecoderOpts_new\<rparr>"

definition OnlineDecode :: "nat \<Rightarrow> ('t, 's) online_env \<Rightarrow> 's os \<Rightarrow> 's \<Rightarrow> ((fault + unit) \<times> 's) option" where
  "OnlineDecode fuel E os s =
     (case OnlineDecode_vad (oe_kaldi E) (oe_vad_conf E) of
        Inl e \<Rightarrow> Some (Inl e, s)
      | Inr v \<Rightarrow>
          (case OnlineDecode_loop fuel (online_loop_env fuel E os)
              (OnlineFasterDecoder_new (oe_beam E) (oe_traces E), [])
              (oe_new_search E, Decodable_new,
                OnlineDecode_chain (oe_kaldi E) (oe_lda E) (oe_left E) (oe_right E) v s) of
            None \<Rightarrow> None
          | Some (r, (t, d, l, c, vs, s')) \<Rightarrow> Some (map_sum (\<lambda>e. e) (\<lambda>_. ()) r, s')))"

section \<open>What an utterance puts out\<close>

lemma search_frame_dtraces:
  "search_frame opts S d n t w = (Inr (d', t'), w') \<Longrightarrow> dtraces d' = dtraces d"
  by (auto simp: search_frame_def update_beam_def ForceEndUtterance_def
      split: prod.splits sum.splits if_splits)

lemma decode_loop_dtraces:
  "decode_loop opts S d n t w = (Inr (returned, d', n'), w') \<Longrightarrow> dtraces d' = dtraces d"
proof (induction opts S d n t w rule: decode_loop.induct)
  case (1 opts S d n t w)
  note simps = decode_loop.simps [of opts S d n t w]
  show ?case
  proof (cases "\<not> is_last_frame S w (frame d - 1) \<and> n < batch_size opts")
    case False
    then have "decode_loop opts S d n t w = (Inr (False, d, n), w)" by (subst simps) (simp only: if_False)
    then show ?thesis using "1.prems" by simp
  next
    case True
    obtain r w2 where s0: "search_frame opts S d n t w = (r, w2)" by fastforce
    have "r \<noteq> Inl e" for e
    proof
      assume "r = Inl e"
      then have "decode_loop opts S d n t w = (Inl e, w2)" using True s0 by (subst simps) simp
      then show False using "1.prems" by simp
    qed
    then obtain d2 t2 where s: "search_frame opts S d n t w = (Inr (d2, t2), w2)" using s0 by (cases r) auto
    have eq: "decode_loop opts S d n t w = (if forcingEndUtt d2
        then (Inr (True, d2\<lparr>dstate := kEndUtt, forcingEndUtt := False\<rparr>, n), w2)
        else decode_loop opts S (d2\<lparr>frame := frame d2 + 1, utt_frames := utt_frames d2 + 1\<rparr>) (n + 1) t2 w2)"
      using True s by (subst simps) simp
    show ?thesis
      using "1.IH" [OF True s [symmetric] refl refl] eq "1.prems" search_frame_dtraces [OF s]
      by (cases "forcingEndUtt d2") auto
  qed
qed

lemma Decode_dtraces:
  assumes "Decode opts S g d w = (Inr (st, d'), w')"
  shows "dstate d' = st \<and> (if dstate d = kEndBatch then dtraces d' = dtraces d
    else \<exists>r0. dtraces d' = \<lparr>immortal_tok = [r0], prev_immortal_tok = [r0]\<rparr>)"
proof -
  let ?reset = "if dstate d = kEndFeats \<or> dstate d = kEndUtt
        then ResetDecoder S g (dstate d = kEndFeats) d else ret d"
  obtain d0 w0 where r: "?reset w = (Inr d0, w0)"
    using assms unfolding Decode_def andthen_Inr_iff by blast
  have d0: "if dstate d = kEndBatch then dtraces d0 = dtraces d
      else \<exists>r0. dtraces d0 = \<lparr>immortal_tok = [r0], prev_immortal_tok = [r0]\<rparr>"
  proof (cases "dstate d")
    case kEndBatch
    then show ?thesis using r by simp
  qed (use r in \<open>auto simp: ResetDecoder_def Let_def split: if_splits prod.splits\<close>)
  obtain tstart w2 where t: "elapsed_time S (process_nonemitting S None w0) = (tstart, w2)" by fastforce
  have D: "Decode opts S g d w = (case decode_loop opts S d0 0 tstart w2 of
        (Inl e, w3) \<Rightarrow> (Inl e, w3)
      | (Inr (returned, d1, n), w3) \<Rightarrow> if returned then (Inr (dstate d1, d1), w3)
      else let st = (if n = batch_size opts \<and> \<not> is_last_frame S w3 (frame d1 - 1)
             then kEndBatch else kEndFeats) in (Inr (st, d1\<lparr>dstate := st\<rparr>), w3))"
    unfolding Decode_def by (subst andthen_Inr [of ?reset w d0 w0, OF r]) (simp add: t)
  obtain returned d1 n w3 where l: "decode_loop opts S d0 0 tstart w2 = (Inr (returned, d1, n), w3)"
    using assms D by (auto split: prod.splits sum.splits)
  have "dtraces d1 = dtraces d0" by (rule decode_loop_dtraces [OF l])
  moreover have "dtraces d' = dtraces d1" "dstate d' = st"
    using assms D l by (auto simp: Let_def split: if_splits)
  ultimately show ?thesis using d0 by simp
qed

text \<open>
  What is expected of the search: after a call of \<open>Decode\<close> there are active tokens, which descend
  from the root token and, unless the features have ended, have all come through the same
  number of frames, at least one; while an utterance goes on the tokens descend from those of
  the call before; sending a result leaves the search alone.
\<close>

definition root_of :: "decoder \<Rightarrow> token" where
  "root_of d = last (immortal_tok (dtraces d))"

definition active_ok :: "graph \<Rightarrow> token \<Rightarrow> DecodeState \<Rightarrow> tokptr list \<Rightarrow> bool" where
  "active_ok g r0 st T \<longleftrightarrow> (if st = kEndFeats then tokens_rooted g r0 T else tokens_ok g r0 T)"

lemma active_ok_rooted: "active_ok g r0 st T \<Longrightarrow> tokens_rooted g r0 T"
  by (simp add: active_ok_def tokens_ok_def split: if_splits)

lemma active_ok_batch [simp]: "active_ok g r0 kEndBatch T \<longleftrightarrow> tokens_ok g r0 T"
  by (simp add: active_ok_def)

definition search_expected :: "'w loop_env \<Rightarrow> bool" where
  "search_expected E \<longleftrightarrow>
     (\<forall>d w st d' w'. Decode (le_opts E) (le_search E) (le_graph E) d w = (Inr (st, d'), w') \<longrightarrow>
       (if dstate d = kEndBatch then
          \<forall>r0. tokens_ok (le_graph E) r0 (map snd (le_toks E w)) \<longrightarrow>
            active_ok (le_graph E) r0 st (map snd (le_toks E w'))
            \<and> (\<forall>q \<in> snd ` set (le_toks E w'). \<exists>p \<in> snd ` set (le_toks E w). suffix p q)
        else active_ok (le_graph E) (root_of d') st (map snd (le_toks E w')))) \<and>
     (\<forall>w. le_reached E w \<longrightarrow> (\<exists>(k, p) \<in> set (le_toks E w). fst_final (le_graph E) k \<noteq> None)) \<and>
     (\<forall>e str w r w'. le_send E e str w = (r, w') \<longrightarrow> le_toks E w' = le_toks E w \<and> le_reached E w' = le_reached E w) \<and>
     (\<forall>a b. le_worse E a b \<longleftrightarrow> tok_weight b < tok_weight a)"

text \<open>\<open>sent\<close> is the log of the connection: each result that is sent appends its flag and text, and
  the search sends none.\<close>

definition sends_logged :: "'w loop_env \<Rightarrow> ('w \<Rightarrow> (bool \<times> string) list) \<Rightarrow> bool" where
  "sends_logged E sent \<longleftrightarrow>
     (\<forall>e str w w'. le_send E e str w = (Inr (), w') \<longrightarrow> sent w' = sent w @ [(e, str)]) \<and>
     (\<forall>d w r w'. Decode (le_opts E) (le_search E) (le_graph E) d w = (r, w') \<longrightarrow> sent w' = sent w)"

definition tracing :: "'w loop_env \<Rightarrow> decoder \<Rightarrow> 'w \<Rightarrow> bool" where
  "tracing E d w \<longleftrightarrow> (\<exists>r0. active_ok (le_graph E) r0 (dstate d) (map snd (le_toks E w))
     \<and> traces_ok r0 (map snd (le_toks E w)) (dtraces d))"

lemma Decode_tracing:
  assumes E: "search_expected E" and D: "Decode (le_opts E) (le_search E) (le_graph E) d w = (Inr (st, d'), w')"
    and "dstate d = kEndBatch \<longrightarrow> tracing E d w"
  shows "tracing E d' w' \<and> (if dstate d = kEndBatch then immortal_tok (dtraces d') = immortal_tok (dtraces d)
    else path_words (immortal_tok (dtraces d')) = [])"
proof (cases "dstate d = kEndBatch")
  case True
  then obtain r0 where r0: "tokens_ok (le_graph E) r0 (map snd (le_toks E w))"
    "traces_ok r0 (map snd (le_toks E w)) (dtraces d)"
    using assms(3) True by (auto simp: tracing_def)
  then have new: "active_ok (le_graph E) r0 st (map snd (le_toks E w'))"
    "\<forall>q \<in> snd ` set (le_toks E w'). \<exists>p \<in> snd ` set (le_toks E w). suffix p q"
    using E D True unfolding search_expected_def by (metis active_ok_batch)+
  have "traces_ok r0 (map snd (le_toks E w')) (dtraces d)"
    using new(2) by (intro traces_ok_descend [OF r0(2)]) auto
  then show ?thesis using new(1) Decode_dtraces [OF D] True by (auto simp: tracing_def)
next
  case False
  then obtain r0 where d': "dtraces d' = \<lparr>immortal_tok = [r0], prev_immortal_tok = [r0]\<rparr>"
    using Decode_dtraces [OF D] by auto
  then have ok: "active_ok (le_graph E) r0 st (map snd (le_toks E w'))"
    using E D False unfolding search_expected_def root_of_def by (metis last.simps traces.select_convs(1))
  from active_ok_rooted [OF this] have "traces_ok r0 (map snd (le_toks E w')) (dtraces d')"
    by (simp add: d' traces_ok_def tokens_rooted_def)
  then show ?thesis using ok Decode_dtraces [OF D] d' False by (auto simp: tracing_def path_words_def)
qed

text \<open>What has been sent of the current utterance: the words up to the immortal token.\<close>

definition sent_text :: "(int \<Rightarrow> string) \<Rightarrow> decoder \<Rightarrow> string" where
  "sent_text Find d = words_text Find (path_words (immortal_tok (dtraces d)))"

lemma send_result_Inr:
  assumes "le_table E = Some Find" and "send_result E e L w = (Inr result, w')"
  shows "result = words_text Find (le_symbols E L) \<and> le_send E e result w = (Inr (), w')"
  using assms by (auto simp: send_result_def GetPartialResult_def partial_result_eq andthen_Inr_iff
      split: if_splits)

lemma report_batch:
  assumes E: "search_expected E" and fst: "fst_ok (le_rmeps E) (le_symbols E)" and table: "le_table E = Some Find"
    and tr: "tracing E d w" and batch: "dstate d = kEndBatch" and log: "sends_logged E sent"
    and R: "OnlineDecode_report E kEndBatch d cerr w = (Inr (d', cerr'), w')"
  shows "tracing E d' w' \<and> dstate d' = dstate d
    \<and> (\<exists>texts. cerr' = cerr @ concat texts \<and> sent_text Find d' = sent_text Find d @ concat texts
        \<and> sent w' = sent w @ map (Pair False) texts)"
proof -
  obtain r0 where r0: "tokens_ok (le_graph E) r0 (map snd (le_toks E w))"
    "traces_ok r0 (map snd (le_toks E w)) (dtraces d)"
    using tr batch by (auto simp: tracing_def)
  from PartialTraceback_words [OF fst r0] obtain Lo tr' where P:
    "PartialTraceback (le_graph E) (le_rmeps E) (map snd (le_toks E w)) (dtraces d) = Inr (Lo, tr')"
    "traces_ok r0 (map snd (le_toks E w)) tr'"
    "path_words (immortal_tok tr') = path_words (immortal_tok (dtraces d))
      @ (case Lo of Some L \<Rightarrow> le_symbols E L | None \<Rightarrow> [])"
    by blast
  show ?thesis
  proof (cases Lo)
    case None
    then have "d' = d\<lparr>dtraces := tr'\<rparr>" "cerr' = cerr" "w' = w"
      using R P(1) by (simp_all add: OnlineDecode_report_def)
    then show ?thesis using P r0(1) None batch by (auto simp: tracing_def sent_text_def intro!: exI [of _ "[]"])
  next
    case (Some L)
    then obtain result where s: "send_result E False L w = (Inr result, w')" "d' = d\<lparr>dtraces := tr'\<rparr>"
      "cerr' = cerr @ result"
      using R P(1) by (auto simp: OnlineDecode_report_def andthen_Inr_iff)
    from send_result_Inr [OF table s(1)] have
      res: "result = words_text Find (le_symbols E L)" "le_send E False result w = (Inr (), w')" by blast+
    then have "le_toks E w' = le_toks E w" "sent w' = sent w @ [(False, result)]"
      using E log unfolding search_expected_def sends_logged_def by blast+
    then show ?thesis using P r0(1) s res(1) Some batch
      by (auto simp: tracing_def sent_text_def intro!: exI [of _ "[result]"])
  qed
qed

lemma report_end:
  assumes E: "search_expected E" and fst: "fst_ok (le_rmeps E) (le_symbols E)" and table: "le_table E = Some Find"
    and tr: "tracing E d w" and st: "st \<noteq> kEndBatch" and log: "sends_logged E sent"
    and R: "OnlineDecode_report E st d cerr w = (Inr (d', cerr'), w')"
  shows "\<exists>best new. first_best (le_graph E) (le_reached E w') (le_toks E w') best \<and> cerr' = cerr @ new @ [CHR 0x0A]
    \<and> words_text Find (path_words best) = sent_text Find d @ new \<and> d' = d \<and> sent w' = sent w @ [(True, new)]"
proof -
  obtain r0 where r0: "tokens_rooted (le_graph E) r0 (map snd (le_toks E w))"
    "traces_ok r0 (map snd (le_toks E w)) (dtraces d)"
    using tr by (auto simp: tracing_def dest: active_ok_rooted)
  have reached: "le_reached E w \<longrightarrow> (\<exists>(k, p) \<in> set (le_toks E w). fst_final (le_graph E) k \<noteq> None)"
    and worse: "\<forall>a b. le_worse E a b \<longleftrightarrow> tok_weight b < tok_weight a"
    using E unfolding search_expected_def by blast+
  from FinishTraceBack_words [OF fst r0 reached worse] obtain best where best:
    "first_best (le_graph E) (le_reached E w) (le_toks E w) best" "if best = immortal_tok (dtraces d)
    then FinishTraceBack (le_graph E) (le_rmeps E) (le_worse E) (le_reached E w) (le_toks E w) (dtraces d) = Inl EmptyBack
    else \<exists>L. FinishTraceBack (le_graph E) (le_rmeps E) (le_worse E) (le_reached E w) (le_toks E w) (dtraces d) = Inr L
      \<and> path_words best = path_words (immortal_tok (dtraces d)) @ le_symbols E L"
    by blast
  have over: "st = kEndUtt \<or> st = kEndFeats" using st by (cases st) auto
  have ne: "best \<noteq> immortal_tok (dtraces d)"
    using R best(2) over by (auto simp: OnlineDecode_report_def)
  with best(2) obtain L where L: "FinishTraceBack (le_graph E) (le_rmeps E) (le_worse E) (le_reached E w)
      (le_toks E w) (dtraces d) = Inr L" "path_words best = path_words (immortal_tok (dtraces d)) @ le_symbols E L"
    by auto
  then obtain result where s: "send_result E True L w = (Inr result, w')" "d' = d"
    "cerr' = cerr @ result @ [CHR 0x0A]"
    using R over by (auto simp: OnlineDecode_report_def andthen_Inr_iff)
  from send_result_Inr [OF table s(1)] have
    res: "result = words_text Find (le_symbols E L)" "le_send E True result w = (Inr (), w')" by blast+
  then have "le_toks E w' = le_toks E w" "le_reached E w' = le_reached E w" "sent w' = sent w @ [(True, result)]"
    using E log unfolding search_expected_def sends_logged_def by blast+
  then show ?thesis using best(1) s(2,3) res(1) L(2)
    by (intro exI [of _ best] exI [of _ result]) (simp_all add: sent_text_def)
qed

fun OnlineDecode_turns :: "nat \<Rightarrow> 'w loop_env \<Rightarrow> decoder \<times> string \<Rightarrow> ('w, DecodeState list \<times> decoder \<times> string) prog" where
  "OnlineDecode_turns 0 E x = ret ([], x)"
| "OnlineDecode_turns (Suc n) E x =
     andthen (OnlineDecode_turn E x) (\<lambda>(st, y).
     andthen (OnlineDecode_turns n E y) (\<lambda>(sts, z). ret (st # sts, z)))"

lemma OnlineDecode_turns_Suc:
  "OnlineDecode_turns (Suc n) E x w = (Inr (sts, z), w') \<longleftrightarrow>
     (\<exists>st y u sts'. OnlineDecode_turn E x w = (Inr (st, y), u)
       \<and> OnlineDecode_turns n E y u = (Inr (sts', z), w') \<and> sts = st # sts')"
  by (cases z) (auto simp: andthen_Inr_iff)

lemma OnlineDecode_turn_Inr:
  assumes "OnlineDecode_turn E (d, cerr) w = (Inr (st, d2, cerr2), w2)"
  obtains d1 w1 where "Decode (le_opts E) (le_search E) (le_graph E) d w = (Inr (st, d1), w1)"
    "OnlineDecode_report E st d1 cerr w1 = (Inr (d2, cerr2), w2)"
  using assms by (auto simp: OnlineDecode_turn_def andthen_Inr_iff)

lemma turns_text:
  assumes E: "search_expected E" and fst: "fst_ok (le_rmeps E) (le_symbols E)" and table: "le_table E = Some Find"
    and log: "sends_logged E sent"
  shows "(dstate d = kEndBatch \<longrightarrow> tracing E d w) \<Longrightarrow> st \<noteq> kEndBatch \<Longrightarrow>
    OnlineDecode_turns (Suc n) E (d, cerr) w = (Inr (replicate n kEndBatch @ [st], d', cerr'), w') \<Longrightarrow>
    \<exists>best texts new. first_best (le_graph E) (le_reached E w') (le_toks E w') best
      \<and> cerr' = cerr @ concat texts @ new @ [CHR 0x0A] \<and> sent w' = sent w @ map (Pair False) texts @ [(True, new)]
      \<and> words_text Find (path_words best) = (if dstate d = kEndBatch then sent_text Find d else []) @ concat texts @ new"
proof (induction n arbitrary: d cerr w)
  case 0
  from 0(3) obtain d1 w1 where t:
    "Decode (le_opts E) (le_search E) (le_graph E) d w = (Inr (st, d1), w1)"
    "OnlineDecode_report E st d1 cerr w1 = (Inr (d', cerr'), w')"
    by (auto simp: andthen_Inr_iff elim!: OnlineDecode_turn_Inr)
  note dec = Decode_tracing [OF E t(1) 0(1)]
  have "sent_text Find d1 = (if dstate d = kEndBatch then sent_text Find d else [])"
    using dec by (auto simp: sent_text_def words_text_def)
  moreover have "sent w1 = sent w" using log t(1) unfolding sends_logged_def by blast
  moreover obtain best new where "first_best (le_graph E) (le_reached E w') (le_toks E w') best"
    "cerr' = cerr @ new @ [CHR 0x0A]" "words_text Find (path_words best) = sent_text Find d1 @ new"
    "sent w' = sent w1 @ [(True, new)]"
    using report_end [OF E fst table conjunct1 [OF dec] 0(2) log t(2)] by blast
  ultimately show ?case by (intro exI [of _ best] exI [of _ "[]"] exI [of _ new]) simp_all
next
  case (Suc n)
  from Suc.prems(3) obtain d2 cerr2 u where t: "OnlineDecode_turn E (d, cerr) w = (Inr (kEndBatch, d2, cerr2), u)"
    "OnlineDecode_turns (Suc n) E (d2, cerr2) u = (Inr (replicate n kEndBatch @ [st], d', cerr'), w')"
    unfolding OnlineDecode_turns_Suc [of "Suc n"] by auto
  from t(1) obtain d1 w1 where D:
    "Decode (le_opts E) (le_search E) (le_graph E) d w = (Inr (kEndBatch, d1), w1)"
    "OnlineDecode_report E kEndBatch d1 cerr w1 = (Inr (d2, cerr2), u)"
    by (rule OnlineDecode_turn_Inr)
  note dec = Decode_tracing [OF E D(1) Suc.prems(1)]
  have d1: "dstate d1 = kEndBatch" using Decode_dtraces [OF D(1)] by simp
  obtain texts1 where rep: "tracing E d2 u" "dstate d2 = kEndBatch" "cerr2 = cerr @ concat texts1"
    "sent_text Find d2 = sent_text Find d1 @ concat texts1" "sent u = sent w1 @ map (Pair False) texts1"
    using report_batch [OF E fst table _ d1 log D(2)] dec d1 by auto
  have w1: "sent w1 = sent w" using log D(1) unfolding sends_logged_def by blast
  have "dstate d2 = kEndBatch \<longrightarrow> tracing E d2 u" using rep(1) by blast
  from Suc.IH [OF this Suc.prems(2) t(2)] rep(2) obtain best texts new where b:
    "first_best (le_graph E) (le_reached E w') (le_toks E w') best" "cerr' = cerr2 @ concat texts @ new @ [CHR 0x0A]"
    "sent w' = sent u @ map (Pair False) texts @ [(True, new)]"
    "words_text Find (path_words best) = sent_text Find d2 @ concat texts @ new" by auto
  have "sent_text Find d1 = (if dstate d = kEndBatch then sent_text Find d else [])"
    using dec by (auto simp: sent_text_def words_text_def)
  with b rep(3-5) w1 show ?case
    by (intro exI [of _ best] exI [of _ "texts1 @ texts"] exI [of _ new]) simp_all
qed


text \<open>The loop consists of such turns, and is left after the first that ends the features.\<close>

lemma OnlineDecode_loop_turns:
  "OnlineDecode_loop fuel E x w = Some (Inr z, w') \<Longrightarrow>
     \<exists>n sts. OnlineDecode_turns (Suc n) E x w = (Inr (sts @ [kEndFeats], z), w') \<and> kEndFeats \<notin> set sts
       \<and> length sts = n \<and> n < fuel"
proof (induction fuel arbitrary: x w)
  case (Suc fuel)
  obtain st y u where t: "OnlineDecode_turn E x w = (Inr (st, y), u)"
    using Suc.prems by (auto split: prod.splits sum.splits)
  show ?case
  proof (cases "st = kEndFeats")
    case True
    then have "y = z" "u = w'" using Suc.prems t by auto
    then show ?thesis using t True
      by (intro exI [of _ 0] exI [of _ "[]"]) (auto simp: andthen_Inr split: prod.splits)
  next
    case False
    then have "OnlineDecode_loop fuel E y u = Some (Inr z, w')" using Suc.prems t by simp
    from Suc.IH [OF this] obtain n sts where
      "OnlineDecode_turns (Suc n) E y u = (Inr (sts @ [kEndFeats], z), w')" "kEndFeats \<notin> set sts"
      "length sts = n" "n < fuel" by blast
    then show ?thesis using t False
      by (intro exI [of _ "Suc n"] exI [of _ "st # sts"]) (simp del: OnlineDecode_turns.simps add: OnlineDecode_turns_Suc [of "Suc n"])
  qed
qed simp

text \<open>
  C34. Reporting a result fails in one case only: when the table has the words and sending
  works, the report after a batch always succeeds, and the one at the end of an utterance
  fails exactly when the best token (the first with the lowest cost) is the immortal one, as after
  an utterance whose last frame has been traced already; then \<open>MakeLattice\<close> calls \<open>back()\<close> on an
  empty vector, before anything is sent.
\<close>

theorem report_fails_only_on_empty_back:
  assumes "search_expected E" and "fst_ok (le_rmeps E) (le_symbols E)" and "le_table E = Some Find"
    and "tracing E d w" and "\<forall>k. Find k \<noteq> []" and "\<forall>e str x. \<exists>x'. le_send E e str x = (Inr (), x')"
  shows "if dstate d \<noteq> kEndBatch \<and> first_best (le_graph E) (le_reached E w) (le_toks E w) (immortal_tok (dtraces d))
    then OnlineDecode_report E (dstate d) d cerr w = (Inl EmptyBack, w)
    else \<exists>x w'. OnlineDecode_report E (dstate d) d cerr w = (Inr x, w')"
proof -
  have send: "\<exists>r w'. send_result E e L x = (Inr r, w')" for e L x
    using assms(3,5,6) by (fastforce simp: send_result_def GetPartialResult_def partial_result_eq andthen_Inr_iff)
  obtain r0 where r0: "active_ok (le_graph E) r0 (dstate d) (map snd (le_toks E w))"
    "traces_ok r0 (map snd (le_toks E w)) (dtraces d)"
    using assms(4) by (auto simp: tracing_def)
  show ?thesis
  proof (cases "dstate d = kEndBatch")
    case True
    then have "tokens_ok (le_graph E) r0 (map snd (le_toks E w))" using r0(1) by simp
    from PartialTraceback_words [OF assms(2) this r0(2)] obtain Lo tr' where P:
      "PartialTraceback (le_graph E) (le_rmeps E) (map snd (le_toks E w)) (dtraces d) = Inr (Lo, tr')"
      by blast
    show ?thesis
    proof (cases Lo)
      case None
      then show ?thesis using P True by (simp add: OnlineDecode_report_def)
    next
      case (Some L)
      obtain r w' where "send_result E False L w = (Inr r, w')" using send by blast
      then show ?thesis using P True Some by (simp add: OnlineDecode_report_def andthen_Inr)
    qed
  next
    case False
    then have over: "dstate d = kEndUtt \<or> dstate d = kEndFeats" by (cases "dstate d") auto
    have reached: "le_reached E w \<longrightarrow> (\<exists>(k, p) \<in> set (le_toks E w). fst_final (le_graph E) k \<noteq> None)"
      and worse: "\<forall>a b. le_worse E a b \<longleftrightarrow> tok_weight b < tok_weight a"
      using assms(1) unfolding search_expected_def by blast+
    from FinishTraceBack_words [OF assms(2) active_ok_rooted [OF r0(1)] r0(2) reached worse] obtain best where best:
      "first_best (le_graph E) (le_reached E w) (le_toks E w) best" "if best = immortal_tok (dtraces d)
      then FinishTraceBack (le_graph E) (le_rmeps E) (le_worse E) (le_reached E w) (le_toks E w) (dtraces d) = Inl EmptyBack
      else \<exists>L. FinishTraceBack (le_graph E) (le_rmeps E) (le_worse E) (le_reached E w) (le_toks E w) (dtraces d) = Inr L
        \<and> path_words best = path_words (immortal_tok (dtraces d)) @ le_symbols E L"
      by blast
    show ?thesis
    proof (cases "best = immortal_tok (dtraces d)")
      case True
      then show ?thesis using best over False by (auto simp: OnlineDecode_report_def)
    next
      case ne: False
      then obtain L where L: "FinishTraceBack (le_graph E) (le_rmeps E) (le_worse E) (le_reached E w)
          (le_toks E w) (dtraces d) = Inr L" using best(2) by auto
      obtain r w' where "send_result E True L w = (Inr r, w')" using send by blast
      moreover have "\<not> first_best (le_graph E) (le_reached E w) (le_toks E w) (immortal_tok (dtraces d))"
        using first_best_unique [OF best(1)] ne by blast
      ultimately show ?thesis using L over by (auto simp: OnlineDecode_report_def andthen_Inr)
    qed
  qed
qed

section \<open>Witnesses\<close>

text \<open>A search with one new token per frame whose second frame ends the utterance.\<close>

type_synonym counted = "nat \<times> (int \<times> tokptr) list \<times> (bool \<times> string) list"

definition next_token :: "nat \<Rightarrow> token" where
  "next_token n = \<lparr>tok_addr = n + 1, ilabel = 1, olabel = int n + 1, arc_weight = 0, nextstate = 1, tok_weight = 0\<rparr>"

definition counting_search :: "counted search" where
  "counting_search = \<lparr>is_last_frame = (\<lambda>w f. False),
     process_emitting = (\<lambda>f b (n, toks, msgs). (Inr (b, n = 1), (n + 1, map (\<lambda>(k, p). (1, next_token n # p)) toks, msgs))),
     process_nonemitting = (\<lambda>c w. w), elapsed_time = (\<lambda>w. (0, w)), clear_toks = (\<lambda>(n, toks, msgs). (n, [], msgs)),
     new_addr = (\<lambda>w. (0, w)), insert_tok = (\<lambda>k p (n, toks, msgs). (n, (k, p) # toks, msgs))\<rparr>"

definition counting_env :: "counted loop_env" where
  "counting_env = \<lparr>le_search = counting_search, le_send = (\<lambda>e str (n, toks, msgs). (Inr (), (n, toks, msgs @ [(e, str)]))),
     le_toks = (\<lambda>(n, toks, msgs). toks), le_reached = (\<lambda>w. False), le_graph = small_graph, le_rmeps = (\<lambda>L. L),
     le_worse = (\<lambda>a b. tok_weight b < tok_weight a), le_symbols = lattice_words, le_table = Some (\<lambda>k. if k = 1 then ''one'' else ''two''),
     le_opts = OnlineFasterDecoderOpts_new\<lparr>batch_size := 1\<rparr>\<rparr>"

definition root_token :: token where
  "root_token = \<lparr>tok_addr = 0, ilabel = 0, olabel = 0, arc_weight = 0, nextstate = 0, tok_weight = 0\<rparr>"

lemma counting_Decode:
  "Decode (le_opts counting_env) (le_search counting_env) (le_graph counting_env) d (n, toks, msgs) =
     (let d0 = (if dstate d = kEndBatch then d
         else d\<lparr>dtraces := \<lparr>immortal_tok = [root_token], prev_immortal_tok = [root_token]\<rparr>, utt_frames := 0,
           frame := if dstate d = kEndFeats then 0 else frame d\<rparr>);
        toks0 = (if dstate d = kEndBatch then toks else [(0, [root_token])]);
        toks' = map (\<lambda>(k, p). (1, next_token n # p)) toks0
      in if n = 1 \<or> forcingEndUtt d
         then (Inr (kEndUtt, d0\<lparr>dstate := kEndUtt, forcingEndUtt := False\<rparr>), (n + 1, toks', msgs))
         else (Inr (kEndBatch, d0\<lparr>frame := frame d0 + 1, utt_frames := utt_frames d0 + 1, dstate := kEndBatch\<rparr>),
           (n + 1, toks', msgs)))"
  by (cases "dstate d")
    (simp_all add: Decode_def andthen_def ResetDecoder_def decode_loop.simps search_frame_def update_beam_def
      counting_env_def counting_search_def OnlineFasterDecoderOpts_new_def small_graph_def kNoStateId_def
      ForceEndUtterance_def Let_def root_token_def)

lemma depth_next [simp]: "depth (next_token n # p) = Suc (depth p)"
  by (simp add: depth_def next_token_def)

lemma counting_expected: "search_expected counting_env"
proof -
  have extend: "tokens_ok small_graph r0 (map (\<lambda>p. next_token n # p) T)" if "tokens_ok small_graph r0 T" for r0 n T
  proof -
    have "\<forall>t \<in> set (butlast (next_token n # p)). nextstate t \<noteq> fst_start small_graph"
      if "p \<in> set T" for p
      using that \<open>tokens_ok small_graph r0 T\<close> by (auto simp: tokens_ok_simps next_token_def small_graph_def)
    moreover have "same_depth (map (\<lambda>p. next_token n # p) T)"
      unfolding same_depth_def
    proof (intro ballI)
      fix p q
      assume "p \<in> set (map (\<lambda>p. next_token n # p) T)" "q \<in> set (map (\<lambda>p. next_token n # p) T)"
      then obtain p' q' where "p = next_token n # p'" "q = next_token n # q'" "p' \<in> set T" "q' \<in> set T"
        by auto
      moreover have "same_depth T" using that by (simp add: tokens_ok_simps)
      ultimately show "depth p = depth q" by (simp add: same_depthD [of T p' q'])
    qed
    moreover have "T \<noteq> []" "\<forall>p \<in> set T. suffix [r0] p" using that by (simp_all add: tokens_ok_simps)
    moreover have "ilabel (next_token n) = 1" by (simp add: next_token_def)
    ultimately show ?thesis by (simp add: tokens_ok_simps suffix_Cons del: butlast.simps)
  qed
  have first: "tokens_ok small_graph root_token [[next_token n, root_token]]" for n
    by (simp add: tokens_ok_simps same_depth_def suffix_Cons small_graph_def next_token_def depth_def)
  have env: "le_graph counting_env = small_graph" "le_toks counting_env = (\<lambda>(n, toks, msgs). toks)"
    "\<And>w. \<not> le_reached counting_env w" "le_worse counting_env = (\<lambda>a b. tok_weight b < tok_weight a)"
    "\<And>e str n toks msgs. le_send counting_env e str (n, toks, msgs) = (Inr (), (n, toks, msgs @ [(e, str)]))"
    by (simp_all add: counting_env_def)
  have step: "if dstate d = kEndBatch
      then \<forall>r0. tokens_ok small_graph r0 (map snd (fst (snd w))) \<longrightarrow> active_ok small_graph r0 st (map snd (fst (snd w')))
        \<and> (\<forall>q \<in> snd ` set (fst (snd w')). \<exists>p \<in> snd ` set (fst (snd w)). suffix p q)
      else active_ok small_graph (root_of d') st (map snd (fst (snd w')))"
    if D: "Decode (le_opts counting_env) (le_search counting_env) (le_graph counting_env) d w = (Inr (st, d'), w')"
    for d w st d' w'
  proof -
    obtain n toks msgs where w: "w = (n, toks, msgs)" by (rule prod_cases3)
    show ?thesis
    proof (cases "dstate d = kEndBatch")
      case True
      then have w': "fst (snd w') = map (\<lambda>(k, p). (1, next_token n # p)) toks"
        using D by (auto simp: w counting_Decode Let_def split: if_splits)
      have "map snd (fst (snd w')) = map (\<lambda>p. next_token n # p) (map snd toks)"
        by (simp add: w' comp_def case_prod_beta)
      moreover have "\<exists>p \<in> snd ` set toks. suffix p q" if "q \<in> snd ` set (fst (snd w'))" for q
        using that by (force simp: w' suffix_Cons)
      moreover have "active_ok small_graph r0 st (map (\<lambda>p. next_token n # p) (map snd toks))"
        if "tokens_ok small_graph r0 (map snd toks)" for r0
        using extend [OF that, of n] by (simp add: active_ok_def tokens_ok_def)
      ultimately show ?thesis using True by (simp add: w)
    next
      case False
      then have "fst (snd w') = [(1, [next_token n, root_token])]" "root_of d' = root_token"
        using D by (auto simp: w counting_Decode Let_def root_of_def split: if_splits)
      moreover have "active_ok small_graph root_token st [[next_token n, root_token]]"
        using first by (simp add: active_ok_def tokens_ok_def)
      ultimately show ?thesis using False by simp
    qed
  qed
  have toks: "le_toks counting_env w = fst (snd w)" for w by (simp add: env split: prod.split)
  have send: "le_toks counting_env w' = le_toks counting_env w" if "le_send counting_env e str w = (r, w')" for e str w r w'
    using that by (cases w) (auto simp: env)
  show ?thesis unfolding search_expected_def toks env(1,4)
    by (intro conjI allI impI step) (use send in \<open>simp_all add: env(1,3) toks\<close>)
qed

lemma counting_logged: "sends_logged counting_env (\<lambda>(n, toks, msgs). msgs)"
proof -
  have "case w' of (n, toks, msgs) \<Rightarrow> msgs = (case w of (n, toks, msgs) \<Rightarrow> msgs)"
    if "Decode (le_opts counting_env) (le_search counting_env) (le_graph counting_env) d w = (r, w')" for d w r w'
    using that by (cases w) (auto simp: counting_Decode Let_def split: if_splits)
  then show ?thesis by (force simp: sends_logged_def counting_env_def split: prod.splits)
qed

lemma counting_env_simps:
  "le_graph counting_env = small_graph" "le_toks counting_env = (\<lambda>(n, toks, msgs). toks)" "le_rmeps counting_env = (\<lambda>L. L)"
  "le_reached counting_env = (\<lambda>w. False)"
  "le_send counting_env = (\<lambda>e str (n, toks, msgs). (Inr (), (n, toks, msgs @ [(e, str)])))"
  "le_worse counting_env = (\<lambda>a b. tok_weight b < tok_weight a)" "le_symbols counting_env = lattice_words"
  "le_table counting_env = Some (\<lambda>k. if k = 1 then ''one'' else ''two'')"
  by (simp_all add: counting_env_def)

lemmas counting_simps = counting_env_simps counting_Decode OnlineFasterDecoder_new_def OnlineDecode_report_def
  next_token_def root_token_def MakeLattice_def drop_fake_def small_graph_def send_result_def
  GetPartialResult_def lattice_words_def build_lattice_def empty_lattice_def lattice_arc_def
  PartialTraceback_def UpdateImmortalToken_def find_the_one.simps skip_nonemitting_def
  FinishTraceBack_def best_active_def OnlineDecode_turn_def andthen_Inr

lemma turns_1:
  "OnlineDecode_turns 1 E x w = (case OnlineDecode_turn E x w of
      (Inl e, u) \<Rightarrow> (Inl e, u) | (Inr (st, y), u) \<Rightarrow> (Inr ([st], y), u))"
  by (simp add: andthen_def split: prod.splits sum.splits)

lemma counting_turns:
  "\<exists>d. OnlineDecode_turns (Suc 1) counting_env (OnlineFasterDecoder_new 16 tr, []) (0, [], [])
     = (Inr (replicate 1 kEndBatch @ [kEndUtt], d, ''one two '' @ [CHR 0x0A]),
        (2, [(1, [next_token 1, next_token 0, root_token])], [(False, ''one ''), (True, ''two '')]))"
proof -
  let ?d = "OnlineFasterDecoder_new 16 tr"
  let ?root = "\<lparr>immortal_tok = [root_token], prev_immortal_tok = [root_token]\<rparr>"
  let ?one = "\<lparr>immortal_tok = [next_token 0, root_token], prev_immortal_tok = [root_token]\<rparr>"
  let ?d1 = "?d\<lparr>dstate := kEndBatch, frame := 1, utt_frames := 1, dtraces := ?root\<rparr>"
  let ?w1 = "\<lambda>m :: (bool \<times> string) list. (1 :: nat, [(1 :: int, [next_token 0, root_token])], m)"
  have D1: "Decode (le_opts counting_env) (le_search counting_env) (le_graph counting_env) ?d (0, [], [])
      = (Inr (kEndBatch, ?d1), ?w1 [])"
    by (simp add: counting_Decode OnlineFasterDecoder_new_def)
  have R1: "OnlineDecode_report counting_env kEndBatch ?d1 [] (?w1 [])
      = (Inr (?d1\<lparr>dtraces := ?one\<rparr>, ''one ''), ?w1 [(False, ''one '')])"
    by (simp add: counting_simps)
  have T1: "OnlineDecode_turn counting_env (?d, []) (0, [], [])
      = (Inr (kEndBatch, ?d1\<lparr>dtraces := ?one\<rparr>, ''one ''), ?w1 [(False, ''one '')])"
    unfolding OnlineDecode_turn_def andthen_def by (simp only: prod.case sum.case D1 R1 ret_apply)
  let ?d2 = "?d1\<lparr>dtraces := ?one\<rparr>"
  let ?d3 = "?d2\<lparr>dstate := kEndUtt, forcingEndUtt := False\<rparr>"
  let ?w2 = "\<lambda>m :: (bool \<times> string) list. (2 :: nat, [(1 :: int, [next_token 1, next_token 0, root_token])], m)"
  have D2: "Decode (le_opts counting_env) (le_search counting_env) (le_graph counting_env) ?d2 (?w1 [(False, ''one '')])
      = (Inr (kEndUtt, ?d3), ?w2 [(False, ''one '')])"
    by (simp add: counting_Decode numeral_2_eq_2)
  have R2: "OnlineDecode_report counting_env kEndUtt ?d3 ''one '' (?w2 [(False, ''one '')])
      = (Inr (?d3, ''one two '' @ [CHR 0x0A]), ?w2 [(False, ''one ''), (True, ''two '')])"
    by (simp add: counting_simps)
  have T2: "OnlineDecode_turn counting_env (?d2, ''one '') (?w1 [(False, ''one '')])
      = (Inr (kEndUtt, ?d3, ''one two '' @ [CHR 0x0A]), ?w2 [(False, ''one ''), (True, ''two '')])"
    unfolding OnlineDecode_turn_def andthen_def by (simp only: prod.case sum.case D2 R2 ret_apply)
  have "OnlineDecode_turns 1 counting_env (?d2, ''one '') (?w1 [(False, ''one '')])
      = (Inr ([kEndUtt], ?d3, ''one two '' @ [CHR 0x0A]), ?w2 [(False, ''one ''), (True, ''two '')])"
    by (simp only: turns_1 T2 prod.case sum.case)
  then have "OnlineDecode_turns (Suc 1) counting_env (?d, []) (0, [], [])
      = (Inr (replicate 1 kEndBatch @ [kEndUtt], ?d3, ''one two '' @ [CHR 0x0A]),
          ?w2 [(False, ''one ''), (True, ''two '')])"
    unfolding OnlineDecode_turns.simps(2) [of 1] andthen_def by (simp only: T1 prod.case sum.case) simp
  then show ?thesis by blast
qed


theorem report_fails_only_on_empty_back_witness:
  "\<exists>d w. tracing counting_env d w \<and> dstate d = kEndUtt
    \<and> OnlineDecode_report counting_env (dstate d) d [] w = (Inl EmptyBack, w)"
proof -
  define d where "d = OnlineFasterDecoder_new 16
    \<lparr>immortal_tok = [next_token 0, root_token], prev_immortal_tok = [root_token]\<rparr>\<lparr>dstate := kEndUtt\<rparr>"
  let ?w = "(1 :: nat, [(1 :: int, [next_token 0, root_token])], [] :: (bool \<times> string) list)"
  have tr: "tracing counting_env d ?w"
    unfolding tracing_def active_ok_def tokens_ok_simps traces_ok_def counting_env_simps
    by (intro exI [of _ root_token])
      (simp add: d_def OnlineFasterDecoder_new_def suffix_Cons same_depth_def emits_def
        small_graph_def next_token_def depth_def)
  have fst: "fst_ok (le_rmeps counting_env) (le_symbols counting_env)"
    unfolding counting_env_simps by (rule lattice_words_ok)
  have "\<forall>k. (if k = (1 :: int) then ''one'' else ''two'') \<noteq> []"
    "\<forall>e str x. \<exists>x'. le_send counting_env e str x = (Inr (), x')"
    by (simp_all add: counting_env_simps split: prod.split)
  note rep = report_fails_only_on_empty_back [OF counting_expected fst counting_env_simps(8) tr this, of "[]"]
  have "first_best (le_graph counting_env) (le_reached counting_env ?w) (le_toks counting_env ?w) (immortal_tok (dtraces d))"
    by (simp add: counting_env_simps d_def first_best_def first_min_def path_cost_def at_most_def OnlineFasterDecoder_new_def)
  moreover have "dstate d = kEndUtt" by (simp add: d_def)
  ultimately show ?thesis using rep tr by (intro exI [of _ d] exI [of _ ?w]) simp
qed

end
