(* ===== verification/DecodeWorker.thy ===== *)
theory DecodeWorker
  imports OnlineSession
begin

text \<open>
  \<open>DecodeWorker\<close> (\<open>DecodeWorker.cc\<close>): the dialogue with a client in \<open>Work\<close>, the recognition of
  a whole recording (\<open>Decode\<close>), and the normalisation object that a worker keeps from one
  client to the next. The lattice decoder is a parameter: the words of the best path for the
  rows of a feature matrix.
\<close>

section \<open>The worker\<close>

text \<open>The result of a dialogue: what was sent back, or why nothing was.\<close>

datatype answer = Recognised string | Streamed | FeaturesIgnored | InvalidRequest cint

definition DecodeWorker_new :: "kaldi_env \<Rightarrow> cmn" where
  "DecodeWorker_new K = OnlineCMN_new (num_ceps K) cmn_window"

definition Worker_Decode :: "(vec list \<Rightarrow> int list) \<Rightarrow> symbol_table \<Rightarrow> matrix \<Rightarrow> fault + string" where
  "Worker_Decode best_path table features = SymbolsToWords (best_path (rows features)) table"

text \<open>
  Lines 153 to 167. The request is received into one byte on the stack, which keeps its
  previous contents (\<open>stack_byte\<close>) if the announced length is not positive.
\<close>

definition Work_start :: "'s os \<Rightarrow> byte \<Rightarrow> ('s, bool) prog" where
  "Work_start os stack_byte =
     andthen (ReceiveHeader os) (\<lambda>header.
     if packet_type header \<noteq> type_code DECODE_REQUEST then fail (Exit 1)
     else andthen (Receive os 1 (sint (payload_length header))) (\<lambda>req.
       andthen (SendPacket os DECODE_ACCEPT 1 [bool_byte True]) (\<lambda>_.
       ret (byte_bool (hd (req @ [stack_byte]))))))"

text \<open>
  Lines 181 to 185: the vector gets the number of whole samples, the payload is received
  into its memory with the announced length.
\<close>

definition Receive_wave :: "'s os \<Rightarrow> cint \<Rightarrow> ('s, sample list) prog" where
  "Receive_wave os payload =
     (let len = sint payload; n = sint (word_of_int ((len mod 2 ^ 64) div 4) :: cint) in
      if n < 0 then fail KaldiError
      else andthen (Receive os (4 * nat n) len) (\<lambda>bs. ret (floats_of bs)))"

text \<open>Lines 187 to 195: the words recognised in a recording.\<close>

definition Work_recognise :: "('t, 's) online_env \<Rightarrow> (vec list \<Rightarrow> int list) \<Rightarrow> sample list
    \<Rightarrow> (cmn, string) prog" where
  "Work_recognise E best_path wave = (\<lambda>cmvn.
     let mfcc_output = mfcc_matrix (oe_kaldi E) (mfcc_rows (oe_kaldi E) wave) in
     case ApplyCmvn2 cmvn mfcc_output of
       Inl e \<Rightarrow> (Inl e, cmvn)
     | Inr (norm_feats, cmvn') \<Rightarrow>
         let cmvn_output = \<lparr>num_cols = num_cols mfcc_output, rows = (case norm_feats of
               Some ys \<Rightarrow> ys | None \<Rightarrow> constant_rows (oe_kaldi E) (rows mfcc_output))\<rparr>
         in (case LdaTransform cmvn_output (oe_lda E) (oe_left E) (oe_right E) of
               Inl e \<Rightarrow> (Inl e, cmvn')
             | Inr feats \<Rightarrow> (Worker_Decode best_path (oe_table E) feats, cmvn')))"

definition Work_file :: "('t, 's) online_env \<Rightarrow> (vec list \<Rightarrow> int list) \<Rightarrow> 's os \<Rightarrow> (cmn \<times> 's, answer) prog" where
  "Work_file E best_path os = (\<lambda>(cmvn, s).
     case ReceiveHeader os s of
       (Inl e, s1) \<Rightarrow> (Inl e, cmvn, s1)
     | (Inr header, s1) \<Rightarrow>
         if packet_type header = type_code DATA_WAVE then
           (case Receive_wave os (payload_length header) s1 of
              (Inl e, s2) \<Rightarrow> (Inl e, cmvn, s2)
            | (Inr wave, s2) \<Rightarrow>
                (case Work_recognise E best_path wave cmvn of
                   (Inl e, cmvn') \<Rightarrow> (Inl e, cmvn', s2)
                 | (Inr words, cmvn') \<Rightarrow>
                     (case SendOutput os True words s2 of
                        (Inl e, s3) \<Rightarrow> (Inl e, cmvn', s3)
                      | (Inr _, s3) \<Rightarrow> (Inr (Recognised words), cmvn', s3))))
         else if packet_type header = type_code DATA_FEATURE then (Inr FeaturesIgnored, cmvn, s1)
         else (Inr (InvalidRequest (packet_type header)), cmvn, s1))"

text \<open>\<open>Work\<close>; \<^const>\<open>None\<close> is an online session that has not ended within the fuel.\<close>

definition Work :: "nat \<Rightarrow> ('t, 's) online_env \<Rightarrow> (vec list \<Rightarrow> int list) \<Rightarrow> 's os \<Rightarrow> byte \<Rightarrow> cmn \<times> 's
    \<Rightarrow> ((fault + answer) \<times> cmn \<times> 's) option" where
  "Work fuel E best_path os stack_byte = (\<lambda>(cmvn, s).
     case Work_start os stack_byte s of
       (Inl e, s1) \<Rightarrow> Some (Inl e, cmvn, s1)
     | (Inr online_mode, s1) \<Rightarrow>
         if online_mode then
           map_option (\<lambda>(r, s2). (map_sum (\<lambda>e. e) (\<lambda>_. Streamed) r, cmvn, s2)) (OnlineDecode fuel E os s1)
         else Some (Work_file E best_path os (cmvn, s1)))"

section \<open>What the worker recognises\<close>

text \<open>The normalised features of a recording, relative to the history behind it.\<close>

definition normalised :: "kaldi_env \<Rightarrow> vec list \<Rightarrow> vec list \<Rightarrow> vec list \<Rightarrow> bool" where
  "normalised K h fs ys \<longleftrightarrow>
     (\<exists>d < num_ceps K. variance (column d h) = 0) \<and> ys = constant_rows K fs
     \<or> (\<forall>y \<in> set ys. length y = num_ceps K) \<and> length ys = length fs \<and> (\<forall>i < length fs. \<forall>d < num_ceps K.
        ys ! i ! d = (fs ! i ! d - mean (column d h)) / sqrt (variance (column d h)))"

definition mfcc_ok :: "kaldi_env \<Rightarrow> bool" where
  "mfcc_ok K \<longleftrightarrow> (\<forall>wave. \<forall>r \<in> set (mfcc_rows K wave). length r = num_ceps K)"

lemma ApplyCmvn2_cdim: "ApplyCmvn2 c m = Inr (out, c') \<Longrightarrow> cdim c' = cdim c \<and> hist c' = hist c"
proof -
  assume A: "ApplyCmvn2 c m = Inr (out, c')"
  have fill: "fill_history d rs = (d', rest) \<Longrightarrow> cdim d' = cdim d \<and> hist d' = hist d" for d d' rs rest
    by (induction d rs rule: fill_history.induct) (auto split: if_splits)
  have push: "cdim (foldl replace_oldest d rs) = cdim d \<and> hist (foldl replace_oldest d rs) = hist d" for d rs
    by (induction rs arbitrary: d) simp_all
  obtain c1 rest where f: "fill_history c (rows m) = (c1, rest)" by fastforce
  then have "c' = foldl replace_oldest c1 rest"
    using A by (simp add: ApplyCmvn2_def Let_def split: if_splits)
  then show ?thesis using fill [OF f] push by simp
qed

lemma SymbolsToWords_Some:
  "SymbolsToWords ws (Some Find)
     = (if \<exists>w \<in> set ws. Find w = [] then Inl AssertFailed else Inr (words_text Find ws))"
  by (induction ws) (auto simp: words_text_def)

lemma Work_recognise_outcome:
  assumes ok: "cmn_ok c" "cdim c = num_ceps K" and K: "mfcc_ok K" "oe_kaldi E = K"
    and fs: "fs = mfcc_rows K wave" "fs \<noteq> []"
  shows "\<exists>ys c'. normalised K (history c') fs ys \<and> cmn_ok c' \<and> cdim c' = cdim c \<and> hist c' = hist c
    \<and> history c' = last_n (hist c) (history c @ fs)
    \<and> Work_recognise E best_path wave c =
       (if ys = [] \<or> length ys < oe_right E then Inl OutOfBounds
        else if length ys = oe_right E \<or> num_cols (oe_lda E) \<noteq> num_ceps K * (oe_left E + oe_right E + 1) then Inl KaldiError
        else SymbolsToWords (best_path (lda_spec (oe_lda E) (oe_left E) (oe_right E) ys)) (oe_table E), c')"
proof -
  let ?m = "mfcc_matrix K fs"
  have m: "num_cols ?m = cdim c" "\<forall>r \<in> set (rows ?m). length r = cdim c" "rows ?m = fs"
    using ok(2) K(1) fs by (auto simp: mfcc_matrix_def mfcc_ok_def)
  obtain out c' where A: "ApplyCmvn2 c ?m = Inr (out, c')" "cmn_ok c'"
    "history c' = last_n (hist c) (history c @ fs)"
    and out: "case out of
        None \<Rightarrow> \<exists>d < cdim c. variance (column d (history c')) = 0
      | Some ys \<Rightarrow> matrix_ok (cdim c) \<lparr>num_cols = cdim c, rows = ys\<rparr> \<and> length ys = length fs \<and> (\<forall>i < length fs. \<forall>d < cdim c.
          ys ! i ! d = (fs ! i ! d - mean (column d (history c'))) / sqrt (variance (column d (history c'))))"
    using ApplyCmvn2_history [OF ok(1) m(1,2)] unfolding m(3) by blast
  define ys where "ys = (case out of Some ys \<Rightarrow> ys | None \<Rightarrow> constant_rows K fs)"
  have "normalised K (history c') fs ys"
    using out ok(2) by (cases out) (simp_all add: normalised_def ys_def matrix_ok_def)
  moreover have "Work_recognise E best_path wave c =
      (case LdaTransform \<lparr>num_cols = num_ceps K, rows = ys\<rparr> (oe_lda E) (oe_left E) (oe_right E) of
         Inl e \<Rightarrow> (Inl e, c')
       | Inr feats \<Rightarrow> (Worker_Decode best_path (oe_table E) feats, c'))"
    using m(1,3) ok(2) by (simp add: Work_recognise_def K(2) fs(1) [symmetric] A(1) Let_def ys_def cong: option.case_cong)
  then have "Work_recognise E best_path wave c =
       (if ys = [] \<or> length ys < oe_right E then Inl OutOfBounds
        else if length ys = oe_right E \<or> num_cols (oe_lda E) \<noteq> num_ceps K * (oe_left E + oe_right E + 1) then Inl KaldiError
        else SymbolsToWords (best_path (lda_spec (oe_lda E) (oe_left E) (oe_right E) ys)) (oe_table E), c')"
    by (simp add: LdaTransform_spec Worker_Decode_def)
  ultimately show ?thesis using A ApplyCmvn2_cdim [OF A(1)] by blast
qed

text \<open>
  C26. In file mode the recognised text is the words that the decoder finds for the transformed
  windows of the recording's features, normalised by the history of the worker, which moves on
  by these features; a word that is missing in the table, a matrix of the wrong width, or a
  recording that is not longer than the right context ends the server instead.
\<close>

theorem Work_recognise_functional:
  assumes "cmn_ok c" and "cdim c = num_ceps (oe_kaldi E)" and "mfcc_ok (oe_kaldi E)"
    and "fs = mfcc_rows (oe_kaldi E) wave" and "fs \<noteq> []"
  shows "\<exists>ys c'. normalised (oe_kaldi E) (history c') fs ys \<and> cmn_ok c'
    \<and> history c' = last_n (hist c) (history c @ fs)
    \<and> Work_recognise E best_path wave c =
       (if ys = [] \<or> length ys < oe_right E then Inl OutOfBounds
        else if length ys = oe_right E \<or> num_cols (oe_lda E) \<noteq> num_ceps (oe_kaldi E) * (oe_left E + oe_right E + 1) then Inl KaldiError
        else SymbolsToWords (best_path (lda_spec (oe_lda E) (oe_left E) (oe_right E) ys)) (oe_table E), c')"
  using Work_recognise_outcome [OF assms(1-3) refl assms(4,5), of best_path] by blast

section \<open>A dialogue in file mode\<close>

lemma Work_start_file:
  assumes os: "os_ok os inc out" "os_live os inc" "os_sends os"
    and inc: "inc s = packet DECODE_REQUEST [bool_byte m] @ rest"
  shows "\<exists>t. Work_start os b s = (Inr m, t) \<and> inc t = rest
    \<and> out t = out s @ packet DECODE_ACCEPT [bool_byte True]"
proof -
  obtain h u where h: "ReceiveHeader os s = (Inr h, u)" "inc u = [bool_byte m] @ rest" "out u = out s"
    "packet_type h = type_code DECODE_REQUEST" "payload_length h = 1"
    using ReceiveHeader_append [OF os(1,2), of s] inc unfolding packet_append by fastforce
  obtain v where v: "Receive os 1 1 u = (Inr [bool_byte m], v)" "inc v = rest" "out v = out u"
    using Receive_append [OF os(1,2) h(2), of 1 1] by auto
  obtain t where "SendPacket os DECODE_ACCEPT 1 [bool_byte True] v = (Inr (), t)" "inc t = inc v"
    "out t = out v @ packet DECODE_ACCEPT [bool_byte True]"
    using SendPacket_complete [OF os(1,3), of "[bool_byte True]" 1 DECODE_ACCEPT v] by auto
  with h v show ?thesis by (auto simp: Work_start_def prog_simps)
qed

lemma Receive_wave_packet:
  assumes os: "os_ok os inc out" "os_live os inc" and len: "4 * length wave < 2 ^ 31"
    and inc: "inc s = float_bytes wave @ rest"
  shows "\<exists>t. Receive_wave os (word_of_nat (4 * length wave)) s = (Inr wave, t) \<and> inc t = rest \<and> out t = out s"
proof -
  let ?p = "word_of_nat (4 * length wave) :: cint"
  have p: "sint ?p = int (4 * length wave)" using sint_small_length [of "float_bytes wave"] len by simp
  have n: "sint (word_of_int ((int (4 * length wave) mod 2 ^ 64) div 4) :: cint) = int (length wave)"
    using sint_small_length [of wave] len by simp
  obtain t where "Receive os (4 * length wave) (int (4 * length wave)) s = (Inr (float_bytes wave), t)"
    "inc t = rest" "out t = out s"
    using Receive_append [OF os inc, of "int (4 * length wave)" "4 * length wave"] by auto
  then show ?thesis using n unfolding Receive_wave_def p by (simp add: Let_def andthen_Inr)
qed

lemma Work_file_wave:
  assumes os: "os_ok os inc out" "os_live os inc" "os_sends os"
    and len: "4 * length wave < 2 ^ 31" "length words < 2 ^ 31"
    and inc: "inc s = packet DATA_WAVE (float_bytes wave) @ rest"
    and rec: "Work_recognise E best_path wave c = (Inr words, c')"
  shows "\<exists>t. Work_file E best_path os (c, s) = (Inr (Recognised words), c', t) \<and> inc t = rest
    \<and> out t = out s @ message_bytes (Output True (str_bytes words))"
proof -
  obtain h u where h: "ReceiveHeader os s = (Inr h, u)" "inc u = float_bytes wave @ rest" "out u = out s"
    "packet_type h = type_code DATA_WAVE" "payload_length h = word_of_nat (4 * length wave)"
    using ReceiveHeader_append [OF os(1,2), of s] inc unfolding packet_append by fastforce
  obtain v where v: "Receive_wave os (payload_length h) u = (Inr wave, v)" "inc v = rest" "out v = out u"
    using Receive_wave_packet [OF os(1,2) len(1) h(2)] h(5) by auto
  obtain t where "SendOutput os True words v = (Inr (), t)" "inc t = inc v"
    "out t = out v @ message_bytes (Output True (str_bytes words))"
    using SendOutput_complete [OF os(1,3) len(2)] by blast
  with h v rec show ?thesis by (auto simp: Work_file_def)
qed

lemma Client_handshake_accepted:
  assumes os: "os_ok os inc out" "os_live os inc" "os_sends os"
    and inc: "inc s = packet DECODE_ACCEPT [bool_byte True] @ rest"
  shows "\<exists>t. Client_handshake os m s = (Inr (), t) \<and> inc t = rest
    \<and> out t = out s @ packet DECODE_REQUEST [bool_byte m]"
proof -
  obtain u where u: "SendPacket os DECODE_REQUEST 1 [bool_byte m] s = (Inr (), u)" "inc u = inc s"
    "out u = out s @ packet DECODE_REQUEST [bool_byte m]"
    using SendPacket_complete [OF os(1,3), of "[bool_byte m]" 1 DECODE_REQUEST s] by auto
  obtain h v where h: "ReceiveHeader os u = (Inr h, v)" "inc v = [bool_byte True] @ rest" "out v = out u"
    "packet_type h = type_code DECODE_ACCEPT"
    using ReceiveHeader_append [OF os(1,2), of u] inc u(2) unfolding packet_append by fastforce
  obtain t where "Receive os 1 1 v = (Inr [bool_byte True], t)" "inc t = rest" "out t = out v"
    using Receive_append [OF os(1,2) h(2), of 1 1] by auto
  with u h show ?thesis by (simp add: Client_handshake_def CheckPacket_def prog_simps)
qed

lemma str_bytes_text:
  assumes "CHR 0x00 \<notin> set str"
  shows "0 \<notin> set (str_bytes str)" "map (\<lambda>b. char_of (unat b)) (str_bytes str) = str"
proof -
  have "length (takeWhile (\<lambda>b. b \<noteq> 0) (str_bytes str)) = length (str_bytes str)"
    using c_text_str_bytes [OF assms] by (simp add: c_text_def) (metis length_map)
  then have all: "takeWhile (\<lambda>b. b \<noteq> 0) (str_bytes str) = str_bytes str"
    by (metis takeWhile_eq_take take_all order_refl)
  then show "0 \<notin> set (str_bytes str)" by (metis set_takeWhileD)
  show "map (\<lambda>b. char_of (unat b)) (str_bytes str) = str"
    using c_text_str_bytes [OF assms] all by (simp add: c_text_def)
qed

text \<open>
  C7. The two programs fit together in file mode. The server, on the bytes that the client sends
  for a recording, recognises exactly this recording and answers; and the client, on the
  bytes that the server answers, sends exactly those bytes, consumes the whole answer and
  prints the recognised text, but behind it also whatever its uninitialised buffer holds up
  to the next zero byte (and beyond its end, if there is none).
\<close>

theorem file_dialogue:
  assumes "os_ok os inc out" and "os_live os inc" and "os_sends os"
    and "os_ok os' inc' out'" and "os_live os' inc'" and "os_sends os'"
    and "4 * length wave < 2 ^ 31" and "length words < output_size" and "CHR 0x00 \<notin> set words"
    and "length garbage = output_size" and "Work_recognise E best_path wave c = (Inr words, c')"
    and "sent = packet DECODE_REQUEST [bool_byte False] @ packet DATA_WAVE (float_bytes wave)"
    and "inc' x = sent"
  shows "\<exists>y answered. Work fuel E best_path os' b (c, x) = Some (Inr (Recognised words), c', y) \<and> inc' y = []
    \<and> out' y = out' x @ answered
    \<and> (\<forall>s. inc s = answered \<longrightarrow> (\<exists>t.
        andthen (Client_handshake os False) (\<lambda>_. Client_offline os wave garbage) s =
          (Inr (if 0 \<in> set (drop (length words) garbage)
             then Some (words @ c_text (drop (length words) garbage)) else None), t)
        \<and> inc t = [] \<and> out t = out s @ sent))"
proof -
  let ?answer = "message_bytes (Output True (str_bytes words))"
  have small: "length words < 2 ^ 31" using assms(8) by (simp add: output_size_def)
  obtain u where u: "Work_start os' b x = (Inr False, u)" "inc' u = packet DATA_WAVE (float_bytes wave) @ []"
    "out' u = out' x @ packet DECODE_ACCEPT [bool_byte True]"
    using Work_start_file [OF assms(4-6), of x False] assms(12,13) by auto
  obtain y where y: "Work_file E best_path os' (c, u) = (Inr (Recognised words), c', y)" "inc' y = []"
    "out' y = out' u @ ?answer"
    using Work_file_wave [OF assms(4-7) small u(2) assms(11)] by blast
  let ?answered = "packet DECODE_ACCEPT [bool_byte True] @ ?answer"
  have "\<exists>t. andthen (Client_handshake os False) (\<lambda>_. Client_offline os wave garbage) s =
          (Inr (if 0 \<in> set (drop (length words) garbage)
             then Some (words @ c_text (drop (length words) garbage)) else None), t)
        \<and> inc t = [] \<and> out t = out s @ sent"
    if "inc s = ?answered" for s
  proof -
    obtain v where v: "Client_handshake os False s = (Inr (), v)" "inc v = ?answer"
      "out v = out s @ packet DECODE_REQUEST [bool_byte False]"
      using Client_handshake_accepted [OF assms(1-3) \<open>inc s = ?answered\<close>, of False] by blast
    have "inc v = packet DECODE_OUTPUT (bool_byte True # str_bytes words) @ []" using v(2) by simp
    from Client_offline_output [OF assms(1-3,7) _ _ assms(10) this] str_bytes_text [OF assms(9)] assms(8)
    show ?thesis using v assms(12) by (auto simp: andthen_Inr)
  qed
  moreover have "Work fuel E best_path os' b (c, x) = Some (Inr (Recognised words), c', y)"
    using u(1) y(1) by (simp add: Work_def)
  ultimately show ?thesis using u(3) y(2,3) by (intro exI [of _ y] exI [of _ ?answered]) auto
qed

section \<open>One client after the other\<close>

text \<open>
  The connections that one worker serves: the state of each connection at its start, and the
  answers. The run ends with a fault as soon as one of them ends the server.
\<close>

fun serve :: "nat \<Rightarrow> ('t, 's) online_env \<Rightarrow> (vec list \<Rightarrow> int list) \<Rightarrow> 's os \<Rightarrow> byte \<Rightarrow> 's list \<Rightarrow> cmn
    \<Rightarrow> fault + answer list \<times> cmn" where
  "serve fuel E best_path os b [] cmvn = Inr ([], cmvn)"
| "serve fuel E best_path os b (s # ss) cmvn =
     (case Work fuel E best_path os b (cmvn, s) of
        None \<Rightarrow> Inl OutOfFuel
      | Some (Inl e, _) \<Rightarrow> Inl e
      | Some (Inr a, cmvn', _) \<Rightarrow>
          map_sum (\<lambda>e. e) (\<lambda>(as, c). (a # as, c)) (serve fuel E best_path os b ss cmvn'))"

text \<open>The recording in the bytes of a file-mode dialogue: the payload of the second packet.\<close>

definition recording :: "byte list \<Rightarrow> sample list" where
  "recording bs =
     (let request = sint (payload_length (header_of (take 8 bs)));
          bs' = drop (8 + nat request) bs;
          len = sint (payload_length (header_of (take 8 bs')))
      in floats_of (take (nat len) (drop 8 bs')))"

fun contributes :: "kaldi_env \<Rightarrow> answer \<Rightarrow> byte list \<Rightarrow> vec list" where
  "contributes K (Recognised words) bs = mfcc_rows K (recording bs)"
| "contributes K _ bs = []"

lemma Receive_consumes:
  assumes "os_ok os inc out" and "Receive os cap len s = (Inr bs, t)"
  shows "inc t = drop (nat len) (inc s) \<and> bs = take (nat len) (inc s)"
proof (cases "0 < len")
  case True
  then show ?thesis using Receive_Inr [OF assms] by auto
next
  case False
  then show ?thesis using assms(2) by (simp add: Receive_def Receive_loop.simps [of os cap len "[]" s])
qed

lemma ReceiveHeader_consumes:
  assumes "os_ok os inc out" and "ReceiveHeader os s = (Inr h, t)"
  shows "h = header_of (take 8 (inc s)) \<and> inc t = drop 8 (inc s)"
  using assms(2) by (auto simp: ReceiveHeader_def andthen_Inr_iff dest!: Receive_consumes [OF assms(1)])

lemma Work_start_consumes:
  assumes "os_ok os inc out" and "Work_start os b s = (Inr m, t)"
  shows "inc t = drop (8 + nat (sint (payload_length (header_of (take 8 (inc s)))))) (inc s)"
proof -
  obtain h u req v where w: "ReceiveHeader os s = (Inr h, u)"
    "Receive os 1 (sint (payload_length h)) u = (Inr req, v)"
    "\<exists>r. SendPacket os DECODE_ACCEPT 1 [bool_byte True] v = (Inr r, t)"
    using assms(2) by (auto simp: Work_start_def andthen_Inr_iff split: if_splits)
  have "inc t = inc v" using w(3) SendPacket_Inr [OF assms(1)] by blast
  then show ?thesis
    using ReceiveHeader_consumes [OF assms(1) w(1)] Receive_consumes [OF assms(1) w(2)]
    by (simp add: add.commute)
qed

lemma map_sum_Inr: "map_sum f g x = Inr y \<longleftrightarrow> (\<exists>z. x = Inr z \<and> y = g z)"
  by (cases x) auto

lemma Work_history:
  assumes os: "os_ok os inc out" and K: "mfcc_ok (oe_kaldi E)"
    and ok: "cmn_ok c" "cdim c = num_ceps (oe_kaldi E)" and ceps: "0 < num_ceps (oe_kaldi E)"
    and W: "Work fuel E best_path os b (c, s) = Some (Inr a, c', s')"
  shows "cmn_ok c' \<and> cdim c' = cdim c \<and> hist c' = hist c
    \<and> history c' = last_n (hist c) (history c @ contributes (oe_kaldi E) a (inc s))"
proof -
  have hist: "history c = last_n (hist c) (history c)"
    using ok(1) sum_history(2) [OF ok(1)] by (simp add: last_n_def cmn_ok_def)
  obtain m u where u: "Work_start os b s = (Inr m, u)"
    using W by (auto simp: Work_def split: prod.splits sum.splits)
  show ?thesis
  proof (cases "m \<or> (\<nexists>words. a = Recognised words)")
    case True
    then have "c' = c \<and> contributes (oe_kaldi E) a (inc s) = []"
      using W u by (cases a) (auto simp: Work_def Work_file_def map_sum_Inr split: prod.splits sum.splits if_splits)
    then show ?thesis using ok hist by simp
  next
    case False
    then obtain words where a: "a = Recognised words" and f: "Work_file E best_path os (c, u) = (Inr a, c', s')"
      using W u by (auto simp: Work_def)
    then obtain h v wave w where steps: "ReceiveHeader os u = (Inr h, v)"
      "Receive_wave os (payload_length h) v = (Inr wave, w)" "Work_recognise E best_path wave c = (Inr words, c')"
      by (auto simp: Work_file_def split: prod.splits sum.splits if_splits)
    have wave: "wave = recording (inc s)"
      using steps(2) ReceiveHeader_consumes [OF os steps(1)] Work_start_consumes [OF os u]
      by (auto simp: Receive_wave_def Let_def recording_def andthen_Inr_iff split: if_splits
          dest!: Receive_consumes [OF os])
    let ?fs = "mfcc_rows (oe_kaldi E) wave"
    have "?fs \<noteq> []"
    proof
      assume "?fs = []"
      then show False using steps(3) ok(2) ceps
        by (simp add: Work_recognise_def mfcc_matrix_def ApplyCmvn2_def Let_def)
    qed
    from Work_recognise_outcome [OF ok K refl refl this, of best_path] steps(3) wave a
    show ?thesis by auto
  qed
qed

lemma serve_history:
  assumes "os_ok os inc out" and "mfcc_ok (oe_kaldi E)" and "0 < num_ceps (oe_kaldi E)"
    and "serve fuel E best_path os b conns (DecodeWorker_new (oe_kaldi E)) = Inr (answers, c)"
  shows "length answers = length conns \<and> cmn_ok c \<and> cdim c = num_ceps (oe_kaldi E) \<and> hist c = 600
    \<and> history c = last_n 600 (concat (map2 (\<lambda>a s. contributes (oe_kaldi E) a (inc s)) answers conns))"
proof -
  let ?con = "\<lambda>answers conns. concat (map2 (\<lambda>a s. contributes (oe_kaldi E) a (inc s)) answers conns)"
  have "serve fuel E best_path os b conns c0 = Inr (answers, c) \<Longrightarrow> cmn_ok c0 \<Longrightarrow>
      cdim c0 = num_ceps (oe_kaldi E) \<Longrightarrow> hist c0 = 600 \<Longrightarrow> history c0 = last_n 600 before \<Longrightarrow>
      length answers = length conns \<and> cmn_ok c \<and> cdim c = num_ceps (oe_kaldi E) \<and> hist c = 600
      \<and> history c = last_n 600 (before @ ?con answers conns)"
    for c0 before
  proof (induction conns arbitrary: c0 before answers)
    case (Cons s ss)
    obtain a as c1 t where W: "Work fuel E best_path os b (c0, s) = Some (Inr a, c1, t)"
      "serve fuel E best_path os b ss c1 = Inr (as, c)" "answers = a # as"
      using Cons.prems(1) by (cases "serve fuel E best_path os b ss (fst (snd (the (Work fuel E best_path os b (c0, s)))))")
        (auto split: option.splits prod.splits sum.splits)
    note h = Work_history [OF assms(1,2) Cons.prems(2,3) assms(3) W(1)]
    have "history c1 = last_n 600 (before @ contributes (oe_kaldi E) a (inc s))"
      using h Cons.prems(4,5) by (simp add: last_n_append)
    from Cons.IH [OF W(2) _ _ _ this] h Cons.prems(3,4) W(3) show ?case by simp
  qed simp
  moreover have "cmn_ok (DecodeWorker_new (oe_kaldi E))" "cdim (DecodeWorker_new (oe_kaldi E)) = num_ceps (oe_kaldi E)"
    "hist (DecodeWorker_new (oe_kaldi E)) = 600" "history (DecodeWorker_new (oe_kaldi E)) = last_n 600 []"
    by (simp_all add: DecodeWorker_new_def OnlineCMN_new_def cmn_window_def cmn_ok_def history_def last_n_def)
  ultimately show ?thesis using assms(4) by (metis append_Nil)
qed

text \<open>
  A worker never forgets: whatever the clients that it has served did, the normalisation
  holds the last 600 feature vectors of all the recordings that it has recognised since its
  creation, in their order, the recordings of different clients one behind the other.
\<close>

theorem worker_history_spans_clients:
  assumes "os_ok os inc out" and "mfcc_ok (oe_kaldi E)" and "0 < num_ceps (oe_kaldi E)"
    and "serve fuel E best_path os b conns (DecodeWorker_new (oe_kaldi E)) = Inr (answers, c)"
  shows "length answers = length conns \<and> cmn_ok c
    \<and> history c = last_n 600 (concat (map2 (\<lambda>a s. contributes (oe_kaldi E) a (inc s)) answers conns))"
  using serve_history [OF assms] by blast

section \<open>What a client can do to the server\<close>

lemma Work_start_overflow:
  assumes os: "os_ok os inc out" "os_live os inc"
    and "inc s = header_bytes h @ rest" and "packet_type h = type_code DECODE_REQUEST"
    and "1 < sint (payload_length h)" and "sint (payload_length h) \<le> int (length rest)"
  shows "\<exists>t. Work_start os b s = (Inl OutOfBounds, t)"
proof -
  obtain u where u: "ReceiveHeader os s = (Inr h, u)" "inc u = rest"
    using ReceiveHeader_append [OF os assms(3)] by blast
  obtain v where "Receive os 1 (sint (payload_length h)) u = (Inl OutOfBounds, v)"
    using Receive_loop_overflow [OF os, of "[]" 1 "sint (payload_length h)" u] u(2) assms(5,6)
    by (auto simp: Receive_def)
  with u assms(4) show ?thesis by (auto simp: Work_start_def prog_simps)
qed

lemma Receive_wave_overflow:
  assumes os: "os_ok os inc out" "os_live os inc"
    and len: "0 < sint p" "sint p \<le> int (length (inc s))" "sint p mod 4 \<noteq> 0"
  shows "\<exists>t. Receive_wave os p s = (Inl OutOfBounds, t)"
proof -
  define n where "n = nat (sint p)"
  have n: "sint p = int n" "n < 2 ^ 31" "n mod 4 \<noteq> 0" "n \<le> length (inc s)"
    using len sint_lt [of p] by (simp_all add: n_def nat_mod_as_int nat_less_iff)
  have q: "sint (word_of_int ((int n mod 2 ^ 64) div 4) :: cint) = int (n div 4)"
  proof -
    have "int n mod 2 ^ 64 div 4 = int (length (replicate (n div 4) ()))" using n(2) by (simp add: zdiv_int)
    then show ?thesis using sint_small_length [of "replicate (n div 4) ()"] n(2) by simp
  qed
  have "4 * (n div 4) < n" using n(3) by presburger
  then obtain t where "Receive os (4 * (n div 4)) (int n) s = (Inl OutOfBounds, t)"
    using Receive_loop_overflow [OF os, of "[]" "4 * (n div 4)" "int n" s] n(4) by (auto simp: Receive_def)
  then show ?thesis using q unfolding Receive_wave_def n(1) by (simp add: Let_def andthen_Inl)
qed

lemma Work_wrong_packet:
  assumes "os_ok os inc out" and "os_live os inc" and "inc s = header_bytes h @ rest"
    and "packet_type h \<noteq> type_code DECODE_REQUEST"
  shows "\<exists>t. Work fuel E best_path os b (c, s) = Some (Inl (Exit 1), c, t)"
proof -
  obtain u where "ReceiveHeader os s = (Inr h, u)" using ReceiveHeader_append [OF assms(1-3)] by blast
  then show ?thesis using assms(4) by (simp add: Work_def Work_start_def prog_simps)
qed

text \<open>
  C20. The dialogue trusts the client. Any other first packet ends the whole server with status
  1; a request of more than one byte is written over the stack; a request without a byte is
  accepted, and the mode is then decided by what the stack held before; and a wave whose length
  is not a multiple of four is written past the end of its vector.
\<close>

theorem Work_trusts_client:
  assumes "os_ok os inc out" and "os_live os inc" and "os_sends os" and "inc s = header_bytes h @ rest"
  shows "(packet_type h \<noteq> type_code DECODE_REQUEST \<longrightarrow>
      (\<exists>t. Work fuel E best_path os b (c, s) = Some (Inl (Exit 1), c, t)))
    \<and> (packet_type h = type_code DECODE_REQUEST \<and> 1 < sint (payload_length h)
        \<and> sint (payload_length h) \<le> int (length rest) \<longrightarrow>
      (\<exists>t. Work fuel E best_path os b (c, s) = Some (Inl OutOfBounds, c, t)))
    \<and> (packet_type h = type_code DECODE_REQUEST \<and> payload_length h = 0 \<longrightarrow>
      (\<exists>t. Work_start os b s = (Inr (byte_bool b), t)))
    \<and> (packet_type h = type_code DATA_WAVE \<and> 0 < sint (payload_length h)
        \<and> sint (payload_length h) \<le> int (length rest) \<and> sint (payload_length h) mod 4 \<noteq> 0 \<longrightarrow>
      (\<exists>t. Work_file E best_path os (c, s) = (Inl OutOfBounds, c, t)))"
proof -
  obtain u where u: "ReceiveHeader os s = (Inr h, u)" "inc u = rest"
    using ReceiveHeader_append [OF assms(1,2,4)] by blast
  have wrong: "\<exists>t. Work fuel E best_path os b (c, s) = Some (Inl (Exit 1), c, t)"
    if "packet_type h \<noteq> type_code DECODE_REQUEST"
    by (rule Work_wrong_packet [OF assms(1,2,4) that])
  have stack: "\<exists>t. Work fuel E best_path os b (c, s) = Some (Inl OutOfBounds, c, t)"
    if "packet_type h = type_code DECODE_REQUEST" "1 < sint (payload_length h)"
      "sint (payload_length h) \<le> int (length rest)"
  proof -
    have "\<exists>t. Work_start os b s = (Inl OutOfBounds, t)"
      by (rule Work_start_overflow [OF assms(1,2,4) that])
    then show ?thesis by (auto simp: Work_def)
  qed
  have empty: "\<exists>t. Work_start os b s = (Inr (byte_bool b), t)"
    if "packet_type h = type_code DECODE_REQUEST" "payload_length h = 0"
  proof -
    obtain t where "SendPacket os DECODE_ACCEPT 1 [bool_byte True] u = (Inr (), t)"
      using SendPacket_complete [OF assms(1,3), of "[bool_byte True]" 1 DECODE_ACCEPT u] by auto
    moreover have "Receive os 1 0 u = (Inr [], u)"
      by (simp add: Receive_def Receive_loop.simps [of os "Suc 0" 0 "[]" u])
    ultimately show ?thesis using u that by (auto simp: Work_start_def prog_simps)
  qed
  have heap: "\<exists>t. Work_file E best_path os (c, s) = (Inl OutOfBounds, c, t)"
    if "packet_type h = type_code DATA_WAVE" "0 < sint (payload_length h)"
      "sint (payload_length h) \<le> int (length rest)" "sint (payload_length h) mod 4 \<noteq> 0"
  proof -
    have "\<exists>t. Receive_wave os (payload_length h) u = (Inl OutOfBounds, t)"
      by (rule Receive_wave_overflow [OF assms(1,2) that(2) _ that(4)]) (use that(3) u(2) in simp)
    then show ?thesis using that(1) u(1) by (auto simp: Work_file_def)
  qed
  show ?thesis using wrong stack empty heap by blast
qed

section \<open>A small worker\<close>

text \<open>
  One cepstrum per sample, no context, the identity as the transform, and a decoder that
  hears the sign of the first feature.
\<close>

definition tiny_kaldi :: kaldi_env where
  "tiny_kaldi = \<lparr>mfcc_rows = map (\<lambda>w. [real (unat w)]), extract_windows = (\<lambda>w. []), float_value = (\<lambda>w. 0),
     num_ceps = 1, junk_matrix = (\<lambda>r c. no_rows), junk_sample = 0, constant_rows = (\<lambda>rs. rs),
     score = (\<lambda>v i. 0), special_float = 0\<rparr>"

definition tiny_search :: "(unit, vec decodable \<times> 's chain) token_search" where
  "tiny_search = \<lparr>ts_emitting = (\<lambda>f k b x. (Inr b, x)), ts_nonemitting = (\<lambda>c t. t), ts_elapsed = (\<lambda>t. (0, t)),
     ts_clear = (\<lambda>t. t), ts_new_addr = (\<lambda>t. (0, t)), ts_insert = (\<lambda>k p t. t), ts_toks = (\<lambda>t. []),
     ts_reached = (\<lambda>t. False)\<rparr>"

definition tiny_env :: "(unit, conn) online_env" where
  "tiny_env = \<lparr>oe_kaldi = tiny_kaldi, oe_search = tiny_search, oe_new_search = (),
     oe_lda = \<lparr>num_cols = 1, rows = [[1]]\<rparr>, oe_left = 0, oe_right = 0, oe_graph = small_graph,
     oe_rmeps = (\<lambda>L. L), oe_worse = (\<lambda>a b. False), oe_symbols = lattice_words,
     oe_table = Some (\<lambda>k. if k = 1 then ''hi'' else ''ho''), oe_beam = 16,
     oe_traces = \<lparr>immortal_tok = [], prev_immortal_tok = []\<rparr>, oe_vad_conf = None\<rparr>"

definition tiny_path :: "vec list \<Rightarrow> int list" where
  "tiny_path rs = (if 0 < hd (hd rs) then [1] else [2])"

lemma tiny_simps [simp]:
  "oe_kaldi tiny_env = tiny_kaldi" "num_ceps tiny_kaldi = Suc 0" "mfcc_ok tiny_kaldi"
  "mfcc_rows tiny_kaldi = map (\<lambda>w. [real (unat w)])" "constant_rows tiny_kaldi = (\<lambda>rs. rs)"
  "oe_lda tiny_env = \<lparr>num_cols = 1, rows = [[1]]\<rparr>" "oe_left tiny_env = 0" "oe_right tiny_env = 0"
  "oe_table tiny_env = Some (\<lambda>k. if k = 1 then ''hi'' else ''ho'')"
  by (auto simp: tiny_env_def tiny_kaldi_def mfcc_ok_def)

lemma tiny_spec: "hd (hd (lda_spec \<lparr>num_cols = Suc 0, rows = [[1]]\<rparr> 0 0 ([x] # rs'))) = x"
  by (simp add: lda_spec_def lda_emit_def context_rows_def inner_def hd_map upt_conv_Cons del: upt_Suc)

lemma tiny_recognise:
  assumes "cmn_ok c" and "cdim c = 1" and "fs = map (\<lambda>w. [real (unat w)]) wave" and "fs \<noteq> []"
  shows "\<exists>ys c'. normalised tiny_kaldi (history c') fs ys \<and> cmn_ok c' \<and> cdim c' = 1 \<and> hist c' = hist c
    \<and> history c' = last_n (hist c) (history c @ fs)
    \<and> Work_recognise tiny_env tiny_path wave c = (Inr (if 0 < hd (hd ys) then ''hi '' else ''ho ''), c')"
proof -
  have "cdim c = num_ceps tiny_kaldi" "fs = mfcc_rows tiny_kaldi wave" by (simp_all add: assms(2,3))
  from Work_recognise_outcome [OF assms(1) this(1) tiny_simps(3,1) this(2) assms(4), of tiny_path]
  obtain ys c' where ys: "normalised tiny_kaldi (history c') fs ys" "cmn_ok c'" "cdim c' = cdim c"
    "hist c' = hist c" "history c' = last_n (hist c) (history c @ fs)"
    "Work_recognise tiny_env tiny_path wave c =
       (if ys = [] \<or> length ys < oe_right tiny_env then Inl OutOfBounds
        else if length ys = oe_right tiny_env \<or> num_cols (oe_lda tiny_env) \<noteq> num_ceps tiny_kaldi * (oe_left tiny_env + oe_right tiny_env + 1)
        then Inl KaldiError
        else SymbolsToWords (tiny_path (lda_spec (oe_lda tiny_env) (oe_left tiny_env) (oe_right tiny_env) ys))
          (oe_table tiny_env), c')"
    by blast
  have one: "\<forall>y \<in> set ys. length y = 1" "length ys = length fs"
    using ys(1) assms(3) by (auto simp: normalised_def)
  then have "ys \<noteq> []" using assms(4) by auto
  then obtain y rs where "ys = y # rs" by (cases ys) auto
  moreover from this one(1) obtain x where "y = [x]" by (auto simp: length_Suc_conv)
  ultimately show ?thesis using ys assms(2)
    by (intro exI [of _ ys] exI [of _ c']) (simp add: tiny_spec tiny_path_def SymbolsToWords_Some words_text_def)
qed

text \<open>
  The same recording \<open>[2]\<close> is recognised differently by a worker that has served \<open>[1]\<close> and by one
  that has served \<open>[3]\<close> before.
\<close>

lemma tiny_new: "cmn_ok (DecodeWorker_new tiny_kaldi)" "cdim (DecodeWorker_new tiny_kaldi) = 1"
  "hist (DecodeWorker_new tiny_kaldi) = 600" "history (DecodeWorker_new tiny_kaldi) = []"
  by (simp_all add: DecodeWorker_new_def OnlineCMN_new_def cmn_window_def cmn_ok_def history_def)

lemma two_rows: "normalised tiny_kaldi [[a], [b]] [[b]] ys \<Longrightarrow> a \<noteq> b \<Longrightarrow> 0 < hd (hd ys) \<longleftrightarrow> a < b"
proof -
  assume ys: "normalised tiny_kaldi [[a], [b]] [[b]] ys" and ne: "a \<noteq> b"
  let ?m = "(a + b) / 2"
  define v where "v = ((a - ?m) * (a - ?m) + (b - ?m) * (b - ?m)) / 2"
  have v: "variance (column 0 [[a], [b]]) = v" "mean (column 0 [[a], [b]]) = ?m"
    by (simp_all add: v_def column_def mean_def variance_def)
  have "v = ((a - b) / 2) ^ 2" by (simp add: v_def power2_eq_square field_simps)
  then have pos: "0 < v" using ne by simp
  then obtain y where "ys = [y]" "length y = 1" "y ! 0 = (b - ?m) / sqrt v"
    using ys v by (auto simp: normalised_def length_Suc_conv)
  then have "hd (hd ys) = (b - ?m) / sqrt v" by (cases y) auto
  then have "0 < hd (hd ys) \<longleftrightarrow> 0 < b - ?m" using pos by (simp only: zero_less_divide_iff) simp
  also have "\<dots> \<longleftrightarrow> a < b" by (auto simp: field_simps)
  finally show ?thesis .
qed

lemma earlier_client_changes_result:
  "\<exists>c1 c2 t1 t2 r1 r2. Work_recognise tiny_env tiny_path [1] (DecodeWorker_new tiny_kaldi) = (Inr t1, c1)
    \<and> Work_recognise tiny_env tiny_path [3] (DecodeWorker_new tiny_kaldi) = (Inr t2, c2)
    \<and> Work_recognise tiny_env tiny_path [2] c1 = (Inr ''hi '', r1)
    \<and> Work_recognise tiny_env tiny_path [2] c2 = (Inr ''ho '', r2)"
proof -
  have serve: "\<exists>c t r. Work_recognise tiny_env tiny_path [w] (DecodeWorker_new tiny_kaldi) = (Inr t, c)
      \<and> Work_recognise tiny_env tiny_path [2] c = (Inr (if real (unat w) < 2 then ''hi '' else ''ho ''), r)"
    if "real (unat w) \<noteq> 2" for w :: sample
  proof -
    obtain t c where c: "Work_recognise tiny_env tiny_path [w] (DecodeWorker_new tiny_kaldi) = (Inr t, c)"
      "cmn_ok c" "cdim c = 1" "hist c = 600" "history c = [[real (unat w)]]"
      using tiny_recognise [OF tiny_new(1,2), of "[[real (unat w)]]" "[w]"] tiny_new
      by (auto simp: last_n_def)
    then obtain ys r where "normalised tiny_kaldi [[real (unat w)], [2]] [[2]] ys"
      "Work_recognise tiny_env tiny_path [2] c = (Inr (if 0 < hd (hd ys) then ''hi '' else ''ho ''), r)"
      using tiny_recognise [OF c(2,3), of "[[2]]" "[2]"] by (auto simp: last_n_def)
    then show ?thesis using c(1) two_rows that by (intro exI) auto
  qed
  from serve [of 1] serve [of 3] show ?thesis by simp blast
qed

section \<open>Witnesses\<close>

text \<open>A client that sends a recording of one sample.\<close>

definition tiny_sent :: "byte list" where
  "tiny_sent = packet DECODE_REQUEST [bool_byte False] @ packet DATA_WAVE (float_bytes [1])"

lemma tiny_work:
  "\<exists>words c y. Work 0 tiny_env tiny_path conn_os 7 (DecodeWorker_new tiny_kaldi,
      \<lparr>inbox = [tiny_sent], outbox = []\<rparr>) = Some (Inr (Recognised words), c, y)"
proof -
  obtain words c where w: "Work_recognise tiny_env tiny_path [1] (DecodeWorker_new tiny_kaldi) = (Inr words, c)"
    "words \<in> {''hi '', ''ho ''}"
    using tiny_recognise [OF tiny_new(1,2), of "[[1]]" "[1]"] by auto
  let ?x = "\<lparr>inbox = [tiny_sent], outbox = []\<rparr>"
  have "incoming ?x = packet DECODE_REQUEST [bool_byte False] @ packet DATA_WAVE (float_bytes [1]) @ []"
    by (simp add: incoming_def tiny_sent_def)
  from Work_start_file [OF conn_os_ok conn_os_live conn_os_sends this] obtain u where u:
    "Work_start conn_os 7 ?x = (Inr False, u)" "incoming u = packet DATA_WAVE (float_bytes [1]) @ []" by blast
  have "length words < 2 ^ 31" using w(2) by auto
  from Work_file_wave [OF conn_os_ok conn_os_live conn_os_sends _ this u(2) w(1)] u(1)
  show ?thesis by (auto simp: Work_def)
qed

theorem Work_recognise_functional_witness:
  "\<exists>ys c'. normalised tiny_kaldi (history c') [[3], [1]] ys \<and> history c' = [[3], [1]]"
proof -
  have "cdim (DecodeWorker_new tiny_kaldi) = num_ceps (oe_kaldi tiny_env)" "mfcc_ok (oe_kaldi tiny_env)"
    "[[3], [1]] = mfcc_rows (oe_kaldi tiny_env) [3, 1]"
    using tiny_new by simp_all
  from Work_recognise_functional [OF tiny_new(1) this, of tiny_path] tiny_new show ?thesis
    by (auto simp: last_n_def)
qed

theorem file_dialogue_witness:
  "\<exists>words c y answered t. Work 0 tiny_env tiny_path conn_os 7 (DecodeWorker_new tiny_kaldi, \<lparr>inbox = [tiny_sent], outbox = []\<rparr>)
      = Some (Inr (Recognised words), c, y) \<and> words \<in> {''hi '', ''ho ''} \<and> outbox y = answered
    \<and> andthen (Client_handshake conn_os False) (\<lambda>_. Client_offline conn_os [1] (replicate output_size 0))
        \<lparr>inbox = [answered], outbox = []\<rparr> = (Inr (Some words), t) \<and> outbox t = tiny_sent"
proof -
  obtain words c where w: "Work_recognise tiny_env tiny_path [1] (DecodeWorker_new tiny_kaldi) = (Inr words, c)"
    "words \<in> {''hi '', ''ho ''}"
    using tiny_recognise [OF tiny_new(1,2), of "[[1]]" "[1]"] by auto
  then have len: "length words < output_size" "CHR 0x00 \<notin> set words"
    by (auto simp: output_size_def)
  have inc: "incoming \<lparr>inbox = [tiny_sent], outbox = []\<rparr> = tiny_sent" by (simp add: incoming_def)
  have small: "4 * length [1 :: sample] < 2 ^ 31" "length (replicate output_size (0 :: byte)) = output_size"
    by simp_all
  from file_dialogue [OF conn_os_ok conn_os_live conn_os_sends conn_os_ok conn_os_live conn_os_sends small(1) len
      small(2) w(1) tiny_sent_def inc, where fuel = 0 and b = 7]
  obtain y answered where y: "Work 0 tiny_env tiny_path conn_os 7 (DecodeWorker_new tiny_kaldi,
        \<lparr>inbox = [tiny_sent], outbox = []\<rparr>) = Some (Inr (Recognised words), c, y)"
      "outbox y = outbox \<lparr>inbox = [tiny_sent], outbox = []\<rparr> @ answered"
    and client: "\<forall>s. incoming s = answered \<longrightarrow> (\<exists>t.
        andthen (Client_handshake conn_os False) (\<lambda>_. Client_offline conn_os [1] (replicate output_size 0)) s =
          (Inr (if 0 \<in> set (drop (length words) (replicate output_size (0 :: byte)))
             then Some (words @ c_text (drop (length words) (replicate output_size 0))) else None), t)
        \<and> incoming t = [] \<and> outbox t = outbox s @ tiny_sent)"
    by blast
  obtain t where t: "andthen (Client_handshake conn_os False)
        (\<lambda>_. Client_offline conn_os [1] (replicate output_size 0)) \<lparr>inbox = [answered], outbox = []\<rparr> =
      (Inr (if 0 \<in> set (drop (length words) (replicate output_size (0 :: byte)))
         then Some (words @ c_text (drop (length words) (replicate output_size 0))) else None), t)"
    "outbox t = tiny_sent"
    using client [rule_format, of "\<lparr>inbox = [answered], outbox = []\<rparr>"] by (auto simp: incoming_def)
  have "0 \<in> set (drop (length words) (replicate output_size (0 :: byte)))"
    "c_text (drop (length words) (replicate output_size 0)) = []"
    using len(1) by (simp_all add: c_text_def takeWhile_eq_Nil_iff hd_replicate)
  then show ?thesis using y t w(2) by (intro exI [of _ words] exI [of _ c] exI [of _ y] exI [of _ answered] exI [of _ t]) simp
qed

theorem worker_history_spans_clients_witness:
  "\<exists>a c. serve 0 tiny_env tiny_path conn_os 7 [\<lparr>inbox = [tiny_sent], outbox = []\<rparr>] (DecodeWorker_new tiny_kaldi)
      = Inr ([a], c) \<and> cmn_ok c \<and> history c = last_n 600 (contributes tiny_kaldi a tiny_sent)"
proof -
  obtain words c y where "Work 0 tiny_env tiny_path conn_os 7 (DecodeWorker_new tiny_kaldi,
        \<lparr>inbox = [tiny_sent], outbox = []\<rparr>) = Some (Inr (Recognised words), c, y)"
    using tiny_work by blast
  then have "serve 0 tiny_env tiny_path conn_os 7 [\<lparr>inbox = [tiny_sent], outbox = []\<rparr>]
      (DecodeWorker_new (oe_kaldi tiny_env)) = Inr ([Recognised words], c)" by simp
  from worker_history_spans_clients [OF conn_os_ok _ _ this] show ?thesis
    using \<open>serve 0 tiny_env _ _ _ _ _ = _\<close> by (auto simp: incoming_def)
qed

theorem Work_trusts_client_witness:
  "\<exists>t. Work 0 tiny_env tiny_path conn_os 7 (DecodeWorker_new tiny_kaldi,
      \<lparr>inbox = [header_bytes \<lparr>payload_length = 0, packet_type = 9\<rparr>], outbox = []\<rparr>)
    = Some (Inl (Exit 1), DecodeWorker_new tiny_kaldi, t)"
proof -
  let ?s = "\<lparr>inbox = [header_bytes \<lparr>payload_length = 0, packet_type = 9\<rparr>], outbox = []\<rparr>"
  have "incoming ?s = header_bytes \<lparr>payload_length = 0, packet_type = 9\<rparr> @ []" by (simp add: incoming_def)
  from Work_trusts_client [OF conn_os_ok conn_os_live conn_os_sends this] show ?thesis by simp
qed

end
