(* ===== verification/Workers.thy ===== *)
theory Workers
  imports Prelude
begin

text \<open>
  Tasks (\<open>src/Task.h\<close>, \<open>src/Task.cc\<close>, \<open>src/SocketTask.cc\<close>) and the background worker
  (\<open>src/Worker.cc\<close>): the worker's own thread \<open>worker_func\<close>, and the thread that calls
  \<open>TryAssign\<close> and finally the destructor. The two threads share \<open>task_assigned_mutex_\<close>,
  \<open>task_assigned_cond_\<close>, \<open>task_\<close> and \<open>enabled_\<close>; the model has one rule per statement.
\<close>

section \<open>Tasks\<close>

text \<open>
  A \<open>SocketTask\<close>: its identity, the socket it wraps and the observer that \<open>Done\<close> notifies
  (\<^const>\<open>None\<close> is the null pointer).
\<close>

record task =
  task_id :: nat
  task_socket :: int
  task_observer :: "nat option"

definition SocketTask_new :: "nat \<Rightarrow> int \<Rightarrow> task" where
  "SocketTask_new n s = \<lparr>task_id = n, task_socket = s, task_observer = None\<rparr>"

definition SetObserver :: "nat \<Rightarrow> task \<Rightarrow> task" where
  "SetObserver ob t = t\<lparr>task_observer := Some ob\<rparr>"

text \<open>The observer whose \<open>OnTaskDone\<close> is called, if any.\<close>

definition Done :: "task \<Rightarrow> nat option" where
  "Done t = task_observer t"

section \<open>The worker and its two threads\<close>

datatype mutex_owner = WorkerThread | ClientThread

text \<open>
  Where \<open>worker_func\<close> stands: \<open>WStart\<close> before line 15, \<open>WLoop\<close> at the loop test of line 17,
  \<open>WCheck\<close> at line 20, \<open>WSleep\<close> inside \<open>pthread_cond_wait\<close> with the mutex released, \<open>WWoken\<close>
  woken and about to take the mutex again, \<open>WTest\<close> at line 31, \<open>WBusy\<close> inside \<open>Work()\<close>,
  \<open>WTake\<close> at lines 34 and 35, \<open>WDone\<close> and \<open>WDelete\<close> at lines 36 and 37, \<open>WUnlock\<close> at line
  41, \<open>WExit\<close> returned. \<open>WCrash\<close> is the call of \<open>Done\<close> on a null pointer.
\<close>

datatype worker_pc =
    WStart | WLoop | WCheck | WSleep | WWoken | WTest
  | WBusy task | WTake | WDone task | WDelete task | WUnlock | WExit | WCrash

text \<open>
  Where the thread that owns the worker stands: in \<open>TryAssign\<close> (\<open>CTry\<close> to \<open>CRet\<close>, lines 89
  to 105) or in the destructor (\<open>DDisable\<close> to \<open>DGone\<close>, lines 59 to 83).
\<close>

datatype client_pc =
    CIdle | CTry task | CSlot task | CSignal | CUnlock bool | CRet bool
  | DDisable | DLock | DDiscard | DSignal | DUnlock | DJoin | DGone

record bworker =
  mutex :: "mutex_owner option"
  enabled :: bool
  slot :: "task option"
  wpc :: worker_pc
  cpc :: client_pc

datatype worker_label =
    Internal | SpuriousWakeup | Assigned task | Started task | Notified nat | Freed task | Discarded task
  | Returned bool | Joined

text \<open>The constructor: \<open>enabled_\<close> is set, \<open>task_\<close> is null, the thread is created.\<close>

definition BackgroundWorker_new :: bworker where
  "BackgroundWorker_new =
     \<lparr>mutex = None, enabled = True, slot = None, wpc = WStart, cpc = CIdle\<rparr>"

inductive worker_step :: "bworker \<Rightarrow> worker_label \<Rightarrow> bworker \<Rightarrow> bool" where
  w_start: "wpc w = WStart \<Longrightarrow> mutex w = None \<Longrightarrow>
    worker_step w Internal (w\<lparr>mutex := Some WorkerThread, wpc := WLoop\<rparr>)"
| w_continue: "wpc w = WLoop \<Longrightarrow> enabled w \<Longrightarrow> worker_step w Internal (w\<lparr>wpc := WCheck\<rparr>)"
| w_stop: "wpc w = WLoop \<Longrightarrow> \<not> enabled w \<Longrightarrow> worker_step w Internal (w\<lparr>wpc := WUnlock\<rparr>)"
| w_wait: "wpc w = WCheck \<Longrightarrow> slot w = None \<Longrightarrow>
    worker_step w Internal (w\<lparr>mutex := None, wpc := WSleep\<rparr>)"
| w_skip_wait: "wpc w = WCheck \<Longrightarrow> slot w = Some t \<Longrightarrow>
    worker_step w Internal (w\<lparr>wpc := WTest\<rparr>)"
| w_spurious: "wpc w = WSleep \<Longrightarrow> worker_step w SpuriousWakeup (w\<lparr>wpc := WWoken\<rparr>)"
| w_relock: "wpc w = WWoken \<Longrightarrow> mutex w = None \<Longrightarrow>
    worker_step w Internal (w\<lparr>mutex := Some WorkerThread, wpc := WTest\<rparr>)"
| w_work: "wpc w = WTest \<Longrightarrow> slot w = Some t \<Longrightarrow>
    worker_step w (Started t) (w\<lparr>wpc := WBusy t\<rparr>)"
| w_no_task: "wpc w = WTest \<Longrightarrow> slot w = None \<Longrightarrow>
    worker_step w Internal (w\<lparr>wpc := WLoop\<rparr>)"
| w_finish: "wpc w = WBusy t \<Longrightarrow> worker_step w Internal (w\<lparr>wpc := WTake\<rparr>)"
| w_take: "wpc w = WTake \<Longrightarrow> slot w = Some t \<Longrightarrow>
    worker_step w Internal (w\<lparr>slot := None, wpc := WDone t\<rparr>)"
| w_take_null: "wpc w = WTake \<Longrightarrow> slot w = None \<Longrightarrow>
    worker_step w Internal (w\<lparr>wpc := WCrash\<rparr>)"
| w_notify: "wpc w = WDone t \<Longrightarrow> Done t = Some ob \<Longrightarrow>
    worker_step w (Notified ob) (w\<lparr>wpc := WDelete t\<rparr>)"
| w_unobserved: "wpc w = WDone t \<Longrightarrow> Done t = None \<Longrightarrow>
    worker_step w Internal (w\<lparr>wpc := WDelete t\<rparr>)"
| w_delete: "wpc w = WDelete t \<Longrightarrow> worker_step w (Freed t) (w\<lparr>wpc := WLoop\<rparr>)"
| w_unlock: "wpc w = WUnlock \<Longrightarrow>
    worker_step w Internal (w\<lparr>mutex := None, wpc := WExit\<rparr>)"

text \<open>\<open>pthread_cond_signal\<close> on \<open>task_assigned_cond_\<close>: only the worker thread waits on it.\<close>

definition wake :: "bworker \<Rightarrow> bworker" where
  "wake w = (if wpc w = WSleep then w\<lparr>wpc := WWoken\<rparr> else w)"

inductive client_step :: "bworker \<Rightarrow> worker_label \<Rightarrow> bworker \<Rightarrow> bool" where
  try_call: "cpc w = CIdle \<Longrightarrow> client_step w Internal (w\<lparr>cpc := CTry t\<rparr>)"
| try_busy: "cpc w = CTry t \<Longrightarrow> mutex w \<noteq> None \<Longrightarrow>
    client_step w Internal (w\<lparr>cpc := CRet False\<rparr>)"
| try_lock: "cpc w = CTry t \<Longrightarrow> mutex w = None \<Longrightarrow>
    client_step w Internal (w\<lparr>mutex := Some ClientThread, cpc := CSlot t\<rparr>)"
| slot_full: "cpc w = CSlot t \<Longrightarrow> slot w \<noteq> None \<Longrightarrow>
    client_step w Internal (w\<lparr>cpc := CUnlock False\<rparr>)"
| slot_free: "cpc w = CSlot t \<Longrightarrow> slot w = None \<Longrightarrow>
    client_step w (Assigned t) (w\<lparr>slot := Some t, cpc := CSignal\<rparr>)"
| try_signal: "cpc w = CSignal \<Longrightarrow> client_step w Internal ((wake w)\<lparr>cpc := CUnlock True\<rparr>)"
| try_unlock: "cpc w = CUnlock b \<Longrightarrow>
    client_step w Internal (w\<lparr>mutex := None, cpc := CRet b\<rparr>)"
| try_return: "cpc w = CRet b \<Longrightarrow> client_step w (Returned b) (w\<lparr>cpc := CIdle\<rparr>)"
| del_call: "cpc w = CIdle \<Longrightarrow> client_step w Internal (w\<lparr>cpc := DDisable\<rparr>)"
| del_disable: "cpc w = DDisable \<Longrightarrow>
    client_step w Internal (w\<lparr>enabled := False, cpc := DLock\<rparr>)"
| del_lock: "cpc w = DLock \<Longrightarrow> mutex w = None \<Longrightarrow>
    client_step w Internal (w\<lparr>mutex := Some ClientThread, cpc := DDiscard\<rparr>)"
| del_discard: "cpc w = DDiscard \<Longrightarrow> slot w = Some t \<Longrightarrow>
    client_step w (Discarded t) (w\<lparr>slot := None, cpc := DSignal\<rparr>)"
| del_nothing: "cpc w = DDiscard \<Longrightarrow> slot w = None \<Longrightarrow>
    client_step w Internal (w\<lparr>cpc := DSignal\<rparr>)"
| del_signal: "cpc w = DSignal \<Longrightarrow> client_step w Internal ((wake w)\<lparr>cpc := DUnlock\<rparr>)"
| del_unlock: "cpc w = DUnlock \<Longrightarrow>
    client_step w Internal (w\<lparr>mutex := None, cpc := DJoin\<rparr>)"
| del_join: "cpc w = DJoin \<Longrightarrow> wpc w = WExit \<Longrightarrow> client_step w Joined (w\<lparr>cpc := DGone\<rparr>)"

definition bw_step :: "bworker \<Rightarrow> worker_label \<Rightarrow> bworker \<Rightarrow> bool" where
  "bw_step w l w' \<longleftrightarrow> worker_step w l w' \<or> client_step w l w'"

text \<open>Which statement was executed.\<close>

inductive_cases worker_stepE: "worker_step w l w'"

inductive_cases client_stepE: "client_step w l w'"

section \<open>The invariant\<close>

fun w_holds :: "worker_pc \<Rightarrow> bool" where
  "w_holds WStart = False"
| "w_holds WSleep = False"
| "w_holds WWoken = False"
| "w_holds WExit = False"
| "w_holds _ = True"

fun c_holds :: "client_pc \<Rightarrow> bool" where
  "c_holds (CSlot t) = True"
| "c_holds CSignal = True"
| "c_holds (CUnlock b) = True"
| "c_holds DDiscard = True"
| "c_holds DSignal = True"
| "c_holds DUnlock = True"
| "c_holds _ = False"

text \<open>The destructor has cleared \<open>enabled_\<close>; it has also sent its signal.\<close>

fun disabling :: "client_pc \<Rightarrow> bool" where
  "disabling DLock = True"
| "disabling DDiscard = True"
| "disabling DSignal = True"
| "disabling DUnlock = True"
| "disabling DJoin = True"
| "disabling DGone = True"
| "disabling _ = False"

fun signalled :: "client_pc \<Rightarrow> bool" where
  "signalled DUnlock = True"
| "signalled DJoin = True"
| "signalled DGone = True"
| "signalled _ = False"

text \<open>What \<open>task_\<close> holds at each point of the worker thread.\<close>

fun slot_ok :: "worker_pc \<Rightarrow> task option \<Rightarrow> bool" where
  "slot_ok (WBusy t) sl = (sl = Some t)"
| "slot_ok WTake sl = (sl \<noteq> None)"
| "slot_ok (WDone t) sl = (sl = None)"
| "slot_ok (WDelete t) sl = (sl = None)"
| "slot_ok WLoop sl = True"
| "slot_ok WCrash sl = False"
| "slot_ok _ sl = True"

fun stopping :: "worker_pc \<Rightarrow> bool" where
  "stopping WUnlock = True"
| "stopping WExit = True"
| "stopping _ = False"

definition bw_inv :: "bworker \<Rightarrow> bool" where
  "bw_inv w \<longleftrightarrow>
     (mutex w = Some WorkerThread \<longleftrightarrow> w_holds (wpc w)) \<and>
     (mutex w = Some ClientThread \<longleftrightarrow> c_holds (cpc w)) \<and>
     (enabled w \<longleftrightarrow> \<not> disabling (cpc w)) \<and>
     slot_ok (wpc w) (slot w) \<and>
     (wpc w = WSleep \<longrightarrow> slot w = None \<or> cpc w = CSignal) \<and>
     (signalled (cpc w) \<longrightarrow> slot w = None \<and> wpc w \<noteq> WSleep \<and> wpc w \<noteq> WCheck \<and>
        (\<forall>t. wpc w \<noteq> WDone t \<and> wpc w \<noteq> WDelete t)) \<and>
     (cpc w = DSignal \<longrightarrow> slot w = None) \<and>
     (stopping (wpc w) \<longrightarrow> \<not> enabled w) \<and>
     (cpc w = CSignal \<longrightarrow> slot w \<noteq> None)"

lemma bw_inv_new: "bw_inv BackgroundWorker_new"
  by (simp add: bw_inv_def BackgroundWorker_new_def)

lemma worker_step_inv: "worker_step w l w' \<Longrightarrow> bw_inv w \<Longrightarrow> bw_inv w'"
  by (erule worker_stepE)
    (cases "cpc w"; simp add: bw_inv_def; fastforce)+

lemma client_step_inv: "client_step w l w' \<Longrightarrow> bw_inv w \<Longrightarrow> bw_inv w'"
  by (erule client_stepE)
    (cases "wpc w"; simp add: bw_inv_def wake_def; fastforce)+

lemma bw_step_inv: "bw_step w l w' \<Longrightarrow> bw_inv w \<Longrightarrow> bw_inv w'"
  by (auto simp: bw_step_def intro: worker_step_inv client_step_inv)

lemma bw_run_inv: "run bw_step BackgroundWorker_new ls w \<Longrightarrow> bw_inv w"
  by (erule run_invariant) (auto intro: bw_inv_new bw_step_inv)

section \<open>What happens to a task\<close>

text \<open>The tasks that a label assigns, starts, frees or discards.\<close>

fun assigned :: "worker_label \<Rightarrow> task multiset" where
  "assigned (Assigned t) = {#t#}"
| "assigned _ = {#}"

fun started :: "worker_label \<Rightarrow> task multiset" where
  "started (Started t) = {#t#}"
| "started _ = {#}"

fun freed :: "worker_label \<Rightarrow> task multiset" where
  "freed (Freed t) = {#t#}"
| "freed _ = {#}"

fun discarded :: "worker_label \<Rightarrow> task multiset" where
  "discarded (Discarded t) = {#t#}"
| "discarded _ = {#}"

fun notifications :: "worker_label \<Rightarrow> nat" where
  "notifications (Notified ob) = 1"
| "notifications _ = 0"

definition total_of :: "('l \<Rightarrow> 'm::comm_monoid_add) \<Rightarrow> 'l list \<Rightarrow> 'm" where
  "total_of f ls = sum_list (map f ls)"

lemma total_of_simps [simp]:
  "total_of f [] = 0" "total_of f (l # ls) = f l + total_of f ls"
  "total_of f (ls @ ms) = total_of f ls + total_of f ms"
  by (simp_all add: total_of_def)

text \<open>The task in \<open>task_\<close>, the one the worker thread has taken out of it, and the one it
  has started.\<close>

definition pending :: "bworker \<Rightarrow> task multiset" where
  "pending w = (case slot w of None \<Rightarrow> {#} | Some t \<Rightarrow> {#t#})"

fun in_hand :: "worker_pc \<Rightarrow> task multiset" where
  "in_hand (WDone t) = {#t#}"
| "in_hand (WDelete t) = {#t#}"
| "in_hand _ = {#}"

fun in_work :: "worker_pc \<Rightarrow> bool" where
  "in_work (WBusy t) = True"
| "in_work WTake = True"
| "in_work _ = False"

definition underway :: "bworker \<Rightarrow> task multiset" where
  "underway w = in_hand (wpc w) + (if in_work (wpc w) then pending w else {#})"

fun notified_task :: "worker_pc \<Rightarrow> task multiset" where
  "notified_task (WDelete t) = {#t#}"
| "notified_task _ = {#}"

definition observed :: "task multiset \<Rightarrow> nat" where
  "observed M = size (filter_mset (\<lambda>t. Done t \<noteq> None) M)"

lemma observed_simps [simp]:
  "observed {#} = 0" "observed (M + N) = observed M + observed N"
  "observed {#t#} = of_bool (Done t \<noteq> None)"
  by (simp_all add: observed_def)

text \<open>One step moves a task from one place to the next, and never copies or drops it.\<close>

lemma bw_step_conserves:
  assumes "bw_step w l w'" and "bw_inv w"
  shows "assigned l + pending w + in_hand (wpc w) =
      freed l + discarded l + pending w' + in_hand (wpc w')"
    and "started l + underway w = freed l + underway w'"
    and "notifications l + observed (notified_task (wpc w)) =
      observed (freed l) + observed (notified_task (wpc w'))"
proof -
  consider (worker) "worker_step w l w'" | (client) "client_step w l w'"
    using assms(1) by (auto simp: bw_step_def)
  note steps = this
  show "assigned l + pending w + in_hand (wpc w) =
      freed l + discarded l + pending w' + in_hand (wpc w')"
    using steps
  proof cases
    case worker
    then show ?thesis using assms(2)
      by (cases rule: worker_step.cases) (auto simp: pending_def bw_inv_def)
  next
    case client
    then show ?thesis using assms(2)
      by (cases rule: client_step.cases) (auto simp: pending_def wake_def)
  qed
  show "started l + underway w = freed l + underway w'"
    using steps
  proof cases
    case worker
    then show ?thesis using assms(2)
      by (cases rule: worker_step.cases) (auto simp: pending_def underway_def bw_inv_def)
  next
    case client
    then show ?thesis using assms(2)
      by (cases rule: client_step.cases; cases "wpc w")
        (auto simp: pending_def underway_def wake_def bw_inv_def)
  qed
  show "notifications l + observed (notified_task (wpc w)) =
      observed (freed l) + observed (notified_task (wpc w'))"
    using steps
  proof cases
    case worker
    then show ?thesis by (cases rule: worker_step.cases) auto
  next
    case client
    then show ?thesis by (cases rule: client_step.cases) (auto simp: wake_def)
  qed
qed

lemma bw_run_conserves:
  assumes "run bw_step BackgroundWorker_new ls w"
  shows "total_of assigned ls =
      total_of freed ls + total_of discarded ls + pending w + in_hand (wpc w)"
    and "total_of started ls = total_of freed ls + underway w"
    and "total_of notifications ls = observed (total_of freed ls) + observed (notified_task (wpc w))"
proof -
  have "total_of assigned ls =
      total_of freed ls + total_of discarded ls + pending w + in_hand (wpc w) \<and>
    total_of started ls = total_of freed ls + underway w \<and>
    total_of notifications ls = observed (total_of freed ls) + observed (notified_task (wpc w))"
    using assms
  proof (induction "BackgroundWorker_new" ls w rule: run.induct)
    case run_nil
    then show ?case
      by (simp add: pending_def underway_def BackgroundWorker_new_def)
  next
    case (run_snoc ls w l w')
    note c = bw_step_conserves [OF run_snoc.hyps(3) bw_run_inv [OF run_snoc.hyps(1)]]
    from run_snoc.hyps(2) c show ?case
      by (auto simp: algebra_simps)
  qed
  then show "total_of assigned ls =
      total_of freed ls + total_of discarded ls + pending w + in_hand (wpc w)"
    and "total_of started ls = total_of freed ls + underway w"
    and "total_of notifications ls = observed (total_of freed ls) + observed (notified_task (wpc w))"
    by auto
qed

text \<open>
  No task is lost, run twice or freed twice: at every moment of every run the assigned
  tasks are exactly those that were freed by the worker, those the destructor discarded,
  and the one still held; the started tasks are those freed plus the one underway; and the
  observer was notified once for every observed task that has been completed.
\<close>

theorem worker_conserves_tasks:
  assumes "run bw_step BackgroundWorker_new ls w"
  shows "total_of assigned ls = total_of freed ls + total_of discarded ls + pending w + in_hand (wpc w)
    \<and> total_of started ls = total_of freed ls + underway w
    \<and> total_of notifications ls = observed (total_of freed ls + notified_task (wpc w))"
  using bw_run_conserves [OF assms] by simp

text \<open>
  When the destructor has returned, every task ever assigned was either started, worked
  on and freed by the worker, or discarded without being started, and \<open>Done\<close> was called for
  each one worked on.
\<close>

theorem destructor_leaves_no_task:
  assumes "run bw_step BackgroundWorker_new ls w" and "cpc w = DGone"
  shows "total_of assigned ls = total_of freed ls + total_of discarded ls
    \<and> total_of started ls = total_of freed ls
    \<and> total_of notifications ls = observed (total_of freed ls)"
proof -
  from bw_run_inv [OF assms(1)] assms(2)
  have "slot w = None" and "in_hand (wpc w) = {#}" and "\<not> in_work (wpc w)"
    and "notified_task (wpc w) = {#}"
    by (cases "wpc w"; auto simp: bw_inv_def)+
  then show ?thesis
    using bw_run_conserves [OF assms(1)] by (simp add: pending_def underway_def)
qed

section \<open>Wake-ups and termination\<close>

text \<open>
  The worker thread alone, after \<open>TryAssign\<close> has returned: it starts the task within a
  bounded number of its own steps.
\<close>

fun start_rank :: "worker_pc \<Rightarrow> nat" where
  "start_rank WStart = 3"
| "start_rank WLoop = 2"
| "start_rank WCheck = 1"
| "start_rank WWoken = 1"
| "start_rank _ = 0"

definition start_ready :: "task \<Rightarrow> bworker \<Rightarrow> bool" where
  "start_ready t w \<longleftrightarrow> slot w = Some t \<and> enabled w \<and> mutex w \<noteq> Some ClientThread \<and>
     (w_holds (wpc w) \<longleftrightarrow> mutex w = Some WorkerThread) \<and>
     wpc w \<in> {WStart, WLoop, WCheck, WWoken, WTest}"

lemma start_ready_step:
  "worker_step w l w' \<Longrightarrow> start_ready t w \<Longrightarrow>
     l = Started t \<or> l = Internal \<and> start_ready t w' \<and> start_rank (wpc w') < start_rank (wpc w)"
  by (erule worker_stepE) (auto simp: start_ready_def)

lemma start_ready_enabled: "start_ready t w \<Longrightarrow> \<exists>l w'. worker_step w l w'"
proof (cases "mutex w")
  case None
  assume "start_ready t w"
  with None have "wpc w = WStart \<or> wpc w = WWoken" by (auto simp: start_ready_def)
  with None show ?thesis by (blast intro: w_start w_relock)
next
  case (Some ow)
  assume r: "start_ready t w"
  with Some have "wpc w \<in> {WLoop, WCheck, WTest}" by (cases ow) (auto simp: start_ready_def)
  with r show ?thesis
    by (auto simp: start_ready_def intro: w_continue w_skip_wait w_work)
qed

lemma start_ready_run:
  "run worker_step w ls w' \<Longrightarrow> start_ready t w \<Longrightarrow> Started t \<notin> set ls \<Longrightarrow>
     start_ready t w' \<and> length ls + start_rank (wpc w') \<le> start_rank (wpc w)"
proof (induction rule: run.induct)
  case (run_snoc w ls u l v)
  then have IH: "start_ready t u" "length ls + start_rank (wpc u) \<le> start_rank (wpc w)"
    by auto
  from start_ready_step [OF run_snoc.hyps(2) IH(1)] run_snoc.prems(2) IH(2) show ?case
    by auto
qed simp

text \<open>
  C36. No assignment is lost: when \<open>TryAssign\<close> has put a task into \<open>task_\<close> and returned, and
  the worker has not started it yet, the worker thread is not asleep; it can always take a
  step, and starts the task after at most three of its own steps.
\<close>

theorem assigned_task_is_started:
  assumes "run bw_step BackgroundWorker_new ls w"
    and "slot w = Some t" and "cpc w = CIdle" and "\<not> in_work (wpc w)"
    and "run worker_step w ks w'" and "Started t \<notin> set ks"
  shows "length ks \<le> 3 \<and> wpc w' \<noteq> WSleep \<and> (\<exists>l u. worker_step w' l u)"
proof -
  have "start_ready t w"
    using bw_run_inv [OF assms(1)] assms(2,3,4)
    by (cases "wpc w") (auto simp: bw_inv_def start_ready_def)
  note r = this start_ready_run [OF assms(5) this assms(6)]
  then have "start_rank (wpc w) \<le> 3" by (cases "wpc w") auto
  with r start_ready_enabled [of t w'] show ?thesis
    by (auto simp: start_ready_def)
qed

text \<open>The same for the end of the thread, once the destructor waits in \<open>pthread_join\<close>.\<close>

fun exit_rank :: "worker_pc \<Rightarrow> nat" where
  "exit_rank WStart = 4"
| "exit_rank WWoken = 4"
| "exit_rank WTest = 3"
| "exit_rank WLoop = 2"
| "exit_rank WUnlock = 1"
| "exit_rank _ = 0"

definition exit_ready :: "bworker \<Rightarrow> bool" where
  "exit_ready w \<longleftrightarrow> slot w = None \<and> \<not> enabled w \<and> mutex w \<noteq> Some ClientThread \<and>
     (w_holds (wpc w) \<longleftrightarrow> mutex w = Some WorkerThread) \<and>
     wpc w \<in> {WStart, WLoop, WWoken, WTest, WUnlock, WExit}"

lemma exit_ready_step:
  "worker_step w l w' \<Longrightarrow> exit_ready w \<Longrightarrow>
     exit_ready w' \<and> exit_rank (wpc w') < exit_rank (wpc w)"
  by (erule worker_stepE) (auto simp: exit_ready_def)

lemma exit_ready_enabled:
  assumes "exit_ready w" and "wpc w \<noteq> WExit"
  shows "\<exists>l w'. worker_step w l w'"
proof (cases "mutex w")
  case None
  with assms have "wpc w = WStart \<or> wpc w = WWoken" by (auto simp: exit_ready_def)
  with None show ?thesis by (blast intro: w_start w_relock)
next
  case (Some ow)
  with assms have "wpc w \<in> {WLoop, WTest, WUnlock}" by (cases ow) (auto simp: exit_ready_def)
  with assms show ?thesis
    by (auto simp: exit_ready_def intro: w_stop w_no_task w_unlock)
qed

lemma exit_ready_run:
  "run worker_step w ls w' \<Longrightarrow> exit_ready w \<Longrightarrow>
     exit_ready w' \<and> length ls + exit_rank (wpc w') \<le> exit_rank (wpc w)"
proof (induction rule: run.induct)
  case (run_snoc w ls u l v)
  then have IH: "exit_ready u" "length ls + exit_rank (wpc u) \<le> exit_rank (wpc w)"
    by auto
  from exit_ready_step [OF run_snoc.hyps(2) IH(1)] IH(2) show ?case
    by auto
qed simp

text \<open>
  The destructor returns: once it waits in \<open>pthread_join\<close>, the worker thread takes at
  most four more steps, never sleeps again, and can only stop by returning.
\<close>

theorem destructor_joins:
  assumes "run bw_step BackgroundWorker_new ls w" and "cpc w = DJoin"
    and "run worker_step w ks w'"
  shows "length ks \<le> 4 \<and> wpc w' \<noteq> WSleep \<and> (wpc w' = WExit \<or> (\<exists>l u. worker_step w' l u))"
proof -
  have "exit_ready w"
    using bw_run_inv [OF assms(1)] assms(2)
    by (cases "wpc w") (auto simp: bw_inv_def exit_ready_def)
  note r = this exit_ready_run [OF assms(3) this]
  then have "exit_rank (wpc w) \<le> 4" by (cases "wpc w") auto
  with r exit_ready_enabled [of w'] show ?thesis
    by (auto simp: exit_ready_def)
qed

section \<open>The steps as a function\<close>

text \<open>
  The next step of each thread as a function (\<^const>\<open>None\<close> when the thread is blocked or has
  nothing to do), so that runs can be evaluated. A scheduler's move picks the thread, or
  the call the owner makes, or a spurious wake-up.
\<close>

definition worker_next :: "bworker \<Rightarrow> (worker_label \<times> bworker) option" where
  "worker_next w = (case wpc w of
      WStart \<Rightarrow> (if mutex w = None
        then Some (Internal, w\<lparr>mutex := Some WorkerThread, wpc := WLoop\<rparr>) else None)
    | WLoop \<Rightarrow> Some (Internal, w\<lparr>wpc := (if enabled w then WCheck else WUnlock)\<rparr>)
    | WCheck \<Rightarrow> (case slot w of
          None \<Rightarrow> Some (Internal, w\<lparr>mutex := None, wpc := WSleep\<rparr>)
        | Some t \<Rightarrow> Some (Internal, w\<lparr>wpc := WTest\<rparr>))
    | WWoken \<Rightarrow> (if mutex w = None
        then Some (Internal, w\<lparr>mutex := Some WorkerThread, wpc := WTest\<rparr>) else None)
    | WTest \<Rightarrow> (case slot w of
          None \<Rightarrow> Some (Internal, w\<lparr>wpc := WLoop\<rparr>)
        | Some t \<Rightarrow> Some (Started t, w\<lparr>wpc := WBusy t\<rparr>))
    | WBusy t \<Rightarrow> Some (Internal, w\<lparr>wpc := WTake\<rparr>)
    | WTake \<Rightarrow> (case slot w of
          None \<Rightarrow> Some (Internal, w\<lparr>wpc := WCrash\<rparr>)
        | Some t \<Rightarrow> Some (Internal, w\<lparr>slot := None, wpc := WDone t\<rparr>))
    | WDone t \<Rightarrow> (case Done t of
          None \<Rightarrow> Some (Internal, w\<lparr>wpc := WDelete t\<rparr>)
        | Some ob \<Rightarrow> Some (Notified ob, w\<lparr>wpc := WDelete t\<rparr>))
    | WDelete t \<Rightarrow> Some (Freed t, w\<lparr>wpc := WLoop\<rparr>)
    | WUnlock \<Rightarrow> Some (Internal, w\<lparr>mutex := None, wpc := WExit\<rparr>)
    | _ \<Rightarrow> None)"

definition client_next :: "bworker \<Rightarrow> (worker_label \<times> bworker) option" where
  "client_next w = (case cpc w of
      CTry t \<Rightarrow> (if mutex w = None
        then Some (Internal, w\<lparr>mutex := Some ClientThread, cpc := CSlot t\<rparr>)
        else Some (Internal, w\<lparr>cpc := CRet False\<rparr>))
    | CSlot t \<Rightarrow> (if slot w = None
        then Some (Assigned t, w\<lparr>slot := Some t, cpc := CSignal\<rparr>)
        else Some (Internal, w\<lparr>cpc := CUnlock False\<rparr>))
    | CSignal \<Rightarrow> Some (Internal, (wake w)\<lparr>cpc := CUnlock True\<rparr>)
    | CUnlock b \<Rightarrow> Some (Internal, w\<lparr>mutex := None, cpc := CRet b\<rparr>)
    | CRet b \<Rightarrow> Some (Returned b, w\<lparr>cpc := CIdle\<rparr>)
    | DDisable \<Rightarrow> Some (Internal, w\<lparr>enabled := False, cpc := DLock\<rparr>)
    | DLock \<Rightarrow> (if mutex w = None
        then Some (Internal, w\<lparr>mutex := Some ClientThread, cpc := DDiscard\<rparr>) else None)
    | DDiscard \<Rightarrow> (case slot w of
          None \<Rightarrow> Some (Internal, w\<lparr>cpc := DSignal\<rparr>)
        | Some t \<Rightarrow> Some (Discarded t, w\<lparr>slot := None, cpc := DSignal\<rparr>))
    | DSignal \<Rightarrow> Some (Internal, (wake w)\<lparr>cpc := DUnlock\<rparr>)
    | DUnlock \<Rightarrow> Some (Internal, w\<lparr>mutex := None, cpc := DJoin\<rparr>)
    | DJoin \<Rightarrow> (if wpc w = WExit then Some (Joined, w\<lparr>cpc := DGone\<rparr>) else None)
    | _ \<Rightarrow> None)"

datatype move = WorkerMoves | WakesSpuriously | ClientMoves | CallsTryAssign task | CallsDelete

fun bw_move :: "move \<Rightarrow> bworker \<Rightarrow> (worker_label \<times> bworker) option" where
  "bw_move WorkerMoves w = worker_next w"
| "bw_move WakesSpuriously w =
     (if wpc w = WSleep then Some (SpuriousWakeup, w\<lparr>wpc := WWoken\<rparr>) else None)"
| "bw_move ClientMoves w = client_next w"
| "bw_move (CallsTryAssign t) w =
     (if cpc w = CIdle then Some (Internal, w\<lparr>cpc := CTry t\<rparr>) else None)"
| "bw_move CallsDelete w =
     (if cpc w = CIdle then Some (Internal, w\<lparr>cpc := DDisable\<rparr>) else None)"

lemma worker_next_sound: "worker_next w = Some (l, w') \<Longrightarrow> worker_step w l w'"
  by (auto simp: worker_next_def intro: worker_step.intros
      split: worker_pc.splits option.splits if_splits)

lemma client_next_sound: "client_next w = Some (l, w') \<Longrightarrow> client_step w l w'"
  by (auto simp: client_next_def intro: client_step.intros
      split: client_pc.splits option.splits if_splits)

lemma bw_move_sound: "bw_move m w = Some (l, w') \<Longrightarrow> bw_step w l w'"
  by (cases m) (auto simp: bw_step_def split: if_splits
      intro: worker_next_sound client_next_sound w_spurious try_call del_call)

lemma worker_step_next:
  "worker_step w l w' \<Longrightarrow> worker_next w = Some (l, w') \<or> bw_move WakesSpuriously w = Some (l, w')"
  by (induction rule: worker_step.induct) (simp_all add: worker_next_def)

lemma client_step_next:
  "client_step w l w' \<Longrightarrow> client_next w = Some (l, w') \<or>
     (\<exists>t. bw_move (CallsTryAssign t) w = Some (l, w')) \<or> bw_move CallsDelete w = Some (l, w')"
  by (induction rule: client_step.induct) (auto simp: client_next_def)

theorem bw_step_iff_move: "bw_step w l w' \<longleftrightarrow> (\<exists>m. bw_move m w = Some (l, w'))"
proof
  assume "bw_step w l w'"
  then show "\<exists>m. bw_move m w = Some (l, w')"
    unfolding bw_step_def using worker_step_next client_step_next
    by (metis bw_move.simps(1) bw_move.simps(3))
qed (auto intro: bw_move_sound)

fun bw_moves :: "move list \<Rightarrow> bworker \<Rightarrow> (worker_label list \<times> bworker) option" where
  "bw_moves [] w = Some ([], w)"
| "bw_moves (m # ms) w = (case bw_move m w of
      None \<Rightarrow> None
    | Some (l, w') \<Rightarrow> (case bw_moves ms w' of
          None \<Rightarrow> None
        | Some (ls, w'') \<Rightarrow> Some (l # ls, w'')))"

lemma bw_moves_run: "bw_moves ms w = Some (ls, w') \<Longrightarrow> run bw_step w ls w'"
proof (induction ms arbitrary: w ls)
  case Nil
  then show ?case by (auto intro: run_nil)
next
  case (Cons m ms)
  then obtain l u ls' where u: "bw_move m w = Some (l, u)" and r: "run bw_step u ls' w'"
    and ls: "ls = l # ls'"
    by (auto split: option.splits)
  from bw_move_sound [OF u] have "run bw_step w [l] u" by (rule run_step)
  from run_append [OF r this] ls show ?case by simp
qed

section \<open>TryAssign as one operation\<close>

text \<open>
  What \<open>TryAssign\<close> does when the worker thread does not move meanwhile: it refuses when the
  mutex is taken or a task is already waiting, and otherwise hands the task over and wakes
  the worker.
\<close>

definition TryAssign :: "task \<Rightarrow> bworker \<Rightarrow> bool \<times> bworker" where
  "TryAssign t w =
     (if mutex w \<noteq> None then (False, w)
      else if slot w \<noteq> None then (False, w)
      else (True, wake (w\<lparr>slot := Some t\<rparr>)))"

lemma wake_simps [simp]:
  "mutex (wake w) = mutex w" "enabled (wake w) = enabled w" "slot (wake w) = slot w"
  "cpc (wake w) = cpc w" "wpc (wake w) = (if wpc w = WSleep then WWoken else wpc w)"
  by (simp_all add: wake_def)

lemma wake_updates:
  "(wake w)\<lparr>cpc := p\<rparr> = wake (w\<lparr>cpc := p\<rparr>)"
  "(wake w)\<lparr>mutex := m\<rparr> = wake (w\<lparr>mutex := m\<rparr>)"
  by (simp_all add: wake_def)

lemma client_step_deterministic:
  "client_step w l w' \<Longrightarrow> cpc w \<noteq> CIdle \<Longrightarrow> client_next w = Some (l, w')"
  using client_step_next by fastforce

text \<open>
  The statements of \<open>TryAssign\<close>, run without interference, compute \<^const>\<open>TryAssign\<close>:
  it succeeds exactly when the mutex is free and no task is waiting.
\<close>

theorem TryAssign_steps:
  assumes "cpc w = CIdle"
  shows "\<exists>ls. run bw_step w (ls @ [Returned (fst (TryAssign t w))]) (snd (TryAssign t w))"
proof -
  define ms where "ms = CallsTryAssign t # replicate
    (if mutex w \<noteq> None then 2 else if slot w \<noteq> None then 4 else 5) ClientMoves"
  have w: "w\<lparr>mutex := None, cpc := CIdle\<rparr> = w" if "mutex w = None"
    using that assms by (cases w) simp
  have "\<exists>ls. bw_moves ms w = Some (ls @ [Returned (fst (TryAssign t w))], snd (TryAssign t w))"
    using assms w
    by (cases "mutex w"; cases "slot w")
      (auto simp: ms_def TryAssign_def client_next_def numeral_eq_Suc wake_updates)
  then show ?thesis by (blast dest: bw_moves_run)
qed

section \<open>Concrete runs\<close>

definition example_task :: task where
  "example_task = SetObserver 0 (SocketTask_new 1 7)"

lemma run_assign:
  "run bw_step BackgroundWorker_new
     [Internal, Internal, Assigned example_task, Internal, Internal, Returned True]
     \<lparr>mutex = None, enabled = True, slot = Some example_task, wpc = WStart, cpc = CIdle\<rparr>"
  by (rule bw_moves_run [of "CallsTryAssign example_task # replicate 5 ClientMoves"]) code_simp

lemma run_join:
  "run bw_step BackgroundWorker_new (replicate 9 Internal)
     \<lparr>mutex = None, enabled = False, slot = None, wpc = WWoken, cpc = DJoin\<rparr>"
  by (rule bw_moves_run [of "replicate 3 WorkerMoves @ CallsDelete # replicate 5 ClientMoves"])
    code_simp

lemma run_lifecycle:
  "run bw_step BackgroundWorker_new
     ([Internal, Internal, Assigned example_task, Internal, Internal, Returned True,
       Internal, Internal, Internal, Started example_task, Internal, Internal, Notified 0,
       Freed example_task] @ replicate 8 Internal @ [Joined])
     \<lparr>mutex = None, enabled = False, slot = None, wpc = WExit, cpc = DGone\<rparr>"
  by (rule bw_moves_run [of "CallsTryAssign example_task # replicate 5 ClientMoves @
      replicate 8 WorkerMoves @ CallsDelete # ClientMoves # replicate 2 WorkerMoves @
      replicate 5 ClientMoves"]) code_simp

theorem worker_conserves_tasks_witness:
  "total_of assigned [Internal, Internal, Assigned example_task, Internal, Internal, Returned True]
     = {#example_task#}"
  using worker_conserves_tasks [OF run_assign] by (simp add: pending_def)

theorem destructor_leaves_no_task_witness:
  "total_of notifications ([Internal, Internal, Assigned example_task, Internal, Internal,
     Returned True, Internal, Internal, Internal, Started example_task, Internal, Internal,
     Notified 0, Freed example_task] @ replicate 8 Internal @ [Joined]) = 1"
  using destructor_leaves_no_task [OF run_lifecycle]
  by (simp add: numeral_eq_Suc example_task_def SetObserver_def Done_def)

theorem assigned_task_is_started_witness:
  "\<exists>l u. worker_step \<lparr>mutex = None, enabled = True, slot = Some example_task, wpc = WStart,
     cpc = CIdle\<rparr> l u"
  using assigned_task_is_started [OF run_assign _ _ _ run_nil, of example_task] by simp

theorem destructor_joins_witness:
  "\<exists>l u. worker_step \<lparr>mutex = None, enabled = False, slot = None, wpc = WWoken, cpc = DJoin\<rparr> l u"
  using destructor_joins [OF run_join _ run_nil] by simp

theorem TryAssign_steps_witness:
  "\<exists>ls. run bw_step BackgroundWorker_new (ls @ [Returned True])
     (BackgroundWorker_new\<lparr>slot := Some example_task\<rparr>)"
  using TryAssign_steps [of BackgroundWorker_new example_task]
  by (simp add: TryAssign_def BackgroundWorker_new_def wake_def)

end
