(* ===== verification/SpeechServer.thy ===== *)
theory SpeechServer
  imports DecodeWorker Workers
begin

text \<open>
  \<open>SpeechServer\<close> (\<open>SpeechServer.cc\<close>) and the server's \<open>main\<close> (\<open>speechsvr.cc\<close>): what is read from
  the configuration file, the models that are loaded, and the workers that are created
  before the server listens. Loading is Kaldi's and OpenFst's: a parameter that maps a file
  name to the object or to a failure. Stored \<open>float\<close> values are exact.
\<close>

section \<open>Reading numbers from the configuration\<close>

text \<open>A number that \<open>atoi\<close> cannot represent is undefined behaviour.\<close>

definition conf_int :: "config \<Rightarrow> string \<Rightarrow> fault + int \<times> config" where
  "conf_int m key = (case GetInt m key of
     (Some i, m') \<Rightarrow> Inr (i, m') | (None, m') \<Rightarrow> Inl IntOverflow)"

section \<open>The server\<close>

text \<open>\<open>ReadText\<close> of a symbol table and \<open>Read\<close> of a graph return a null pointer on failure.\<close>

record 'm loader =
  load_models :: "string \<Rightarrow> fault + 'm"
  load_lda :: "string \<Rightarrow> fault + matrix"
  load_symbols :: "string \<Rightarrow> symbol_table"
  load_graph :: "string \<Rightarrow> graph option"

record 'm speech_server =
  sv_config :: config
  sv_threads :: int
  sv_models :: 'm
  sv_lda :: matrix
  sv_graph :: graph
  sv_symbols :: symbol_table
  sv_acoustic_scale :: real
  sv_left_context :: real
  sv_right_context :: real

definition SpeechServer_new :: "'m loader \<Rightarrow> kaldi_env \<Rightarrow> int \<Rightarrow> string option \<Rightarrow> fault + 'm speech_server" where
  "SpeechServer_new L K num_threads file =
     (case Config_new file of Inl e \<Rightarrow> Inl e | Inr c0 \<Rightarrow>
     (case conf_float K c0 ''acoustic_scale'' of (scale, c1) \<Rightarrow>
     (case conf_int c1 ''left_context'' of Inl e \<Rightarrow> Inl e | Inr (left, c2) \<Rightarrow>
     (case conf_int c2 ''right_context'' of Inl e \<Rightarrow> Inl e | Inr (right, c3) \<Rightarrow>
     (case GetString c3 ''model_file'' of (model_file, c4) \<Rightarrow>
     (case load_models L model_file of Inl e \<Rightarrow> Inl e | Inr models \<Rightarrow>
     (case GetString c4 ''lda_file'' of (lda_file, c5) \<Rightarrow>
     (case load_lda L lda_file of Inl e \<Rightarrow> Inl e | Inr lda \<Rightarrow>
     (case GetString c5 ''symbol_file'' of (symbol_file, c6) \<Rightarrow>
     (case GetString c6 ''fst_file'' of (fst_file, c7) \<Rightarrow>
     (case load_graph L fst_file of None \<Rightarrow> Inl AssertFailed | Some g \<Rightarrow>
       Inr \<lparr>sv_config = c7, sv_threads = num_threads, sv_models = models, sv_lda = lda, sv_graph = g,
         sv_symbols = load_symbols L symbol_file, sv_acoustic_scale = scale,
         sv_left_context = real_of_int left, sv_right_context = real_of_int right\<rparr>)))))))))))"

definition CreateTask :: "nat \<Rightarrow> int \<Rightarrow> task" where
  "CreateTask n sock = SocketTask_new n sock"

section \<open>The workers\<close>

record 'm decode_worker =
  dw_beam :: real
  dw_max_active :: int
  dw_lattice_beam :: real
  dw_models :: 'm
  dw_lda :: matrix
  dw_symbols :: symbol_table
  dw_acoustic_scale :: real
  dw_left_context :: real
  dw_right_context :: real
  dw_graph :: graph
  dw_cmvn :: cmn

text \<open>The conversion of a \<open>float\<close> to an \<open>int\<close> drops the fraction.\<close>

definition to_int :: "real \<Rightarrow> int" where
  "to_int x = (if 0 \<le> x then \<lfloor>x\<rfloor> else \<lceil>x\<rceil>)"

text \<open>
  The constructor of \<open>DecodeWorker\<close> stores its arguments (the decoder is its beam, its bound on
  active tokens and its lattice beam); what its body makes is \<^const>\<open>DecodeWorker_new\<close>.
\<close>

definition DecodeWorker_init :: "kaldi_env \<Rightarrow> real \<times> int \<times> real \<Rightarrow> 'm \<Rightarrow> matrix \<Rightarrow> symbol_table \<Rightarrow> real
    \<Rightarrow> real \<Rightarrow> real \<Rightarrow> graph \<Rightarrow> 'm decode_worker" where
  "DecodeWorker_init K decoder models lda_transform table scale left_context right_context decode_fst =
     (case decoder of (beam, max_active, lattice_beam) \<Rightarrow>
       \<lparr>dw_beam = beam, dw_max_active = max_active, dw_lattice_beam = lattice_beam,
         dw_models = models, dw_lda = lda_transform, dw_symbols = table, dw_acoustic_scale = scale,
         dw_left_context = left_context, dw_right_context = right_context, dw_graph = decode_fst,
         dw_cmvn = DecodeWorker_new K\<rparr>)"

definition CreateWorker :: "kaldi_env \<Rightarrow> 'm speech_server \<Rightarrow> 'm decode_worker \<times> 'm speech_server" where
  "CreateWorker K sv =
     (case conf_float K (sv_config sv) ''beam'' of (beam, c1) \<Rightarrow>
     (case conf_float K c1 ''max_active'' of (max_active, c2) \<Rightarrow>
     (case conf_float K c2 ''lattice_beam'' of (lattice_beam, c3) \<Rightarrow>
       (DecodeWorker_init K (beam, to_int max_active, lattice_beam) (sv_models sv) (sv_lda sv)
          (sv_symbols sv) (sv_acoustic_scale sv) (sv_left_context sv) (sv_right_context sv) (sv_graph sv),
        sv\<lparr>sv_config := c3\<rparr>))))"

text \<open>The loop of \<open>ThreadedServer::Start\<close>.\<close>

fun CreateWorkers :: "nat \<Rightarrow> kaldi_env \<Rightarrow> 'm speech_server \<Rightarrow> 'm decode_worker list \<times> 'm speech_server" where
  "CreateWorkers 0 K sv = ([], sv)"
| "CreateWorkers (Suc n) K sv =
     (case CreateWorker K sv of (w, sv') \<Rightarrow>
     (case CreateWorkers n K sv' of (ws, sv'') \<Rightarrow> (w # ws, sv'')))"

text \<open>
  What a worker uses in its dialogues. A context is converted to an unsigned number, which is
  undefined for a negative one.
\<close>

definition context_size :: "real \<Rightarrow> fault + nat" where
  "context_size x = (if -1 < x then Inr (nat \<lfloor>x\<rfloor>) else Inl IntOverflow)"

definition worker_env :: "('m \<Rightarrow> real \<Rightarrow> vec \<Rightarrow> int \<Rightarrow> real) \<Rightarrow> 'm decode_worker \<Rightarrow> ('t, 's) online_env
    \<Rightarrow> fault + ('t, 's) online_env" where
  "worker_env gmm_score w E =
     (case context_size (dw_left_context w) of Inl e \<Rightarrow> Inl e | Inr left \<Rightarrow>
     (case context_size (dw_right_context w) of Inl e \<Rightarrow> Inl e | Inr right \<Rightarrow>
       Inr (E\<lparr>oe_kaldi := (oe_kaldi E)\<lparr>score := gmm_score (dw_models w) (dw_acoustic_scale w)\<rparr>,
         oe_lda := dw_lda w, oe_left := left, oe_right := right, oe_graph := dw_graph w,
         oe_table := dw_symbols w\<rparr>)))"

section \<open>The program\<close>

text \<open>\<open>main\<close> of \<open>speechsvr.cc\<close> up to the accept loop: the workers and the listening socket.\<close>

definition speechsvr_main :: "'m loader \<Rightarrow> kaldi_env \<Rightarrow> 'n net \<Rightarrow> string option
    \<Rightarrow> ('n, 'm decode_worker list \<times> int) prog" where
  "speechsvr_main L K net server_conf =
     (case Config_new server_conf of Inl e \<Rightarrow> fail e | Inr conf \<Rightarrow>
     (case conf_int conf ''num_threads'' of Inl e \<Rightarrow> fail e | Inr (num_threads, conf1) \<Rightarrow>
     (case conf_int conf1 ''port'' of Inl e \<Rightarrow> fail e | Inr (port, conf2) \<Rightarrow>
     (case SpeechServer_new L K num_threads server_conf of Inl e \<Rightarrow> fail e | Inr server \<Rightarrow>
     (case CreateWorkers (nat (sv_threads server)) K server of (ws, server') \<Rightarrow>
       andthen (Server_Start_listen net (word_of_int port)) (\<lambda>fd. ret (ws, fd)))))))"

section \<open>Getters do not disturb each other\<close>

definition setting :: "config \<Rightarrow> string \<Rightarrow> string" where
  "setting m key = (case map_of m key of Some v \<Rightarrow> v | None \<Rightarrow> [])"

lemma GetString_setting:
  "\<exists>m'. GetString m key = (setting m key, m') \<and> setting m' = setting m"
  by (cases "map_of m key") (auto simp: GetString_def setting_def update_conv' split: option.splits)

definition float_setting :: "kaldi_env \<Rightarrow> string \<Rightarrow> real" where
  "float_setting K v = (case atof v of Some x \<Rightarrow> x | None \<Rightarrow> special_float K)"

lemma conf_float_setting:
  "\<exists>m'. conf_float K m key = (float_setting K (setting m key), m') \<and> setting m' = setting m"
  using GetString_setting [of m key]
  by (auto simp: conf_float_def GetFloat_def float_setting_def split: option.splits)

lemma conf_int_setting:
  "atoi (setting m key) = Some i \<Longrightarrow> \<exists>m'. conf_int m key = Inr (i, m') \<and> setting m' = setting m"
  using GetString_setting [of m key] by (auto simp: conf_int_def GetInt_def)


text \<open>The worker that a server with these settings creates, whatever getters ran before.\<close>

definition the_worker :: "kaldi_env \<Rightarrow> 'm speech_server \<Rightarrow> (string \<Rightarrow> string) \<Rightarrow> 'm decode_worker" where
  "the_worker K sv given = \<lparr>dw_beam = float_setting K (given ''beam''),
     dw_max_active = to_int (float_setting K (given ''max_active'')),
     dw_lattice_beam = float_setting K (given ''lattice_beam''),
     dw_models = sv_models sv, dw_lda = sv_lda sv, dw_symbols = sv_symbols sv,
     dw_acoustic_scale = sv_acoustic_scale sv, dw_left_context = sv_left_context sv,
     dw_right_context = sv_right_context sv, dw_graph = sv_graph sv, dw_cmvn = DecodeWorker_new K\<rparr>"

lemma CreateWorker_setting:
  "\<exists>c. CreateWorker K sv = (the_worker K sv (setting (sv_config sv)), sv\<lparr>sv_config := c\<rparr>)
     \<and> setting c = setting (sv_config sv)"
proof -
  obtain c1 where c1: "conf_float K (sv_config sv) ''beam'' = (float_setting K (setting (sv_config sv) ''beam''), c1)"
    "setting c1 = setting (sv_config sv)" using conf_float_setting by blast
  obtain c2 where c2: "conf_float K c1 ''max_active'' = (float_setting K (setting c1 ''max_active''), c2)"
    "setting c2 = setting c1" using conf_float_setting by blast
  obtain c3 where c3: "conf_float K c2 ''lattice_beam'' = (float_setting K (setting c2 ''lattice_beam''), c3)"
    "setting c3 = setting c2" using conf_float_setting by blast
  show ?thesis using c1 c2 c3
    by (intro exI [of _ c3]) (simp add: CreateWorker_def DecodeWorker_init_def the_worker_def)
qed

lemma CreateWorkers_setting:
  "fst (CreateWorkers n K sv) = replicate n (the_worker K sv (setting (sv_config sv)))"
proof (induction n arbitrary: sv)
  case (Suc n)
  obtain c where c: "CreateWorker K sv = (the_worker K sv (setting (sv_config sv)), sv\<lparr>sv_config := c\<rparr>)"
    "setting c = setting (sv_config sv)" using CreateWorker_setting by blast
  have "the_worker K (sv\<lparr>sv_config := c\<rparr>) (setting c) = the_worker K sv (setting (sv_config sv))"
    using c(2) by (simp add: the_worker_def)
  then show ?case using c(1) Suc.IH [of "sv\<lparr>sv_config := c\<rparr>"] by (simp add: case_prod_beta)
qed simp

section \<open>The server starts with the settings of its file\<close>

lemma SpeechServer_new_settings:
  assumes "Config_new file = Inr c" and "atoi (setting c ''left_context'') = Some left"
    and "atoi (setting c ''right_context'') = Some right"
    and "load_models L (setting c ''model_file'') = Inr models" and "load_lda L (setting c ''lda_file'') = Inr lda"
  shows "case load_graph L (setting c ''fst_file'') of
      None \<Rightarrow> SpeechServer_new L K n file = Inl AssertFailed
    | Some g \<Rightarrow> \<exists>c'. setting c' = setting c \<and> SpeechServer_new L K n file =
        Inr \<lparr>sv_config = c', sv_threads = n, sv_models = models, sv_lda = lda, sv_graph = g,
          sv_symbols = load_symbols L (setting c ''symbol_file''),
          sv_acoustic_scale = float_setting K (setting c ''acoustic_scale''),
          sv_left_context = real_of_int left, sv_right_context = real_of_int right\<rparr>"
proof -
  obtain c1 where c1: "conf_float K c ''acoustic_scale'' = (float_setting K (setting c ''acoustic_scale''), c1)"
    "setting c1 = setting c" using conf_float_setting by blast
  obtain c2 where c2: "conf_int c1 ''left_context'' = Inr (left, c2)" "setting c2 = setting c"
    using conf_int_setting [of c1 "''left_context''" left] assms(2) c1(2) by auto
  obtain c3 where c3: "conf_int c2 ''right_context'' = Inr (right, c3)" "setting c3 = setting c"
    using conf_int_setting [of c2 "''right_context''" right] assms(3) c2(2) by auto
  obtain c4 where c4: "GetString c3 ''model_file'' = (setting c ''model_file'', c4)" "setting c4 = setting c"
    using GetString_setting [of c3 "''model_file''"] c3(2) by auto
  obtain c5 where c5: "GetString c4 ''lda_file'' = (setting c ''lda_file'', c5)" "setting c5 = setting c"
    using GetString_setting [of c4 "''lda_file''"] c4(2) by auto
  obtain c6 where c6: "GetString c5 ''symbol_file'' = (setting c ''symbol_file'', c6)" "setting c6 = setting c"
    using GetString_setting [of c5 "''symbol_file''"] c5(2) by auto
  obtain c7 where c7: "GetString c6 ''fst_file'' = (setting c ''fst_file'', c7)" "setting c7 = setting c"
    using GetString_setting [of c6 "''fst_file''"] c6(2) by auto
  show ?thesis
    using c1 c2 c3 c4 c5 c6 c7 assms(1,4,5)
    by (cases "load_graph L (setting c ''fst_file'')") (auto simp: SpeechServer_new_def)
qed

text \<open>
  C24. Every worker gets the settings of the file: for a file written from entries, if the
  numbers fit and loading succeeds, as many equal workers as \<open>num_threads\<close> says are created,
  with the values of the file (the last one of a key, 0 for a missing one), before the server
  listens on its port; reading a missing setting, which changes the configuration, does not
  make a difference between the workers. A symbol table that cannot be read is not noticed.
\<close>

theorem workers_get_the_settings:
  assumes "\<forall>e \<in> set es. good_entry e" and "given = (\<lambda>k. case map_of (rev es) k of Some v \<Rightarrow> v | None \<Rightarrow> [])"
    and "atoi (given ''num_threads'') = Some n" and "atoi (given ''port'') = Some p"
    and "atoi (given ''left_context'') = Some left" and "atoi (given ''right_context'') = Some right"
    and "load_models L (given ''model_file'') = Inr models" and "load_lda L (given ''lda_file'') = Inr lda"
    and "load_graph L (given ''fst_file'') = Some g"
  shows "speechsvr_main L K net (Some (config_text es)) s =
    (case Server_Start_listen net (word_of_int p) s of
       (Inl e, t) \<Rightarrow> (Inl e, t)
     | (Inr fd, t) \<Rightarrow> (Inr (replicate (nat n) \<lparr>dw_beam = float_setting K (given ''beam''),
           dw_max_active = to_int (float_setting K (given ''max_active'')),
           dw_lattice_beam = float_setting K (given ''lattice_beam''), dw_models = models, dw_lda = lda,
           dw_symbols = load_symbols L (given ''symbol_file''),
           dw_acoustic_scale = float_setting K (given ''acoustic_scale''),
           dw_left_context = real_of_int left, dw_right_context = real_of_int right, dw_graph = g,
           dw_cmvn = DecodeWorker_new K\<rparr>, fd), t))"
proof -
  obtain c where c: "Config_new (Some (config_text es)) = Inr c" "map_of c = map_of (rev es)"
    using config_text_read [OF assms(1)] by blast
  then have v: "setting c = given" by (intro ext) (simp add: setting_def assms(2))
  obtain c1 where c1: "conf_int c ''num_threads'' = Inr (n, c1)" "setting c1 = setting c"
    using conf_int_setting [of c "''num_threads''" n] assms(3) v by auto
  obtain c2 where c2: "conf_int c1 ''port'' = Inr (p, c2)"
    using conf_int_setting [of c1 "''port''" p] assms(4) v c1(2) by auto
  obtain sv where sv: "SpeechServer_new L K n (Some (config_text es)) = Inr sv" "setting (sv_config sv) = given"
    "sv_threads sv = n" "sv_models sv = models" "sv_lda sv = lda" "sv_graph sv = g"
    "sv_symbols sv = load_symbols L (given ''symbol_file'')"
    "sv_acoustic_scale sv = float_setting K (given ''acoustic_scale'')"
    "sv_left_context sv = real_of_int left" "sv_right_context sv = real_of_int right"
    using SpeechServer_new_settings [OF c(1), of left right L models lda K n] assms(5-9) unfolding v
    by (auto simp del: Config_new.simps)
  obtain ws sv' where ws: "CreateWorkers (nat n) K sv = (ws, sv')" by fastforce
  then have "ws = replicate (nat n) (the_worker K sv given)"
    using CreateWorkers_setting [of "nat n" K sv] sv(2) by simp
  then show ?thesis
    using c1(1) c2 ws sv(1,3-) c(1)
    by (simp add: speechsvr_main_def andthen_def the_worker_def del: Config_new.simps split: prod.splits sum.splits)
qed

text \<open>The contexts of a worker are those of the file, unless they are negative.\<close>

lemma worker_env_contexts:
  assumes "dw_left_context w = real_of_int l" and "dw_right_context w = real_of_int r"
  shows "worker_env gmm_score w E =
    (if l < 0 \<or> r < 0 then Inl IntOverflow
     else Inr (E\<lparr>oe_kaldi := (oe_kaldi E)\<lparr>score := gmm_score (dw_models w) (dw_acoustic_scale w)\<rparr>,
       oe_lda := dw_lda w, oe_left := nat l, oe_right := nat r, oe_graph := dw_graph w, oe_table := dw_symbols w\<rparr>))"
proof -
  have "context_size (real_of_int i) = (if i < 0 then Inl IntOverflow else Inr (nat i))" for i
    by (auto simp: context_size_def)
  then show ?thesis by (simp add: worker_env_def assms)
qed

section \<open>Witness\<close>

definition listening_net :: "unit net" where
  "listening_net = busy_port_net\<lparr>net_bind := (\<lambda>fd a s. (0, s))\<rparr>"

definition tiny_loader :: "unit loader" where
  "tiny_loader = \<lparr>load_models = (\<lambda>f. Inr ()), load_lda = (\<lambda>f. Inr \<lparr>num_cols = 1, rows = [[1]]\<rparr>),
     load_symbols = (\<lambda>f. None), load_graph = (\<lambda>f. Some small_graph)\<rparr>"

definition tiny_conf :: "(string \<times> string) list" where
  "tiny_conf = [(''num_threads'', ''2''), (''port'', ''9000''), (''left_context'', ''4'')]"

theorem workers_get_the_settings_witness:
  "\<exists>W. speechsvr_main tiny_loader tiny_kaldi listening_net (Some (config_text tiny_conf)) ()
      = (Inr ([W, W], 3), ()) \<and> dw_left_context W = 4 \<and> dw_right_context W = 0 \<and> dw_symbols W = None"
proof -
  let ?given = "\<lambda>k. case map_of (rev tiny_conf) k of Some v \<Rightarrow> v | None \<Rightarrow> []"
  have good: "\<forall>e \<in> set tiny_conf. good_entry e"
    by (simp add: tiny_conf_def good_entry_def trimmed_def is_blank_def)
  have ints: "atoi (?given ''num_threads'') = Some 2" "atoi (?given ''port'') = Some 9000"
    "atoi (?given ''left_context'') = Some 4" "atoi (?given ''right_context'') = Some 0"
    by (simp_all add: tiny_conf_def atoi_def sign_of_def is_space_def is_digit_def)
  have load: "load_models tiny_loader (?given ''model_file'') = Inr ()"
    "load_lda tiny_loader (?given ''lda_file'') = Inr \<lparr>num_cols = 1, rows = [[1]]\<rparr>"
    "load_graph tiny_loader (?given ''fst_file'') = Some small_graph"
    by (simp_all add: tiny_loader_def)
  have net: "Server_Start_listen listening_net (word_of_int 9000) () = (Inr 3, ())"
    by (simp add: Server_Start_listen_def listening_net_def busy_port_net_def andthen_def call_or_exit_def)
  show ?thesis
    unfolding workers_get_the_settings [OF good refl ints load] net
    by (simp add: numeral_2_eq_2 tiny_loader_def)
qed

end
