(* ===== verification/Semaphores.thy ===== *)
theory Semaphores
  imports Prelude
begin

text \<open>
  The counting semaphore of \<open>src/Semaphore.cc\<close>: \<open>counter_\<close> under \<open>lock_\<close>, with
  \<open>counter_cond_\<close> for the threads that wait for it to become positive. The model has one
  program counter per thread and one rule per statement of \<open>Wait\<close>, \<open>Signal\<close> and
  \<open>GetValue\<close>, so that every interleaving of the threads is a run of \<open>sem_step\<close>. It is
  shown to refine the three atomic operations \<open>Semaphore_Wait\<close>, \<open>Semaphore_Signal\<close> and
  \<open>Semaphore_GetValue\<close> on the bare counter, which is what the task dispatcher relies on.
\<close>

section \<open>The atomic operations\<close>

text \<open>
  The object without its lock: a value of \<open>Semaphore\<close> is its counter. \<open>Wait\<close> returns
  \<^const>\<open>None\<close> while it would block.
\<close>

record semaphore =
  sem_count :: int

definition Semaphore_new :: "int \<Rightarrow> semaphore" where
  "Semaphore_new c = \<lparr>sem_count = c\<rparr>"

definition Semaphore_Wait :: "semaphore \<Rightarrow> semaphore option" where
  "Semaphore_Wait m =
     (if sem_count m \<le> 0 then None else Some (m\<lparr>sem_count := sem_count m - 1\<rparr>))"

definition Semaphore_Signal :: "semaphore \<Rightarrow> semaphore" where
  "Semaphore_Signal m = m\<lparr>sem_count := sem_count m + 1\<rparr>"

definition Semaphore_GetValue :: "semaphore \<Rightarrow> int" where
  "Semaphore_GetValue m = sem_count m"

text \<open>The contract a client of the semaphore relies on.\<close>

locale counting_semaphore =
  fixes make :: "int \<Rightarrow> 's"
    and acquire :: "'s \<Rightarrow> 's option"
    and release :: "'s \<Rightarrow> 's"
    and permits :: "'s \<Rightarrow> int"
  assumes permits_make: "permits (make n) = n"
    and acquire_blocks: "acquire s = None \<longleftrightarrow> permits s \<le> 0"
    and permits_acquire: "acquire s = Some t \<Longrightarrow> permits t = permits s - 1"
    and permits_release: "permits (release s) = permits s + 1"
begin

lemma acquire_pos: "acquire s = Some t \<Longrightarrow> 0 < permits s"
  using acquire_blocks [of s] by (cases "0 < permits s") auto

lemma acquire_nonneg: "acquire s = Some t \<Longrightarrow> 0 \<le> permits t"
  using acquire_pos [of s t] permits_acquire [of s t] by simp

lemma release_never_blocks: "0 \<le> permits s \<Longrightarrow> acquire (release s) \<noteq> None"
  using acquire_blocks [of "release s"] permits_release [of s] by simp

lemma release_acquire: "acquire (release s) = Some t \<Longrightarrow> permits t = permits s"
  using permits_acquire [of "release s" t] permits_release [of s] by simp

end

interpretation sem: counting_semaphore Semaphore_new Semaphore_Wait Semaphore_Signal
  Semaphore_GetValue
  by unfold_locales
    (auto simp: Semaphore_new_def Semaphore_Wait_def Semaphore_Signal_def
      Semaphore_GetValue_def split: if_splits)

section \<open>The threads\<close>

text \<open>
  Where a thread stands in \<open>Wait\<close> (lines 17 to 23 of the source), \<open>Signal\<close> (25 to 30) and
  \<open>GetValue\<close> (32 to 37). \<open>AcqSleep\<close> is a thread blocked in \<open>pthread_cond_wait\<close>, which has
  released the lock; \<open>AcqWoken\<close> is one that was woken and has to take the lock again.
\<close>

datatype sem_pc =
    Idle
  | AcqLock | AcqTest | AcqSleep | AcqWoken | AcqDec | AcqUnlock
  | RelLock | RelInc | RelSig | RelUnlock
  | GetLock | GetRead | GetUnlock int

record sem_state =
  counter :: int
  lock :: "nat option"
  pcs :: "sem_pc list"

text \<open>The effect on the semaphore that other threads can observe.\<close>

datatype sem_label = Tau | Acquired nat | Released nat | ReadValue nat int

definition at_pc :: "sem_state \<Rightarrow> nat \<Rightarrow> sem_pc \<Rightarrow> bool" where
  "at_pc s t p \<longleftrightarrow> t < length (pcs s) \<and> pcs s ! t = p"

definition goto :: "sem_state \<Rightarrow> nat \<Rightarrow> sem_pc \<Rightarrow> sem_state" where
  "goto s t p = s\<lparr>pcs := (pcs s)[t := p]\<rparr>"

definition sem_init :: "int \<Rightarrow> nat \<Rightarrow> sem_state" where
  "sem_init c n = \<lparr>counter = c, lock = None, pcs = replicate n Idle\<rparr>"

inductive sem_step :: "sem_state \<Rightarrow> sem_label \<Rightarrow> sem_state \<Rightarrow> bool" where
  wait_call: "at_pc s t Idle \<Longrightarrow> sem_step s Tau (goto s t AcqLock)"
| wait_lock: "at_pc s t AcqLock \<Longrightarrow> lock s = None \<Longrightarrow>
    sem_step s Tau (goto (s\<lparr>lock := Some t\<rparr>) t AcqTest)"
| wait_block: "at_pc s t AcqTest \<Longrightarrow> counter s \<le> 0 \<Longrightarrow>
    sem_step s Tau (goto (s\<lparr>lock := None\<rparr>) t AcqSleep)"
| wait_spurious: "at_pc s t AcqSleep \<Longrightarrow> sem_step s Tau (goto s t AcqWoken)"
| wait_relock: "at_pc s t AcqWoken \<Longrightarrow> lock s = None \<Longrightarrow>
    sem_step s Tau (goto (s\<lparr>lock := Some t\<rparr>) t AcqTest)"
| wait_pass: "at_pc s t AcqTest \<Longrightarrow> 0 < counter s \<Longrightarrow> sem_step s Tau (goto s t AcqDec)"
| wait_dec: "at_pc s t AcqDec \<Longrightarrow>
    sem_step s (Acquired t) (goto (s\<lparr>counter := counter s - 1\<rparr>) t AcqUnlock)"
| wait_unlock: "at_pc s t AcqUnlock \<Longrightarrow> sem_step s Tau (goto (s\<lparr>lock := None\<rparr>) t Idle)"
| signal_call: "at_pc s t Idle \<Longrightarrow> sem_step s Tau (goto s t RelLock)"
| signal_lock: "at_pc s t RelLock \<Longrightarrow> lock s = None \<Longrightarrow>
    sem_step s Tau (goto (s\<lparr>lock := Some t\<rparr>) t RelInc)"
| signal_inc: "at_pc s t RelInc \<Longrightarrow>
    sem_step s (Released t) (goto (s\<lparr>counter := counter s + 1\<rparr>) t RelSig)"
| signal_wake: "at_pc s t RelSig \<Longrightarrow> at_pc s u AcqSleep \<Longrightarrow>
    sem_step s Tau (goto (goto s u AcqWoken) t RelUnlock)"
| signal_nobody: "at_pc s t RelSig \<Longrightarrow> AcqSleep \<notin> set (pcs s) \<Longrightarrow>
    sem_step s Tau (goto s t RelUnlock)"
| signal_unlock: "at_pc s t RelUnlock \<Longrightarrow> sem_step s Tau (goto (s\<lparr>lock := None\<rparr>) t Idle)"
| value_call: "at_pc s t Idle \<Longrightarrow> sem_step s Tau (goto s t GetLock)"
| value_lock: "at_pc s t GetLock \<Longrightarrow> lock s = None \<Longrightarrow>
    sem_step s Tau (goto (s\<lparr>lock := Some t\<rparr>) t GetRead)"
| value_read: "at_pc s t GetRead \<Longrightarrow>
    sem_step s (ReadValue t (counter s)) (goto s t (GetUnlock (counter s)))"
| value_unlock: "at_pc s t (GetUnlock v) \<Longrightarrow> sem_step s Tau (goto (s\<lparr>lock := None\<rparr>) t Idle)"

lemma goto_simps [simp]:
  "counter (goto s t p) = counter s" "lock (goto s t p) = lock s"
  "pcs (goto s t p) = (pcs s)[t := p]"
  by (simp_all add: goto_def)

section \<open>The invariant\<close>

text \<open>The program points at which a thread is inside the critical section.\<close>

fun holds_lock :: "sem_pc \<Rightarrow> bool" where
  "holds_lock AcqTest = True"
| "holds_lock AcqDec = True"
| "holds_lock AcqUnlock = True"
| "holds_lock RelInc = True"
| "holds_lock RelSig = True"
| "holds_lock RelUnlock = True"
| "holds_lock GetRead = True"
| "holds_lock (GetUnlock v) = True"
| "holds_lock _ = False"

text \<open>A thread that will look at the counter, or wake one that will, before it sleeps.\<close>

fun attentive :: "sem_pc \<Rightarrow> bool" where
  "attentive AcqTest = True"
| "attentive AcqWoken = True"
| "attentive AcqDec = True"
| "attentive RelSig = True"
| "attentive _ = False"

definition sem_inv :: "sem_state \<Rightarrow> bool" where
  "sem_inv s \<longleftrightarrow>
     (\<forall>t < length (pcs s). holds_lock (pcs s ! t) \<longleftrightarrow> lock s = Some t) \<and>
     (\<forall>t. lock s = Some t \<longrightarrow> t < length (pcs s)) \<and>
     (AcqDec \<in> set (pcs s) \<longrightarrow> 0 < counter s) \<and>
     (AcqSleep \<in> set (pcs s) \<longrightarrow> counter s \<le> num attentive (pcs s))"

lemma sem_inv_init: "sem_inv (sem_init c n)"
  by (auto simp: sem_inv_def sem_init_def)

lemma set_update_cases: "x \<in> set (xs[i := v]) \<Longrightarrow> x = v \<or> x \<in> set xs"
  by (meson insert_iff set_update_subset_insert subsetD)

lemma sem_inv_lock:
  assumes "sem_step s l s'" and "sem_inv s"
  shows "(\<forall>t < length (pcs s'). holds_lock (pcs s' ! t) \<longleftrightarrow> lock s' = Some t) \<and>
    (\<forall>t. lock s' = Some t \<longrightarrow> t < length (pcs s'))"
  using assms
  by (induction rule: sem_step.induct) (auto simp: sem_inv_def at_pc_def nth_list_update)

text \<open>Only the owner of the lock can be about to decrement.\<close>

lemma sem_inv_owner:
  "sem_inv s \<Longrightarrow> at_pc s t p \<Longrightarrow> holds_lock p \<Longrightarrow> at_pc s u q \<Longrightarrow> holds_lock q \<Longrightarrow> t = u"
  by (auto simp: sem_inv_def at_pc_def)

lemma sem_inv_dec:
  assumes "sem_step s l s'" and inv: "sem_inv s"
  shows "AcqDec \<in> set (pcs s') \<longrightarrow> 0 < counter s'"
  using assms(1)
proof (cases rule: sem_step.cases)
  case (wait_dec t)
  have "AcqDec \<notin> set (pcs s')"
  proof
    assume "AcqDec \<in> set (pcs s')"
    then obtain u where "u < length (pcs s)" "(pcs s)[t := AcqUnlock] ! u = AcqDec"
      using wait_dec(2) by (auto simp: in_set_conv_nth)
    then have "at_pc s u AcqDec" and "u \<noteq> t"
      by (cases "u = t"; auto simp: at_pc_def)+
    with sem_inv_owner [OF inv this(1) _ wait_dec(3)] show False by simp
  qed
  then show ?thesis by simp
next
  case (signal_inc t)
  with inv show ?thesis
    by (auto simp: sem_inv_def dest!: set_update_cases)
qed (use inv in \<open>simp add: sem_inv_def; blast dest: set_update_cases\<close>)+

lemma sem_inv_sleep:
  assumes "sem_step s l s'" and inv: "sem_inv s"
  shows "AcqSleep \<in> set (pcs s') \<longrightarrow> counter s' \<le> num attentive (pcs s')"
  using assms(1)
proof (cases rule: sem_step.cases)
  case (wait_block t)
  then show ?thesis
    using num_nonneg [of attentive "pcs s'"] by (simp del: num_nonneg)
next
  case (signal_nobody t)
  then show ?thesis
    by (auto dest!: set_update_cases)
qed (use inv in \<open>auto simp: sem_inv_def at_pc_def num_update nth_list_update dest!: set_update_cases\<close>)

theorem sem_step_inv: "sem_step s l s' \<Longrightarrow> sem_inv s \<Longrightarrow> sem_inv s'"
  using sem_inv_lock [of s l s'] sem_inv_dec [of s l s'] sem_inv_sleep [of s l s']
  unfolding sem_inv_def by blast

lemma sem_run_inv: "run sem_step (sem_init c n) ls s \<Longrightarrow> sem_inv s"
  by (erule run_invariant) (auto intro: sem_inv_init sem_step_inv)

section \<open>Refinement: the threads implement the atomic operations\<close>

text \<open>What each observable label does to the bare semaphore.\<close>

fun sem_spec :: "semaphore \<Rightarrow> sem_label \<Rightarrow> semaphore option" where
  "sem_spec m Tau = Some m"
| "sem_spec m (Acquired t) = Semaphore_Wait m"
| "sem_spec m (Released t) = Some (Semaphore_Signal m)"
| "sem_spec m (ReadValue t v) = (if v = Semaphore_GetValue m then Some m else None)"

fun sem_spec_run :: "semaphore \<Rightarrow> sem_label list \<Rightarrow> semaphore option" where
  "sem_spec_run m [] = Some m"
| "sem_spec_run m (l # ls) =
     (case sem_spec m l of None \<Rightarrow> None | Some m' \<Rightarrow> sem_spec_run m' ls)"

definition sem_abs :: "sem_state \<Rightarrow> semaphore" where
  "sem_abs s = \<lparr>sem_count = counter s\<rparr>"

lemma sem_spec_run_append:
  "sem_spec_run m (ls @ ks) =
     (case sem_spec_run m ls of None \<Rightarrow> None | Some m' \<Rightarrow> sem_spec_run m' ks)"
  by (induction ls arbitrary: m) (auto split: option.splits)

lemma sem_step_refines:
  "sem_step s l s' \<Longrightarrow> sem_inv s \<Longrightarrow> sem_spec (sem_abs s) l = Some (sem_abs s')"
proof (induction rule: sem_step.induct)
  case (wait_dec s t)
  then have "AcqDec \<in> set (pcs s)"
    by (auto simp: at_pc_def in_set_conv_nth)
  with wait_dec have "0 < counter s" by (simp add: sem_inv_def)
  then show ?case by (simp add: sem_abs_def Semaphore_Wait_def)
qed (simp_all add: sem_abs_def Semaphore_Signal_def Semaphore_GetValue_def)

lemma sem_run_refines:
  assumes "run sem_step (sem_init c n) ls s"
  shows "sem_spec_run (Semaphore_new c) ls = Some (sem_abs s)"
proof -
  have "sem_inv s \<and> sem_spec_run (sem_abs (sem_init c n)) ls = Some (sem_abs s)"
    if "run sem_step (sem_init c n) ls s" for ls s
    using that
    by (induction "sem_init c n" ls s rule: run.induct)
      (auto simp: sem_spec_run_append intro: sem_inv_init sem_step_inv dest: sem_step_refines)
  with assms show ?thesis
    by (simp add: sem_abs_def sem_init_def Semaphore_new_def)
qed

text \<open>The counter is what the completed operations leave of it.\<close>

fun is_acquired :: "sem_label \<Rightarrow> bool" where
  "is_acquired (Acquired t) = True"
| "is_acquired _ = False"

fun is_released :: "sem_label \<Rightarrow> bool" where
  "is_released (Released t) = True"
| "is_released _ = False"

lemma sem_spec_count:
  "sem_spec m l = Some m' \<Longrightarrow>
     sem_count m' = sem_count m + of_bool (is_released l) - of_bool (is_acquired l)"
  by (cases l) (auto simp: Semaphore_Signal_def Semaphore_Wait_def split: if_splits)

lemma sem_spec_run_count:
  "sem_spec_run m ls = Some m' \<Longrightarrow>
     sem_count m' = sem_count m + num is_released ls - num is_acquired ls"
  by (induction ls arbitrary: m) (auto split: option.splits dest!: sem_spec_count)

lemma sem_spec_nonneg: "sem_spec m l = Some m' \<Longrightarrow> 0 \<le> sem_count m \<Longrightarrow> 0 \<le> sem_count m'"
  by (cases l) (auto simp: Semaphore_Signal_def Semaphore_Wait_def split: if_splits)

lemma sem_spec_run_nonneg:
  "sem_spec_run m ls = Some m' \<Longrightarrow> 0 \<le> sem_count m \<Longrightarrow> 0 \<le> sem_count m'"
  by (induction ls arbitrary: m) (auto split: option.splits dest: sem_spec_nonneg)

text \<open>
  C39. Every interleaving of threads that call \<open>Wait\<close>, \<open>Signal\<close> and \<open>GetValue\<close> on one
  semaphore has the effect of the atomic operations in the order of their labels: the
  counter equals the initial value plus the completed signals minus the completed waits,
  it never becomes negative when it starts non-negative, and each value read is the
  counter of that moment.
\<close>

theorem semaphore_refines_counter:
  assumes "run sem_step (sem_init c n) ls s" and "0 \<le> c"
  shows "sem_spec_run (Semaphore_new c) ls = Some \<lparr>sem_count = counter s\<rparr>
    \<and> counter s = c + num is_released ls - num is_acquired ls \<and> 0 \<le> counter s"
  using sem_run_refines [OF assms(1)] assms(2)
    sem_spec_run_count [of "Semaphore_new c" ls "sem_abs s"]
    sem_spec_run_nonneg [of "Semaphore_new c" ls "sem_abs s"]
  by (simp add: sem_abs_def Semaphore_new_def)

section \<open>Mutual exclusion and wake-ups\<close>

lemma sem_mutual_exclusion:
  "run sem_step (sem_init c n) ls s \<Longrightarrow> at_pc s t p \<Longrightarrow> holds_lock p \<Longrightarrow>
     at_pc s u q \<Longrightarrow> holds_lock q \<Longrightarrow> t = u"
  by (erule sem_inv_owner [OF sem_run_inv])

text \<open>
  No wake-up is lost: when every thread has either finished its call or sleeps in
  \<open>pthread_cond_wait\<close>, a sleeping thread means that no permit is left.
\<close>

theorem semaphore_no_lost_wakeup:
  assumes "run sem_step (sem_init c n) ls s"
    and "set (pcs s) \<subseteq> {Idle, AcqSleep}" and "AcqSleep \<in> set (pcs s)"
  shows "counter s \<le> 0"
proof -
  have "num attentive (pcs s) = 0"
    using assms(2) by (auto simp: num_zero_iff)
  with sem_run_inv [OF assms(1)] assms(3) show ?thesis
    by (simp add: sem_inv_def)
qed

text \<open>A thread inside an operation that neither sleeps nor waits for the lock can move.\<close>

lemma lock_holder_moves:
  assumes "at_pc s t p" and "holds_lock p"
  shows "\<exists>l s'. sem_step s l s' \<and> pcs s' ! t \<noteq> p"
proof (cases p)
  case AcqTest
  have t: "t < length (pcs s)" using assms(1) by (simp add: at_pc_def)
  show ?thesis
  proof (cases "0 < counter s")
    case True
    with wait_pass [of s t] assms(1) AcqTest t show ?thesis by fastforce
  next
    case False
    with wait_block [of s t] assms(1) AcqTest t show ?thesis by fastforce
  qed
next
  case RelSig
  have t: "t < length (pcs s)" using assms(1) by (simp add: at_pc_def)
  show ?thesis
  proof (cases "AcqSleep \<in> set (pcs s)")
    case True
    then obtain u where "at_pc s u AcqSleep" by (auto simp: at_pc_def in_set_conv_nth)
    with signal_wake [of s t u] assms(1) RelSig t show ?thesis by fastforce
  next
    case False
    with signal_nobody [of s t] assms(1) RelSig t show ?thesis by fastforce
  qed
qed (use assms in \<open>fastforce simp: at_pc_def intro: wait_dec wait_unlock signal_inc
  signal_unlock value_read value_unlock\<close>)+

lemma sem_lock_owner:
  assumes "sem_inv s" and "lock s = Some t"
  shows "\<exists>p. at_pc s t p \<and> holds_lock p"
  using assms by (auto simp: sem_inv_def at_pc_def)

text \<open>
  The semaphore has no deadlock of its own: in a reachable state in which some thread
  is inside a call and not asleep, a thread inside a call can take its next step.
\<close>

theorem semaphore_progress:
  assumes "run sem_step (sem_init c n) ls s"
    and "at_pc s t p" and "p \<notin> {Idle, AcqSleep}"
  shows "\<exists>u q l s'. at_pc s u q \<and> q \<notin> {Idle, AcqSleep} \<and> sem_step s l s' \<and> pcs s' ! u \<noteq> q"
proof (cases "lock s")
  case (Some u)
  with sem_lock_owner [OF sem_run_inv [OF assms(1)]] obtain q
    where q: "at_pc s u q" "holds_lock q" by blast
  then have "q \<notin> {Idle, AcqSleep}" by auto
  with q lock_holder_moves [OF q] show ?thesis by blast
next
  case None
  then have "\<not> holds_lock p"
    using sem_run_inv [OF assms(1)] assms(2) by (auto simp: sem_inv_def at_pc_def)
  then have "\<exists>l s'. sem_step s l s' \<and> pcs s' ! t \<noteq> p"
    using assms(2,3) None
    by (cases p) (fastforce simp: at_pc_def intro: wait_lock wait_relock signal_lock value_lock)+
  with assms(2,3) show ?thesis by blast
qed

section \<open>Concrete runs\<close>

lemma run_sleeping_waiter:
  "run sem_step (sem_init 0 1) [Tau, Tau, Tau] \<lparr>counter = 0, lock = None, pcs = [AcqSleep]\<rparr>"
proof -
  let ?s0 = "sem_init 0 1"
  let ?s1 = "goto ?s0 0 AcqLock"
  let ?s2 = "goto (?s1\<lparr>lock := Some 0\<rparr>) 0 AcqTest"
  let ?s3 = "goto (?s2\<lparr>lock := None\<rparr>) 0 AcqSleep"
  have "sem_step ?s0 Tau ?s1"
    by (rule wait_call) (simp add: at_pc_def sem_init_def)
  then have "run sem_step ?s0 [Tau] ?s1" by (rule run_step)
  moreover have "sem_step ?s1 Tau ?s2"
    by (rule wait_lock) (simp_all add: at_pc_def sem_init_def)
  ultimately have "run sem_step ?s0 ([Tau] @ [Tau]) ?s2" by (rule run_snoc)
  moreover have "sem_step ?s2 Tau ?s3"
    by (rule wait_block) (simp_all add: at_pc_def sem_init_def)
  ultimately have "run sem_step ?s0 (([Tau] @ [Tau]) @ [Tau]) ?s3" by (rule run_snoc)
  then show ?thesis by (simp add: goto_def sem_init_def)
qed

lemma run_signal:
  "run sem_step (sem_init 0 1) [Tau, Tau, Released 0]
     \<lparr>counter = 1, lock = Some 0, pcs = [RelSig]\<rparr>"
proof -
  let ?s0 = "sem_init 0 1"
  let ?s1 = "goto ?s0 0 RelLock"
  let ?s2 = "goto (?s1\<lparr>lock := Some 0\<rparr>) 0 RelInc"
  let ?s3 = "goto (?s2\<lparr>counter := counter ?s2 + 1\<rparr>) 0 RelSig"
  have "sem_step ?s0 Tau ?s1"
    by (rule signal_call) (simp add: at_pc_def sem_init_def)
  then have "run sem_step ?s0 [Tau] ?s1" by (rule run_step)
  moreover have "sem_step ?s1 Tau ?s2"
    by (rule signal_lock) (simp_all add: at_pc_def sem_init_def)
  ultimately have "run sem_step ?s0 ([Tau] @ [Tau]) ?s2" by (rule run_snoc)
  moreover have "sem_step ?s2 (Released 0) ?s3"
    by (rule signal_inc) (simp_all add: at_pc_def sem_init_def)
  ultimately have "run sem_step ?s0 (([Tau] @ [Tau]) @ [Released 0]) ?s3" by (rule run_snoc)
  then show ?thesis by (simp add: goto_def sem_init_def)
qed

theorem semaphore_refines_counter_witness:
  "sem_spec_run (Semaphore_new 0) [Tau, Tau, Released 0] = Some \<lparr>sem_count = 1\<rparr>"
  using semaphore_refines_counter [OF run_signal] by simp

theorem semaphore_no_lost_wakeup_witness:
  "counter \<lparr>counter = 0, lock = None, pcs = [AcqSleep]\<rparr> \<le> 0"
  by (rule semaphore_no_lost_wakeup [OF run_sleeping_waiter]) simp_all

theorem semaphore_progress_witness:
  "\<exists>u q l s'. at_pc \<lparr>counter = 1, lock = Some 0, pcs = [RelSig]\<rparr> u q \<and> q \<notin> {Idle, AcqSleep} \<and>
     sem_step \<lparr>counter = 1, lock = Some 0, pcs = [RelSig]\<rparr> l s' \<and> pcs s' ! u \<noteq> q"
  by (rule semaphore_progress [OF run_signal, of 0 RelSig]) (simp_all add: at_pc_def)

end
