(* ===== verification/Dispatcher.thy ===== *)
theory Dispatcher
  imports Semaphores Workers
begin

text \<open>
  The pool: \<open>TaskDispatcher\<close> (\<open>src/TaskDispatcher.cc\<close>) with its semaphore and its vector of
  background workers, driven by the main thread of \<open>ThreadedServer\<close> (\<open>src/ThreadedServer.cc\<close>)
  and the accept loop of \<open>Server\<close> (\<open>src/Server.cc\<close>). The semaphore is used through its
  contract \<open>counting_semaphore\<close>; each worker is the two-thread machine of theory
  \<open>Workers\<close>, whose client thread is here the main thread.
\<close>

section \<open>States and steps\<close>

text \<open>
  Where the main thread stands: adding worker number \<open>i\<close> (\<open>MAdd\<close>, then \<open>MAddSignal\<close> between
  \<open>push_back\<close> and \<open>Signal\<close>), in \<open>accept\<close>, in \<open>Dispatch\<close> at the semaphore, in its loop at
  worker \<open>i\<close>, stopped by the failed assertion, deleting the dispatcher, or done with that.
\<close>

datatype main_pc =
    MAdd nat | MAddSignal nat | MAccept | MWait task | MScan task nat | MAssert task
  | MDelete | MGone

record pool =
  permits :: semaphore
  workers :: "bworker list"
  mainpc :: main_pc

datatype pool_label = Silent | Accepted task | Dispatched | Aborted | Event nat worker_label

text \<open>The dispatcher observes its own tasks; it is observer number 0.\<close>

definition dispatcher_id :: nat where
  "dispatcher_id = 0"

definition TaskDispatcher_new :: pool where
  "TaskDispatcher_new = \<lparr>permits = Semaphore_new 0, workers = [], mainpc = MAdd 0\<rparr>"

definition OnTaskDone :: "pool \<Rightarrow> pool" where
  "OnTaskDone p = p\<lparr>permits := Semaphore_Signal (permits p)\<rparr>"

definition set_worker :: "pool \<Rightarrow> nat \<Rightarrow> bworker \<Rightarrow> pool" where
  "set_worker p i w = p\<lparr>workers := (workers p)[i := w]\<rparr>"

text \<open>The program points inside \<open>TryAssign\<close>, between its call and its return value.\<close>

fun in_try :: "client_pc \<Rightarrow> bool" where
  "in_try (CTry t) = True"
| "in_try (CSlot t) = True"
| "in_try CSignal = True"
| "in_try (CUnlock b) = True"
| "in_try _ = False"

inductive pool_step :: "int \<Rightarrow> pool \<Rightarrow> pool_label \<Rightarrow> pool \<Rightarrow> bool" for num_threads where
  p_add: "mainpc p = MAdd i \<Longrightarrow> int i < num_threads \<Longrightarrow>
    pool_step num_threads p Silent
      (p\<lparr>workers := workers p @ [BackgroundWorker_new], mainpc := MAddSignal i\<rparr>)"
| p_add_signal: "mainpc p = MAddSignal i \<Longrightarrow>
    pool_step num_threads p Silent
      (p\<lparr>permits := Semaphore_Signal (permits p), mainpc := MAdd (Suc i)\<rparr>)"
| p_added: "mainpc p = MAdd i \<Longrightarrow> \<not> int i < num_threads \<Longrightarrow>
    pool_step num_threads p Silent (p\<lparr>mainpc := MAccept\<rparr>)"
| p_accept: "mainpc p = MAccept \<Longrightarrow> t = SocketTask_new n sock \<Longrightarrow>
    pool_step num_threads p (Accepted t) (p\<lparr>mainpc := MWait t\<rparr>)"
| p_wait: "mainpc p = MWait t \<Longrightarrow> Semaphore_Wait (permits p) = Some m \<Longrightarrow>
    pool_step num_threads p Silent
      (p\<lparr>permits := m, mainpc := MScan (SetObserver dispatcher_id t) 0\<rparr>)"
| p_call: "mainpc p = MScan t i \<Longrightarrow> i < length (workers p) \<Longrightarrow> w = workers p ! i \<Longrightarrow>
    cpc w = CIdle \<Longrightarrow>
    pool_step num_threads p Silent (set_worker p i (w\<lparr>cpc := CTry t\<rparr>))"
| p_try: "mainpc p = MScan t i \<Longrightarrow> i < length (workers p) \<Longrightarrow> w = workers p ! i \<Longrightarrow>
    in_try (cpc w) \<Longrightarrow> client_step w l w' \<Longrightarrow>
    pool_step num_threads p (Event i l) (set_worker p i w')"
| p_success: "mainpc p = MScan t i \<Longrightarrow> i < length (workers p) \<Longrightarrow> w = workers p ! i \<Longrightarrow>
    cpc w = CRet True \<Longrightarrow>
    pool_step num_threads p Dispatched ((set_worker p i (w\<lparr>cpc := CIdle\<rparr>))\<lparr>mainpc := MAccept\<rparr>)"
| p_failure: "mainpc p = MScan t i \<Longrightarrow> i < length (workers p) \<Longrightarrow> w = workers p ! i \<Longrightarrow>
    cpc w = CRet False \<Longrightarrow>
    pool_step num_threads p Silent
      ((set_worker p i (w\<lparr>cpc := CIdle\<rparr>))\<lparr>mainpc := MScan t (Suc i)\<rparr>)"
| p_abort: "mainpc p = MScan t i \<Longrightarrow> \<not> i < length (workers p) \<Longrightarrow>
    pool_step num_threads p Aborted (p\<lparr>mainpc := MAssert t\<rparr>)"
| p_worker: "i < length (workers p) \<Longrightarrow> w = workers p ! i \<Longrightarrow> worker_step w l w' \<Longrightarrow>
    (\<forall>ob. l \<noteq> Notified ob) \<Longrightarrow>
    pool_step num_threads p (Event i l) (set_worker p i w')"
| p_notify: "i < length (workers p) \<Longrightarrow> w = workers p ! i \<Longrightarrow>
    worker_step w (Notified dispatcher_id) w' \<Longrightarrow>
    pool_step num_threads p (Event i (Notified dispatcher_id)) (OnTaskDone (set_worker p i w'))"
| p_delete: "mainpc p = MAccept \<Longrightarrow> pool_step num_threads p Silent (p\<lparr>mainpc := MDelete\<rparr>)"
| p_del_call: "mainpc p = MDelete \<Longrightarrow> Suc i = length (workers p) \<Longrightarrow> w = workers p ! i \<Longrightarrow>
    cpc w = CIdle \<Longrightarrow>
    pool_step num_threads p Silent (set_worker p i (w\<lparr>cpc := DDisable\<rparr>))"
| p_del_step: "mainpc p = MDelete \<Longrightarrow> Suc i = length (workers p) \<Longrightarrow> w = workers p ! i \<Longrightarrow>
    cpc w \<noteq> CIdle \<Longrightarrow> client_step w l w' \<Longrightarrow>
    pool_step num_threads p (Event i l) (set_worker p i w')"
| p_del_pop: "mainpc p = MDelete \<Longrightarrow> Suc i = length (workers p) \<Longrightarrow> w = workers p ! i \<Longrightarrow>
    cpc w = DGone \<Longrightarrow>
    pool_step num_threads p Silent (p\<lparr>workers := butlast (workers p)\<rparr>)"
| p_del_done: "mainpc p = MDelete \<Longrightarrow> workers p = [] \<Longrightarrow>
    pool_step num_threads p Silent (p\<lparr>mainpc := MGone\<rparr>)"

inductive_cases pool_stepE: "pool_step n p l p'"

lemma set_worker_simps [simp]:
  "permits (set_worker p i w) = permits p" "mainpc (set_worker p i w) = mainpc p"
  "workers (set_worker p i w) = (workers p)[i := w]"
  by (simp_all add: set_worker_def)

lemma OnTaskDone_simps [simp]:
  "permits (OnTaskDone p) = Semaphore_Signal (permits p)" "mainpc (OnTaskDone p) = mainpc p"
  "workers (OnTaskDone p) = workers p"
  by (simp_all add: OnTaskDone_def)

section \<open>What a step does to one worker\<close>

text \<open>
  A worker is occupied from the moment a task is put into \<open>task_\<close> until it calls \<open>Done\<close>.
\<close>

definition occupied :: "bworker \<Rightarrow> bool" where
  "occupied w \<longleftrightarrow> slot w \<noteq> None \<or> (\<exists>t. wpc w = WDone t)"

text \<open>Every task inside the worker is observed by the dispatcher.\<close>

definition observed_ok :: "bworker \<Rightarrow> bool" where
  "observed_ok w \<longleftrightarrow> (\<forall>t \<in># pending w + in_hand (wpc w). Done t = Some dispatcher_id)"

fun handed_over :: "client_pc \<Rightarrow> bool" where
  "handed_over CSignal = True"
| "handed_over (CUnlock b) = b"
| "handed_over (CRet b) = b"
| "handed_over _ = False"

fun scan_state :: "task \<Rightarrow> client_pc \<Rightarrow> bool" where
  "scan_state t CIdle = True"
| "scan_state t (CTry u) = (u = t)"
| "scan_state t (CSlot u) = (u = t)"
| "scan_state t CSignal = True"
| "scan_state t (CUnlock b) = True"
| "scan_state t (CRet b) = True"
| "scan_state t _ = False"

fun is_notified :: "worker_label \<Rightarrow> bool" where
  "is_notified (Notified ob) = True"
| "is_notified _ = False"

lemma worker_step_occupied:
  assumes "worker_step w l w'" and "bw_inv w" and "observed_ok w"
  shows "observed_ok w'" and "cpc w' = cpc w"
    and "of_bool (occupied w') = (of_bool (occupied w) - of_bool (is_notified l) :: int)"
    and "l = Notified ob \<Longrightarrow> ob = dispatcher_id"
  using assms
  by (cases rule: worker_step.cases;
      auto simp: observed_ok_def occupied_def bw_inv_def pending_def split: option.splits)+

lemma client_step_occupied:
  assumes "client_step w l w'" and "bw_inv w" and "observed_ok w"
    and "scan_state t (cpc w)" and "in_try (cpc w)" and "Done t = Some dispatcher_id"
  shows "observed_ok w'" and "scan_state t (cpc w')" and "cpc w' \<noteq> CIdle"
    and "of_bool (occupied w') - of_bool (handed_over (cpc w')) =
      (of_bool (occupied w) - of_bool (handed_over (cpc w)) :: int)"
  using assms
  by (cases rule: client_step.cases;
      auto simp: observed_ok_def occupied_def bw_inv_def pending_def split: option.splits if_splits)+

fun deleting :: "client_pc \<Rightarrow> bool" where
  "deleting CIdle = True"
| "deleting DDisable = True"
| "deleting c = disabling c"

lemma client_step_deleting:
  assumes "client_step w l w'" and "bw_inv w" and "observed_ok w"
    and "deleting (cpc w)" and "cpc w \<noteq> CIdle"
  shows "observed_ok w'" and "deleting (cpc w')" and "cpc w' \<noteq> CIdle"
  using assms
  by (cases rule: client_step.cases;
      auto simp: observed_ok_def pending_def split: option.splits if_splits)+

section \<open>The invariant of the pool\<close>

text \<open>Which client program points worker \<open>i\<close> of \<open>n\<close> can have while the main thread is at a
  given point: only the worker being tried, or the last one being deleted, is not idle.\<close>

fun client_ok :: "main_pc \<Rightarrow> nat \<Rightarrow> nat \<Rightarrow> client_pc \<Rightarrow> bool" where
  "client_ok (MScan t k) n i c = (if i = k then scan_state t c else c = CIdle)"
| "client_ok MDelete n i c = (if Suc i = n then deleting c else c = CIdle)"
| "client_ok _ n i c = (c = CIdle)"

definition clients_ok :: "pool \<Rightarrow> bool" where
  "clients_ok p \<longleftrightarrow> (\<forall>i < length (workers p).
     client_ok (mainpc p) (length (workers p)) i (cpc (workers p ! i)))"

definition workers_ok :: "pool \<Rightarrow> bool" where
  "workers_ok p \<longleftrightarrow> (\<forall>w \<in> set (workers p). bw_inv w \<and> observed_ok w)"

definition scanned_ok :: "pool \<Rightarrow> bool" where
  "scanned_ok p \<longleftrightarrow> (\<forall>t i. mainpc p = MScan t i \<longrightarrow> Done t = Some dispatcher_id)"

text \<open>
  A permit of the semaphore that is on its way: taken by \<open>Dispatch\<close> and not yet handed to a
  worker with the task, or owed by \<open>AddWorker\<close> for the worker it has just added.
\<close>

definition main_permit :: "pool \<Rightarrow> int" where
  "main_permit p = (case mainpc p of
      MAddSignal i \<Rightarrow> 1
    | MScan t i \<Rightarrow>
        of_bool (\<not> (i < length (workers p) \<and> handed_over (cpc (workers p ! i))))
    | MAssert t \<Rightarrow> 1
    | _ \<Rightarrow> 0)"

definition permits_ok :: "pool \<Rightarrow> bool" where
  "permits_ok p \<longleftrightarrow> mainpc p \<in> {MDelete, MGone} \<or>
     Semaphore_GetValue (permits p) + main_permit p + num occupied (workers p) =
       int (length (workers p))"

definition pool_inv :: "pool \<Rightarrow> bool" where
  "pool_inv p \<longleftrightarrow> workers_ok p \<and> clients_ok p \<and> scanned_ok p \<and> permits_ok p"

lemma pool_inv_new: "pool_inv TaskDispatcher_new"
  by (simp add: pool_inv_def TaskDispatcher_new_def workers_ok_def clients_ok_def scanned_ok_def
      permits_ok_def main_permit_def sem.permits_make)

lemma workers_ok_update:
  "workers_ok p \<Longrightarrow> bw_inv w \<Longrightarrow> observed_ok w \<Longrightarrow> workers_ok (set_worker p i w)"
  unfolding workers_ok_def set_worker_simps
  using set_update_subset_insert [of "workers p" i w] by blast

lemma workers_ok_cong: "workers p = workers q \<Longrightarrow> workers_ok p = workers_ok q"
  by (simp add: workers_ok_def)

lemma workers_ok_nth:
  "workers_ok p \<Longrightarrow> i < length (workers p) \<Longrightarrow>
     bw_inv (workers p ! i) \<and> observed_ok (workers p ! i)"
  by (simp add: workers_ok_def)

lemma new_worker_ok: "bw_inv BackgroundWorker_new" "observed_ok BackgroundWorker_new"
  "\<not> occupied BackgroundWorker_new" "cpc BackgroundWorker_new = CIdle"
  by (rule bw_inv_new) (simp_all add: observed_ok_def occupied_def pending_def BackgroundWorker_new_def)

text \<open>The main thread's own moves on \<open>cpc\<close> do not touch the rest of the worker.\<close>

lemma bw_inv_cpc_idle: "bw_inv w \<Longrightarrow> cpc w = CIdle \<Longrightarrow> c = CTry t \<or> c = DDisable \<Longrightarrow>
    bw_inv (w\<lparr>cpc := c\<rparr>)"
  by (auto simp: bw_inv_def)

lemma bw_inv_cpc_ret: "bw_inv w \<Longrightarrow> cpc w = CRet b \<Longrightarrow> bw_inv (w\<lparr>cpc := CIdle\<rparr>)"
  by (auto simp: bw_inv_def)

lemma observed_ok_cpc [simp]: "observed_ok (w\<lparr>cpc := c\<rparr>) = observed_ok w"
  by (simp add: observed_ok_def pending_def)

lemma occupied_cpc [simp]: "occupied (w\<lparr>cpc := c\<rparr>) = occupied w"
  by (simp add: occupied_def)

lemma pool_step_workers:
  assumes "pool_step n p l p'" and ok: "workers_ok p" and "clients_ok p" and "scanned_ok p"
  shows "workers_ok p'"
  using assms(1)
proof (cases rule: pool_step.cases)
  case (p_add i)
  with ok show ?thesis by (auto simp: workers_ok_def new_worker_ok)
next
  case (p_call t i w)
  with workers_ok_nth [OF ok, of i] bw_inv_cpc_idle [of w "CTry t"] show ?thesis
    by (simp add: workers_ok_update [OF ok])
next
  case (p_try t i w l w')
  have w: "bw_inv w" "observed_ok w" using workers_ok_nth [OF ok, of i] p_try by auto
  have "scan_state t (cpc w)" using assms(3) p_try by (auto simp: clients_ok_def)
  moreover have "Done t = Some dispatcher_id" using p_try assms(4) by (auto simp: scanned_ok_def)
  ultimately have "observed_ok w'" using client_step_occupied(1) p_try w by blast
  moreover have "bw_inv w'" using client_step_inv p_try w by blast
  ultimately show ?thesis using p_try workers_ok_update [OF ok] by simp
next
  case (p_success t i w)
  with workers_ok_nth [OF ok, of i] bw_inv_cpc_ret [of w True]
  have "workers_ok (set_worker p i (w\<lparr>cpc := CIdle\<rparr>))"
    by (simp add: workers_ok_update [OF ok])
  with p_success show ?thesis by (simp add: workers_ok_def)
next
  case (p_failure t i w)
  with workers_ok_nth [OF ok, of i] bw_inv_cpc_ret [of w False]
  have "workers_ok (set_worker p i (w\<lparr>cpc := CIdle\<rparr>))"
    by (simp add: workers_ok_update [OF ok])
  with p_failure show ?thesis by (simp add: workers_ok_def)
next
  case (p_worker i w l w')
  have w: "bw_inv w" "observed_ok w" using workers_ok_nth [OF ok, of i] p_worker by auto
  then have "bw_inv w'" "observed_ok w'"
    using worker_step_inv worker_step_occupied(1) p_worker by blast+
  with p_worker workers_ok_update [OF ok] show ?thesis by simp
next
  case (p_notify i w w')
  have w: "bw_inv w" "observed_ok w" using workers_ok_nth [OF ok, of i] p_notify by auto
  then have "bw_inv w'" "observed_ok w'"
    using worker_step_inv worker_step_occupied(1) p_notify by blast+
  with workers_ok_update [OF ok] have "workers_ok (set_worker p i w')" by simp
  with p_notify show ?thesis by (simp add: workers_ok_def)
next
  case (p_del_call i w)
  then have "i < length (workers p)" by simp
  with p_del_call workers_ok_nth [OF ok, of i] bw_inv_cpc_idle [of w DDisable] show ?thesis
    by (simp add: workers_ok_update [OF ok])
next
  case (p_del_step i w l w')
  then have i: "i < length (workers p)" by simp
  have w: "bw_inv w" "observed_ok w" using workers_ok_nth [OF ok i] p_del_step by auto
  have "deleting (cpc w)" using assms(3) p_del_step i by (auto simp: clients_ok_def)
  then have "observed_ok w'" using client_step_deleting(1) p_del_step w by blast
  moreover have "bw_inv w'" using client_step_inv p_del_step w by blast
  ultimately show ?thesis using p_del_step workers_ok_update [OF ok] by simp
next
  case (p_del_pop i w)
  with ok show ?thesis by (auto simp: workers_ok_def dest: in_set_butlastD)
qed (use ok in \<open>simp_all add: workers_ok_def\<close>)

lemma pool_step_scanned: "pool_step n p l p' \<Longrightarrow> scanned_ok p \<Longrightarrow> scanned_ok p'"
  by (erule pool_stepE)
    (auto simp: scanned_ok_def SetObserver_def Done_def)

lemma worker_step_cpc: "worker_step w l w' \<Longrightarrow> cpc w' = cpc w"
  by (induction rule: worker_step.induct) simp_all

lemma clients_ok_worker:
  assumes "clients_ok p" and "i < length (workers p)" and "cpc w' = cpc (workers p ! i)"
  shows "clients_ok (set_worker p i w')"
  using assms by (auto simp: clients_ok_def nth_list_update)

lemma clients_okD:
  "clients_ok p \<Longrightarrow> i < length (workers p) \<Longrightarrow>
     client_ok (mainpc p) (length (workers p)) i (cpc (workers p ! i))"
  by (simp add: clients_ok_def)

lemma pool_step_clients:
  assumes "pool_step n p l p'" and "workers_ok p" and ok: "clients_ok p" and "scanned_ok p"
  shows "clients_ok p'"
  using assms(1)
proof (cases rule: pool_step.cases)
  case (p_add i)
  with ok show ?thesis by (auto simp: clients_ok_def nth_append new_worker_ok)
next
  case (p_wait t m)
  with ok show ?thesis by (auto simp: clients_ok_def)
next
  case (p_call t i w)
  with ok show ?thesis by (auto simp: clients_ok_def nth_list_update)
next
  case (p_try t i w l w')
  have w: "bw_inv w" "observed_ok w" using workers_ok_nth [OF assms(2), of i] p_try by auto
  have "scan_state t (cpc w)" using clients_okD [OF ok, of i] p_try by simp
  moreover have "Done t = Some dispatcher_id" using p_try assms(4) by (auto simp: scanned_ok_def)
  ultimately have "scan_state t (cpc w')" using client_step_occupied(2) p_try w by blast
  with ok p_try show ?thesis by (auto simp: clients_ok_def nth_list_update)
next
  case (p_success t i w)
  with ok show ?thesis by (auto simp: clients_ok_def nth_list_update)
next
  case (p_failure t i w)
  with ok show ?thesis by (auto simp: clients_ok_def nth_list_update)
next
  case (p_worker i w l w')
  then show ?thesis
    using clients_ok_worker [OF ok, of i w'] worker_step_cpc [of w l w'] by simp
next
  case (p_notify i w w')
  then have "clients_ok (set_worker p i w')"
    using clients_ok_worker [OF ok, of i w'] worker_step_cpc [of w _ w'] by simp
  with p_notify show ?thesis by (simp add: clients_ok_def)
next
  case p_delete
  with ok show ?thesis by (auto simp: clients_ok_def)
next
  case (p_del_call i w)
  with ok show ?thesis by (auto simp: clients_ok_def nth_list_update)
next
  case (p_del_step i w l w')
  then have i: "i < length (workers p)" by simp
  have w: "bw_inv w" "observed_ok w" using workers_ok_nth [OF assms(2) i] p_del_step by auto
  have "deleting (cpc w)" using clients_okD [OF ok i] p_del_step by simp
  then have "deleting (cpc w')" using client_step_deleting(2) p_del_step w by blast
  with ok p_del_step show ?thesis by (auto simp: clients_ok_def nth_list_update)
next
  case (p_del_pop i w)
  with ok show ?thesis by (auto simp: clients_ok_def nth_butlast)
qed (use ok in \<open>simp_all add: clients_ok_def\<close>)

lemma main_permit_set_worker:
  "i < length (workers p) \<Longrightarrow> cpc w' = cpc (workers p ! i) \<Longrightarrow>
     main_permit (set_worker p i w') = main_permit p"
  by (auto simp: main_permit_def nth_list_update split: main_pc.splits)

lemma main_permit_OnTaskDone [simp]: "main_permit (OnTaskDone p) = main_permit p"
  by (cases "mainpc p") (simp_all add: main_permit_def)

lemma pool_step_permits:
  assumes "pool_step n p l p'" and "workers_ok p" and "clients_ok p" and "scanned_ok p"
    and ok: "permits_ok p"
  shows "permits_ok p'"
  using assms(1)
proof (cases rule: pool_step.cases)
  case (p_add i)
  with ok show ?thesis by (simp add: permits_ok_def main_permit_def new_worker_ok)
next
  case (p_add_signal i)
  with ok show ?thesis by (simp add: permits_ok_def main_permit_def sem.permits_release)
next
  case (p_wait t m)
  then have "0 < length (workers p) \<Longrightarrow> cpc (workers p ! 0) = CIdle"
    using clients_okD [OF assms(3), of 0] by simp
  then have "main_permit p' = 1" and "main_permit p = 0"
    using p_wait by (auto simp: main_permit_def)
  with p_wait ok sem.permits_acquire [of "permits p" m] show ?thesis
    by (simp add: permits_ok_def)
next
  case (p_call t i w)
  with ok show ?thesis by (auto simp: permits_ok_def main_permit_def num_update)
next
  case (p_try t i w l w')
  have w: "bw_inv w" "observed_ok w" using workers_ok_nth [OF assms(2), of i] p_try by auto
  have "scan_state t (cpc w)" using clients_okD [OF assms(3), of i] p_try by simp
  moreover have "Done t = Some dispatcher_id" using p_try assms(4) by (auto simp: scanned_ok_def)
  ultimately have "of_bool (occupied w') - of_bool (handed_over (cpc w')) =
      (of_bool (occupied w) - of_bool (handed_over (cpc w)) :: int)"
    using client_step_occupied(4) p_try w by blast
  with p_try ok show ?thesis
    by (auto simp: permits_ok_def main_permit_def num_update of_bool_def split: if_splits)
next
  case (p_success t i w)
  with ok show ?thesis by (simp add: permits_ok_def main_permit_def num_update)
next
  case (p_failure t i w)
  then have "Suc i < length (workers p) \<Longrightarrow> cpc (workers p ! Suc i) = CIdle"
    using clients_okD [OF assms(3), of "Suc i"] by simp
  with p_failure ok show ?thesis by (auto simp: permits_ok_def main_permit_def num_update)
next
  case (p_worker i w l w')
  have w: "bw_inv w" "observed_ok w" using workers_ok_nth [OF assms(2), of i] p_worker by auto
  have "\<not> is_notified l" using p_worker by (cases l) auto
  with worker_step_occupied(3) [of w l w'] p_worker w have "occupied w' = occupied w"
    by (auto simp: of_bool_def split: if_splits)
  with p_worker ok main_permit_set_worker [of i p w'] worker_step_cpc [of w l w'] show ?thesis
    by (simp add: permits_ok_def num_update)
next
  case (p_notify i w w')
  have w: "bw_inv w" "observed_ok w" using workers_ok_nth [OF assms(2), of i] p_notify by auto
  have "of_bool (occupied w') = (of_bool (occupied w) - 1 :: int)"
    using worker_step_occupied(3) [of w _ w'] p_notify w by fastforce
  moreover have "main_permit p' = main_permit p"
    using p_notify main_permit_set_worker [of i p w'] worker_step_cpc [of w _ w']
    by simp
  ultimately show ?thesis using p_notify ok
    by (auto simp: permits_ok_def num_update sem.permits_release)
qed (use ok in \<open>simp_all add: permits_ok_def main_permit_def\<close>)

theorem pool_step_inv: "pool_step n p l p' \<Longrightarrow> pool_inv p \<Longrightarrow> pool_inv p'"
  unfolding pool_inv_def
  by (blast intro: pool_step_workers pool_step_clients pool_step_scanned pool_step_permits)

lemma pool_run_inv: "run (pool_step n) TaskDispatcher_new ls p \<Longrightarrow> pool_inv p"
  by (erule run_invariant) (auto intro: pool_inv_new pool_step_inv)

section \<open>The semaphore counts the free workers\<close>

lemma pool_step_value:
  "pool_step n p l p' \<Longrightarrow> 0 \<le> Semaphore_GetValue (permits p) \<Longrightarrow>
     0 \<le> Semaphore_GetValue (permits p')"
  by (erule pool_stepE)
    (auto simp: sem.permits_release intro: sem.acquire_nonneg)

lemma pool_run_value:
  assumes "run (pool_step n) TaskDispatcher_new ls p"
  shows "0 \<le> Semaphore_GetValue (permits p)"
  using assms
proof (rule run_invariant)
  show "0 \<le> Semaphore_GetValue (permits TaskDispatcher_new)"
    by (simp add: TaskDispatcher_new_def sem.permits_make)
qed (use pool_step_value in blast)

text \<open>How many workers there are at each point of the main thread.\<close>

definition added_ok :: "int \<Rightarrow> pool \<Rightarrow> bool" where
  "added_ok n p \<longleftrightarrow> (case mainpc p of
      MAdd i \<Rightarrow> length (workers p) = i \<and> i \<le> nat n
    | MAddSignal i \<Rightarrow> length (workers p) = Suc i \<and> i < nat n
    | MDelete \<Rightarrow> length (workers p) \<le> nat n
    | MGone \<Rightarrow> workers p = []
    | _ \<Rightarrow> length (workers p) = nat n)"

lemma pool_step_added: "pool_step n p l p' \<Longrightarrow> added_ok n p \<Longrightarrow> added_ok n p'"
  by (erule pool_stepE)
    (auto simp: added_ok_def split: main_pc.splits)

lemma pool_run_added:
  assumes "run (pool_step n) TaskDispatcher_new ls p"
  shows "added_ok n p"
  using assms
proof (rule run_invariant)
  show "added_ok n TaskDispatcher_new" by (simp add: added_ok_def TaskDispatcher_new_def)
qed (use pool_step_added in blast)

text \<open>The main thread is in \<open>Dispatch\<close> and holds a permit for the task it has not handed
  over yet; this includes the moment at which the assertion has failed.\<close>

definition looking_for_worker :: "pool \<Rightarrow> bool" where
  "looking_for_worker p \<longleftrightarrow> (case mainpc p of
      MScan t i \<Rightarrow> \<not> (i < length (workers p) \<and> handed_over (cpc (workers p ! i)))
    | MAssert t \<Rightarrow> True
    | _ \<Rightarrow> False)"

text \<open>
  C5. The semaphore counts the free workers: once the pool is built and until it is deleted,
  its value plus the permit held by \<open>Dispatch\<close> plus the number of occupied workers is the
  number of threads. In particular whenever \<open>Dispatch\<close> looks for a worker, at least one
  worker has no task waiting, running or unannounced, as the comment in \<open>Dispatch\<close> says.
\<close>

theorem dispatch_has_free_worker:
  assumes "run (pool_step n) TaskDispatcher_new ls p"
    and "\<forall>i. mainpc p \<noteq> MAdd i \<and> mainpc p \<noteq> MAddSignal i"
    and "mainpc p \<noteq> MDelete" and "mainpc p \<noteq> MGone"
  shows "Semaphore_GetValue (permits p) + of_bool (looking_for_worker p)
      + num occupied (workers p) = int (nat n)
    \<and> 0 \<le> Semaphore_GetValue (permits p)
    \<and> (looking_for_worker p \<longrightarrow> (\<exists>w \<in> set (workers p). \<not> occupied w))"
proof -
  have "permits_ok p" using pool_run_inv [OF assms(1)] by (simp add: pool_inv_def)
  moreover have "int (length (workers p)) = int (nat n)"
    using pool_run_added [OF assms(1)] assms(2-4) by (auto simp: added_ok_def split: main_pc.splits)
  moreover have "main_permit p = of_bool (looking_for_worker p)"
    using assms(2) by (auto simp: main_permit_def looking_for_worker_def split: main_pc.splits)
  ultimately have eq: "Semaphore_GetValue (permits p) + of_bool (looking_for_worker p)
      + num occupied (workers p) = int (length (workers p))"
    using assms(3,4) by (simp add: permits_ok_def)
  moreover have v: "0 \<le> Semaphore_GetValue (permits p)" by (rule pool_run_value [OF assms(1)])
  moreover have "\<exists>w \<in> set (workers p). \<not> occupied w" if "looking_for_worker p"
    using eq v that num_less_length_iff [of occupied "workers p"] by simp
  ultimately show ?thesis
    using \<open>int (length (workers p)) = int (nat n)\<close> by simp
qed

section \<open>The steps as a function\<close>

text \<open>The main thread's next step, where it is determined by its state.\<close>

definition main_next :: "int \<Rightarrow> pool \<Rightarrow> (pool_label \<times> pool) option" where
  "main_next n p = (case mainpc p of
      MAdd i \<Rightarrow> (if int i < n
        then Some (Silent, p\<lparr>workers := workers p @ [BackgroundWorker_new], mainpc := MAddSignal i\<rparr>)
        else Some (Silent, p\<lparr>mainpc := MAccept\<rparr>))
    | MAddSignal i \<Rightarrow>
        Some (Silent, p\<lparr>permits := Semaphore_Signal (permits p), mainpc := MAdd (Suc i)\<rparr>)
    | MWait t \<Rightarrow> (case Semaphore_Wait (permits p) of
          None \<Rightarrow> None
        | Some m \<Rightarrow> Some (Silent,
            p\<lparr>permits := m, mainpc := MScan (SetObserver dispatcher_id t) 0\<rparr>))
    | MScan t i \<Rightarrow> (if i < length (workers p)
        then (let w = workers p ! i in case cpc w of
            CIdle \<Rightarrow> Some (Silent, set_worker p i (w\<lparr>cpc := CTry t\<rparr>))
          | CRet b \<Rightarrow> (if b
              then Some (Dispatched, (set_worker p i (w\<lparr>cpc := CIdle\<rparr>))\<lparr>mainpc := MAccept\<rparr>)
              else Some (Silent, (set_worker p i (w\<lparr>cpc := CIdle\<rparr>))\<lparr>mainpc := MScan t (Suc i)\<rparr>))
          | c \<Rightarrow> (if in_try c then (case client_next w of
                None \<Rightarrow> None
              | Some (l, w') \<Rightarrow> Some (Event i l, set_worker p i w')) else None))
        else Some (Aborted, p\<lparr>mainpc := MAssert t\<rparr>))
    | MDelete \<Rightarrow> (if workers p = [] then Some (Silent, p\<lparr>mainpc := MGone\<rparr>)
        else (let i = length (workers p) - 1; w = workers p ! i in
          if cpc w = CIdle then Some (Silent, set_worker p i (w\<lparr>cpc := DDisable\<rparr>))
          else if cpc w = DGone then Some (Silent, p\<lparr>workers := butlast (workers p)\<rparr>)
          else (case client_next w of
              None \<Rightarrow> None
            | Some (l, w') \<Rightarrow> Some (Event i l, set_worker p i w'))))
    | _ \<Rightarrow> None)"

datatype pool_choice = MainMoves | Connects nat int | Deletes | ThreadMoves nat

fun pool_move :: "int \<Rightarrow> pool_choice \<Rightarrow> pool \<Rightarrow> (pool_label \<times> pool) option" where
  "pool_move n MainMoves p = main_next n p"
| "pool_move n (Connects k s) p = (if mainpc p = MAccept
     then Some (Accepted (SocketTask_new k s), p\<lparr>mainpc := MWait (SocketTask_new k s)\<rparr>)
     else None)"
| "pool_move n Deletes p = (if mainpc p = MAccept
     then Some (Silent, p\<lparr>mainpc := MDelete\<rparr>) else None)"
| "pool_move n (ThreadMoves i) p = (if i < length (workers p)
     then (case worker_next (workers p ! i) of
         None \<Rightarrow> None
       | Some (l, w') \<Rightarrow>
           (if l = Notified dispatcher_id
            then Some (Event i l, OnTaskDone (set_worker p i w'))
            else if is_notified l then None
            else Some (Event i l, set_worker p i w')))
     else None)"

fun pool_moves :: "int \<Rightarrow> pool_choice list \<Rightarrow> pool \<Rightarrow> (pool_label list \<times> pool) option" where
  "pool_moves n [] p = Some ([], p)"
| "pool_moves n (m # ms) p = (case pool_move n m p of
      None \<Rightarrow> None
    | Some (l, p') \<Rightarrow> (case pool_moves n ms p' of
          None \<Rightarrow> None
        | Some (ls, p'') \<Rightarrow> Some (l # ls, p'')))"

lemma is_notified_iff: "is_notified l \<longleftrightarrow> (\<exists>ob. l = Notified ob)"
  by (cases l) auto

lemma pop_sound:
  assumes "mainpc p = MDelete" and "workers p \<noteq> []"
    and "cpc (workers p ! (length (workers p) - Suc 0)) = DGone"
  shows "pool_step n p Silent (p\<lparr>workers := butlast (workers p)\<rparr>)"
  using assms by (intro p_del_pop [of _ "length (workers p) - Suc 0"]) auto

lemma main_next_sound: "main_next n p = Some (l, p') \<Longrightarrow> pool_step n p l p'"
  by (auto simp: main_next_def Let_def intro: p_add p_add_signal p_added p_wait p_call p_success
      p_failure p_abort p_try p_del_done p_del_call pop_sound p_del_step client_next_sound
      split: main_pc.splits option.splits if_splits client_pc.splits)

lemma thread_move_sound:
  assumes "i < length (workers p)" and "worker_next (workers p ! i) = Some (l, w')"
  shows "l = Notified dispatcher_id \<Longrightarrow>
      pool_step n p (Event i l) (OnTaskDone (set_worker p i w'))"
    and "\<not> is_notified l \<Longrightarrow> pool_step n p (Event i l) (set_worker p i w')"
  using p_notify [OF assms(1) refl] p_worker [OF assms(1) refl] worker_next_sound [OF assms(2)]
  by (auto simp: is_notified_iff)

lemma pool_move_sound: "pool_move n m p = Some (l, p') \<Longrightarrow> pool_step n p l p'"
  by (cases m) (auto intro: main_next_sound p_accept p_delete thread_move_sound
      split: if_splits option.splits)

lemma pool_moves_run: "pool_moves n ms p = Some (ls, p') \<Longrightarrow> run (pool_step n) p ls p'"
proof (induction ms arbitrary: p ls)
  case Nil
  then show ?case by (auto intro: run_nil)
next
  case (Cons m ms)
  then obtain l u ls' where u: "pool_move n m p = Some (l, u)" and r: "run (pool_step n) u ls' p'"
    and ls: "ls = l # ls'"
    by (auto split: option.splits)
  from pool_move_sound [OF u] have "run (pool_step n) p [l] u" by (rule run_step)
  from run_append [OF r this] ls show ?case by simp
qed

section \<open>The assertion of Dispatch\<close>

text \<open>
  One worker, two clients: the second client is accepted after the worker has announced the
  end of the first task and before it is back in \<open>pthread_cond_wait\<close>.
\<close>

definition second_client_moves :: "pool_choice list" where
  "second_client_moves = replicate 3 MainMoves @ replicate 3 (ThreadMoves 0) @
     Connects 0 5 # replicate 7 MainMoves @ replicate 6 (ThreadMoves 0) @
     Connects 1 6 # replicate 5 MainMoves"

lemma second_client_aborts:
  "map_option (\<lambda>(ls, p). (Aborted \<in> set ls, mainpc p,
       map (\<lambda>w. (slot w, mutex w, wpc w)) (workers p)))
     (pool_moves 1 second_client_moves TaskDispatcher_new) =
   Some (True, MAssert (SetObserver 0 (SocketTask_new 1 6)), [(None, Some WorkerThread, WLoop)])"
  by code_simp

text \<open>
  C10. The assertion "The new task could not be assigned to any worker" can fail although
  there is a free worker: \<open>worker_func\<close> calls \<open>Done\<close>, which signals the semaphore, while it
  still holds \<open>task_assigned_mutex_\<close>, so \<open>pthread_mutex_trylock\<close> in \<open>TryAssign\<close> can find
  the mutex taken. A run of a server with one thread in which this happens to the second
  client.
\<close>

theorem dispatch_assertion_can_fail:
  "\<exists>ls p w. run (pool_step 1) TaskDispatcher_new ls p \<and> Aborted \<in> set ls
     \<and> mainpc p = MAssert (SetObserver 0 (SocketTask_new 1 6))
     \<and> workers p = [w] \<and> \<not> occupied w \<and> mutex w = Some WorkerThread"
proof -
  obtain ls p where m: "pool_moves 1 second_client_moves TaskDispatcher_new = Some (ls, p)"
    and p: "Aborted \<in> set ls" "mainpc p = MAssert (SetObserver 0 (SocketTask_new 1 6))"
      "map (\<lambda>w. (slot w, mutex w, wpc w)) (workers p) = [(None, Some WorkerThread, WLoop)]"
    using second_client_aborts by (auto simp: map_option_case split: option.splits)
  from p(3) obtain w where "workers p = [w]" "slot w = None" "mutex w = Some WorkerThread"
    "wpc w = WLoop"
    by (auto simp: map_eq_Cons_conv)
  moreover from this have "\<not> occupied w" by (simp add: occupied_def)
  ultimately show ?thesis using pool_moves_run [OF m] p(1,2) by blast
qed

text \<open>
  A free worker that is back in \<open>pthread_cond_wait\<close>. The relation \<open>reaches_parked\<close> between a
  worker number and a state says how far the loop of \<open>Dispatch\<close> for task \<open>t\<close> has come while
  that worker stays parked.
\<close>

definition parked :: "bworker \<Rightarrow> bool" where
  "parked w \<longleftrightarrow> wpc w = WSleep \<and> slot w = None \<and> mutex w = None \<and> cpc w = CIdle"

definition taking :: "task \<Rightarrow> bworker \<Rightarrow> bool" where
  "taking t w \<longleftrightarrow> parked w
     \<or> wpc w = WSleep \<and> slot w = None \<and> mutex w = None \<and> cpc w = CTry t
     \<or> wpc w = WSleep \<and> slot w = None \<and> cpc w = CSlot t
     \<or> handed_over (cpc w)"

definition reaches_parked :: "nat \<Rightarrow> task \<Rightarrow> pool \<Rightarrow> bool" where
  "reaches_parked j t p \<longleftrightarrow> (case mainpc p of
      MScan u i \<Rightarrow> u = t \<and> i \<le> j \<and> j < length (workers p) \<and>
        (if i = j then taking t (workers p ! j) else parked (workers p ! j))
    | MAccept \<Rightarrow> True
    | MDelete \<Rightarrow> True
    | MGone \<Rightarrow> True
    | _ \<Rightarrow> False)"

lemma worker_step_taking:
  "worker_step w l w' \<Longrightarrow> taking t w \<Longrightarrow> l \<noteq> SpuriousWakeup \<Longrightarrow> taking t w'"
  by (erule worker_stepE) (auto simp: taking_def parked_def)

lemma worker_step_parked: "worker_step w l w' \<Longrightarrow> parked w \<Longrightarrow> l = SpuriousWakeup"
  by (erule worker_stepE) (auto simp: parked_def)

lemma client_step_taking:
  "client_step w l w' \<Longrightarrow> in_try (cpc w) \<Longrightarrow> taking t w \<Longrightarrow> taking t w'"
  by (erule client_stepE) (auto simp: taking_def parked_def)

lemma pool_step_reaches_parked:
  assumes "pool_step n p l p'" and r: "reaches_parked j t p"
    and "l \<noteq> Event j SpuriousWakeup" and "\<And>u. l \<noteq> Accepted u"
  shows "reaches_parked j t p' \<and> l \<noteq> Aborted"
  using assms(1)
proof (cases rule: pool_step.cases)
  case (p_call u i w)
  with r show ?thesis
    by (auto simp: reaches_parked_def nth_list_update taking_def parked_def)
next
  case (p_try u i w l' w')
  with r client_step_taking [of w l' w' t] show ?thesis
    by (auto simp: reaches_parked_def nth_list_update split: if_splits)
next
  case (p_failure u i w)
  with r show ?thesis
    by (auto simp: reaches_parked_def nth_list_update taking_def parked_def split: if_splits)
next
  case (p_worker i w l' w')
  with r assms(3) worker_step_taking [of w l' w' t] worker_step_parked [of w l' w'] show ?thesis
    by (auto simp: reaches_parked_def nth_list_update split: main_pc.splits if_splits)
next
  case (p_notify i w w')
  with r worker_step_taking [of w _ w' t] worker_step_parked [of w _ w'] show ?thesis
    by (fastforce simp: reaches_parked_def nth_list_update split: main_pc.splits if_splits)
qed (use r assms(4) in \<open>auto simp: reaches_parked_def split: main_pc.splits\<close>)

lemma pool_run_reaches_parked:
  "run (pool_step n) p ls q \<Longrightarrow> reaches_parked j t p \<Longrightarrow> Event j SpuriousWakeup \<notin> set ls \<Longrightarrow>
     (\<forall>u. Accepted u \<notin> set ls) \<Longrightarrow> reaches_parked j t q \<and> Aborted \<notin> set ls"
proof (induction rule: run.induct)
  case (run_snoc p ls q l r)
  then have "reaches_parked j t q" and "Aborted \<notin> set ls" by auto
  with pool_step_reaches_parked [OF run_snoc.hyps(2), of j t] run_snoc.prems(2,3) show ?case
    by auto
qed simp

text \<open>Inside \<open>Dispatch\<close>, past the semaphore, the main thread never blocks.\<close>

lemma scan_never_blocks:
  assumes "clients_ok p" and "mainpc p = MScan t i"
  shows "main_next n p \<noteq> None"
proof (cases "i < length (workers p)")
  case True
  with clients_okD [OF assms(1) True] assms(2) have "scan_state t (cpc (workers p ! i))" by simp
  with True assms(2) show ?thesis
    by (cases "cpc (workers p ! i)") (auto simp: main_next_def client_next_def Let_def)
qed (use assms(2) in \<open>simp add: main_next_def\<close>)

text \<open>
  C13. The assertion cannot fail when a free worker is back in \<open>pthread_cond_wait\<close>: if worker
  \<open>j\<close> is parked when \<open>Dispatch\<close> has passed the semaphore and is not woken spuriously, then
  \<open>Dispatch\<close> never aborts, never blocks, and tries no worker beyond \<open>j\<close>.
\<close>

theorem dispatch_succeeds_with_parked_worker:
  assumes "run (pool_step n) TaskDispatcher_new ks p"
    and "mainpc p = MScan t 0" and "j < length (workers p)" and "parked (workers p ! j)"
    and "run (pool_step n) p ls q" and "Event j SpuriousWakeup \<notin> set ls"
    and "\<forall>u. Accepted u \<notin> set ls"
  shows "Aborted \<notin> set ls \<and> (\<forall>u. mainpc q \<noteq> MAssert u)
    \<and> (\<forall>u i. mainpc q = MScan u i \<longrightarrow> u = t \<and> i \<le> j \<and> main_next n q \<noteq> None)"
proof -
  have "reaches_parked j t p"
    using assms(2-4) by (auto simp: reaches_parked_def taking_def)
  from pool_run_reaches_parked [OF assms(5) this assms(6,7)]
  have r: "reaches_parked j t q" "Aborted \<notin> set ls" by auto
  have "clients_ok q"
    using pool_run_inv [OF run_append [OF assms(5,1)]] by (simp add: pool_inv_def)
  then have "mainpc q = MScan u i \<Longrightarrow> main_next n q \<noteq> None" for u i
    by (rule scan_never_blocks)
  with r show ?thesis by (auto simp: reaches_parked_def)
qed

section \<open>Every accepted client is in exactly one place\<close>

fun accepted_ids :: "pool_label \<Rightarrow> nat multiset" where
  "accepted_ids (Accepted t) = {#task_id t#}"
| "accepted_ids _ = {#}"

fun freed_ids :: "pool_label \<Rightarrow> nat multiset" where
  "freed_ids (Event i l) = image_mset task_id (freed l + discarded l)"
| "freed_ids _ = {#}"

text \<open>The task the main thread still holds, and the tasks inside one worker.\<close>

definition main_ids :: "pool \<Rightarrow> nat multiset" where
  "main_ids p = (case mainpc p of
      MWait t \<Rightarrow> {#task_id t#}
    | MScan t i \<Rightarrow> (if looking_for_worker p then {#task_id t#} else {#})
    | MAssert t \<Rightarrow> {#task_id t#}
    | _ \<Rightarrow> {#})"

definition worker_ids :: "bworker \<Rightarrow> nat multiset" where
  "worker_ids w = image_mset task_id (pending w + in_hand (wpc w))"

definition pool_ids :: "pool \<Rightarrow> nat multiset" where
  "pool_ids p = main_ids p + sum_list (map worker_ids (workers p))"

lemma worker_ids_cpc [simp]: "worker_ids (w\<lparr>cpc := c\<rparr>) = worker_ids w"
  by (simp add: worker_ids_def pending_def)

lemma worker_ids_new [simp]: "worker_ids BackgroundWorker_new = {#}"
  by (simp add: worker_ids_def pending_def BackgroundWorker_new_def)

lemma sum_worker_ids_update:
  assumes "i < length ws" and "image_mset task_id (assigned l) + worker_ids (ws ! i) =
    image_mset task_id (freed l + discarded l) + worker_ids w"
  shows "image_mset task_id (assigned l) + sum_list (map worker_ids ws) =
    image_mset task_id (freed l + discarded l) + sum_list (map worker_ids (ws[i := w]))"
proof -
  have "sum_list (map worker_ids (ws[i := w])) + worker_ids (ws ! i) =
      sum_list (map worker_ids ws) + worker_ids w"
    by (rule sum_list_update_plus [OF assms(1)])
  with assms(2) have "(image_mset task_id (assigned l) + sum_list (map worker_ids ws))
      + worker_ids w = (image_mset task_id (freed l + discarded l)
      + sum_list (map worker_ids (ws[i := w]))) + worker_ids w"
    by (metis add.assoc add.commute)
  then show ?thesis by (rule add_right_imp_eq)
qed

lemma bw_step_ids:
  assumes "bw_step w l w'" and "bw_inv w"
  shows "image_mset task_id (assigned l) + worker_ids w =
    image_mset task_id (freed l + discarded l) + worker_ids w'"
  using bw_step_conserves(1) [OF assms] unfolding worker_ids_def
  by (metis add.assoc image_mset_union)

lemma worker_step_assigned: "worker_step w l w' \<Longrightarrow> assigned l = {#}"
  by (induction rule: worker_step.induct) simp_all

lemma client_step_assigned:
  "client_step w l w' \<Longrightarrow> in_try (cpc w) \<Longrightarrow> scan_state t (cpc w) \<Longrightarrow>
     (if handed_over (cpc w) then {#} else {#task_id t#}) =
     image_mset task_id (assigned l) + (if handed_over (cpc w') then {#} else {#task_id t#})"
  by (erule client_stepE) auto

lemma client_step_delete_assigned:
  "client_step w l w' \<Longrightarrow> deleting (cpc w) \<Longrightarrow> cpc w \<noteq> CIdle \<Longrightarrow> assigned l = {#}"
  by (erule client_stepE) auto

lemma deleted_worker_empty: "bw_inv w \<Longrightarrow> cpc w = DGone \<Longrightarrow> worker_ids w = {#}"
  by (cases "wpc w") (auto simp: bw_inv_def worker_ids_def pending_def)

lemma main_ids_worker:
  "i < length (workers p) \<Longrightarrow> cpc w' = cpc (workers p ! i) \<Longrightarrow>
     main_ids (set_worker p i w') = main_ids p"
  by (auto simp: main_ids_def looking_for_worker_def nth_list_update split: main_pc.splits)

lemma main_ids_OnTaskDone [simp]: "main_ids (OnTaskDone p) = main_ids p"
  by (cases "mainpc p") (simp_all add: main_ids_def looking_for_worker_def)

lemma sum_list_cpc_update:
  "i < length ws \<Longrightarrow> sum_list (map worker_ids (ws[i := (ws ! i)\<lparr>cpc := c\<rparr>])) =
     sum_list (map worker_ids ws)"
  by (metis list_update_id map_update worker_ids_cpc)

lemma pool_step_ids:
  assumes "pool_step n p l p'" and inv: "pool_inv p"
  shows "accepted_ids l + pool_ids p = freed_ids l + pool_ids p'"
proof -
  have wok: "workers_ok p" and cok: "clients_ok p"
    using inv by (auto simp: pool_inv_def)
  show ?thesis
    using assms(1)
  proof (cases rule: pool_step.cases)
    case (p_wait t m)
    then have "0 < length (workers p) \<Longrightarrow> cpc (workers p ! 0) = CIdle"
      using clients_okD [OF cok, of 0] by simp
    with p_wait show ?thesis
      by (auto simp: pool_ids_def main_ids_def looking_for_worker_def SetObserver_def)
  next
    case (p_call t i w)
    then show ?thesis
      by (auto simp: pool_ids_def main_ids_def looking_for_worker_def sum_list_cpc_update)
  next
    case (p_try t i w l' w')
    have w: "bw_inv w" using workers_ok_nth [OF wok, of i] p_try by auto
    have s: "scan_state t (cpc w)" using clients_okD [OF cok, of i] p_try by simp
    have "bw_step w l' w'" using p_try by (simp add: bw_step_def)
    note sum_worker_ids_update [OF p_try(4) bw_step_ids [OF this w, unfolded p_try(5)]]
    moreover have "main_ids p = image_mset task_id (assigned l') + main_ids p'"
      using client_step_assigned [OF p_try(7,6) s] p_try(1-5)
      by (auto simp: main_ids_def looking_for_worker_def split: if_splits)
    ultimately show ?thesis using p_try(1,2)
      by (simp add: pool_ids_def add.assoc add.left_commute)
  next
    case (p_success t i w)
    then show ?thesis
      by (auto simp: pool_ids_def main_ids_def looking_for_worker_def sum_list_cpc_update)
  next
    case (p_failure t i w)
    then have "Suc i < length (workers p) \<Longrightarrow> cpc (workers p ! Suc i) = CIdle"
      using clients_okD [OF cok, of "Suc i"] by simp
    with p_failure show ?thesis
      by (auto simp: pool_ids_def main_ids_def looking_for_worker_def sum_list_cpc_update)
  next
    case (p_worker i w l' w')
    have w: "bw_inv w" using workers_ok_nth [OF wok, of i] p_worker by auto
    have "bw_step w l' w'" using p_worker by (simp add: bw_step_def)
    note sum_worker_ids_update [OF p_worker(3) bw_step_ids [OF this w, unfolded p_worker(4)]]
    with worker_step_assigned [of w l' w'] worker_step_cpc [of w l' w'] p_worker show ?thesis
      by (simp add: pool_ids_def main_ids_worker ac_simps)
  next
    case (p_notify i w w')
    have w: "bw_inv w" using workers_ok_nth [OF wok, of i] p_notify by auto
    have "bw_step w (Notified dispatcher_id) w'" using p_notify by (simp add: bw_step_def)
    note sum_worker_ids_update [OF p_notify(3) bw_step_ids [OF this w, unfolded p_notify(4)]]
    with worker_step_cpc [of w _ w'] p_notify show ?thesis
      by (simp add: pool_ids_def main_ids_worker)
  next
    case (p_del_call i w)
    then show ?thesis by (simp add: pool_ids_def main_ids_def sum_list_cpc_update)
  next
    case (p_del_step i w l' w')
    then have i: "i < length (workers p)" by simp
    have w: "bw_inv w" using workers_ok_nth [OF wok i] p_del_step by auto
    have d: "deleting (cpc w)" using clients_okD [OF cok i] p_del_step by simp
    have "bw_step w l' w'" using p_del_step by (simp add: bw_step_def)
    note sum_worker_ids_update [OF i bw_step_ids [OF this w, unfolded p_del_step(5)]]
    with client_step_delete_assigned [of w l' w'] d p_del_step show ?thesis
      by (simp add: pool_ids_def main_ids_def)
  next
    case (p_del_pop i w)
    then have "workers p \<noteq> []" by auto
    then have ws: "workers p = butlast (workers p) @ [w]"
      using p_del_pop by (metis append_butlast_last_id diff_Suc_1 last_conv_nth)
    have "worker_ids w = {#}"
      using deleted_worker_empty workers_ok_nth [OF wok, of i] p_del_pop by auto
    then have "sum_list (map worker_ids (workers p)) = sum_list (map worker_ids (butlast (workers p)))"
      by (subst ws) simp
    with p_del_pop show ?thesis by (simp add: pool_ids_def main_ids_def)
  qed (simp_all add: pool_ids_def main_ids_def looking_for_worker_def SocketTask_new_def)
qed

lemma pool_run_ids:
  assumes "run (pool_step n) TaskDispatcher_new ls p"
  shows "total_of accepted_ids ls = total_of freed_ids ls + pool_ids p"
  using assms
proof (induction "TaskDispatcher_new" ls p rule: run.induct)
  case run_nil
  then show ?case by (simp add: pool_ids_def main_ids_def TaskDispatcher_new_def)
next
  case (run_snoc ls p l p')
  from run_snoc.hyps(2) pool_step_ids [OF run_snoc.hyps(3) pool_run_inv [OF run_snoc.hyps(1)]]
  show ?case by (simp add: add.assoc) (simp add: ac_simps)
qed

text \<open>
  C1. No accepted client is dropped or served by two workers: at every moment the accepted
  tasks are exactly those already deleted, the one the main thread is dispatching, and the
  one inside each worker, counted with multiplicity.
\<close>

theorem pool_conserves_clients:
  assumes "run (pool_step n) TaskDispatcher_new ls p"
  shows "total_of accepted_ids ls =
    total_of freed_ids ls + main_ids p + sum_list (map worker_ids (workers p))"
  using pool_run_ids [OF assms] by (simp add: pool_ids_def add.assoc)

section \<open>Deleting the dispatcher\<close>

text \<open>
  A bound on the steps that are left while the dispatcher is being deleted: those of each worker
  thread until it sleeps or returns (more when it has a task), those of the destructor of the
  worker, and one for removing it; a spurious wake-up costs four more.
\<close>

fun work_rank :: "bool \<Rightarrow> worker_pc \<Rightarrow> nat" where
  "work_rank b WSleep = 0"
| "work_rank b WExit = 0"
| "work_rank b WCrash = 0"
| "work_rank b WUnlock = 1"
| "work_rank b WCheck = (if b then 8 else 1)"
| "work_rank b WLoop = (if b then 9 else 2)"
| "work_rank b WTest = (if b then 7 else 3)"
| "work_rank b WStart = (if b then 10 else 3)"
| "work_rank b WWoken = (if b then 8 else 4)"
| "work_rank b (WDelete t) = 3"
| "work_rank b (WDone t) = 4"
| "work_rank b WTake = 5"
| "work_rank b (WBusy t) = 6"

fun delete_rank :: "client_pc \<Rightarrow> nat" where
  "delete_rank CIdle = 12"
| "delete_rank DDisable = 11"
| "delete_rank DLock = 10"
| "delete_rank DDiscard = 9"
| "delete_rank DSignal = 8"
| "delete_rank DUnlock = 2"
| "delete_rank DJoin = 1"
| "delete_rank _ = 0"

definition worker_rank :: "bworker \<Rightarrow> nat" where
  "worker_rank w = work_rank (slot w \<noteq> None) (wpc w) + delete_rank (cpc w) + 1"

definition pool_rank :: "pool \<Rightarrow> nat" where
  "pool_rank p = sum_list (map worker_rank (workers p)) + of_bool (mainpc p = MDelete)"

fun spurious :: "pool_label \<Rightarrow> bool" where
  "spurious (Event i l) = (l = SpuriousWakeup)"
| "spurious _ = False"

lemma worker_rank_le: "worker_rank w \<le> 23"
  by (cases "wpc w"; cases "cpc w") (simp_all add: worker_rank_def)

lemma worker_step_rank:
  "worker_step w l w' \<Longrightarrow> bw_inv w \<Longrightarrow> cpc w \<noteq> CSignal \<Longrightarrow>
     worker_rank w' + of_bool (l \<noteq> SpuriousWakeup) \<le> worker_rank w + 4 * of_bool (l = SpuriousWakeup)"
  by (erule worker_stepE) (auto simp: worker_rank_def bw_inv_def)

lemma client_step_rank:
  "client_step w l w' \<Longrightarrow> bw_inv w \<Longrightarrow> deleting (cpc w) \<Longrightarrow> cpc w \<noteq> CIdle \<Longrightarrow>
     worker_rank w' < worker_rank w \<and> l \<noteq> SpuriousWakeup"
  by (erule client_stepE; cases "wpc w") (auto simp: worker_rank_def bw_inv_def)

lemma rank_update:
  assumes "i < length ws" and "worker_rank w + a \<le> worker_rank (ws ! i) + b"
  shows "sum_list (map worker_rank (ws[i := w])) + a \<le> sum_list (map worker_rank ws) + b"
  using sum_list_update_plus [OF assms(1), of worker_rank w] assms(2) by linarith

definition ending :: "pool \<Rightarrow> bool" where
  "ending p \<longleftrightarrow> mainpc p = MDelete \<or> mainpc p = MGone \<and> workers p = []"

lemma delete_idle:
  assumes "pool_inv p" and "ending p" and "i < length (workers p)"
  shows "bw_inv (workers p ! i)" "deleting (cpc (workers p ! i))" "observed_ok (workers p ! i)"
    "cpc (workers p ! i) \<noteq> CSignal"
proof -
  have ok: "workers_ok p" "clients_ok p" using assms(1) by (simp_all add: pool_inv_def)
  show "bw_inv (workers p ! i)" "observed_ok (workers p ! i)" using workers_ok_nth [OF ok(1) assms(3)] by simp_all
  have "mainpc p = MDelete" using assms(2,3) by (auto simp: ending_def)
  with clients_okD [OF ok(2) assms(3)] show d: "deleting (cpc (workers p ! i))" by (auto split: if_splits)
  then show "cpc (workers p ! i) \<noteq> CSignal" by auto
qed

lemma delete_step_rank:
  assumes "pool_step n p l p'" and inv: "pool_inv p" and e: "ending p"
  shows "ending p' \<and> pool_rank p' + of_bool (\<not> spurious l) \<le> pool_rank p + 4 * of_bool (spurious l)"
  using assms(1)
proof (cases rule: pool_step.cases)
  case (p_worker i w l' w')
  note w = delete_idle [OF inv e p_worker(3)]
  have "worker_rank w' + of_bool (l' \<noteq> SpuriousWakeup) \<le> worker_rank w + 4 * of_bool (l' = SpuriousWakeup)"
    using worker_step_rank [OF p_worker(5)] w p_worker(4) by auto
  from rank_update [OF p_worker(3) this [unfolded p_worker(4)]] show ?thesis
    using p_worker(1-3) e by (auto simp: pool_rank_def ending_def)
next
  case (p_notify i w w')
  note w = delete_idle [OF inv e p_notify(3)]
  have "worker_rank w' + 1 \<le> worker_rank w + 0"
    using worker_step_rank [OF p_notify(5)] w p_notify(4) by auto
  from rank_update [OF p_notify(3) this [unfolded p_notify(4)]] show ?thesis
    using p_notify(1-3) e by (auto simp: pool_rank_def ending_def)
next
  case (p_del_call i w)
  then have i: "i < length (workers p)" by simp
  have "worker_rank (w\<lparr>cpc := DDisable\<rparr>) + 1 \<le> worker_rank w + 0" using p_del_call by (simp add: worker_rank_def)
  from rank_update [OF i this [unfolded p_del_call(5)]] show ?thesis
    using p_del_call e by (auto simp: pool_rank_def ending_def)
next
  case (p_del_step i w l' w')
  then have i: "i < length (workers p)" by simp
  note w = delete_idle [OF inv e i]
  have s: "worker_rank w' < worker_rank w" "l' \<noteq> SpuriousWakeup"
    using client_step_rank [OF p_del_step(7)] w p_del_step(5,6) by auto
  from s(1) have "worker_rank w' + 1 \<le> worker_rank w + 0" by simp
  from rank_update [OF i this [unfolded p_del_step(5)]] s(2) show ?thesis
    using p_del_step e by (auto simp: pool_rank_def ending_def)
next
  case (p_del_pop i w)
  then have "workers p \<noteq> []" by auto
  then have "sum_list (map worker_rank (workers p))
      = sum_list (map worker_rank (butlast (workers p))) + worker_rank (last (workers p))"
    by (cases "workers p" rule: rev_cases) simp_all
  moreover have "0 < worker_rank v" for v by (simp add: worker_rank_def)
  from this [of "last (workers p)"] show ?thesis
    using p_del_pop e calculation by (auto simp: pool_rank_def ending_def)
qed (use e in \<open>auto simp: pool_rank_def ending_def\<close>)

lemma delete_run_rank:
  "run (pool_step n) p ks q \<Longrightarrow> pool_inv p \<Longrightarrow> ending p \<Longrightarrow>
     pool_inv q \<and> ending q \<and> pool_rank q + length (filter (\<lambda>l. \<not> spurious l) ks)
       \<le> pool_rank p + 4 * length (filter spurious ks)"
proof (induction rule: run.induct)
  case (run_snoc p ks q l r)
  then have IH: "pool_inv q" "ending q" "pool_rank q + length (filter (\<lambda>l. \<not> spurious l) ks)
       \<le> pool_rank p + 4 * length (filter spurious ks)" by auto
  from delete_step_rank [OF run_snoc.hyps(2) IH(1,2)] pool_step_inv [OF run_snoc.hyps(2) IH(1)] IH(3)
  show ?case by (cases "spurious l") auto
qed simp

text \<open>The destructor waits for the mutex or in \<open>pthread_join\<close> only while the worker can move on.\<close>

lemma delete_worker_moves:
  assumes "bw_inv w" and "deleting (cpc w)" and "cpc w \<noteq> CIdle" and "cpc w \<noteq> DGone"
    and "client_next w = None"
  shows "worker_next w \<noteq> None"
  using assms
  by (cases "cpc w"; cases "wpc w"; cases "mutex w"; cases "the (mutex w)")
    (auto simp: client_next_def worker_next_def bw_inv_def split: option.splits if_splits)

lemma next_not_spurious:
  "worker_next w = Some (l, w') \<Longrightarrow> l \<noteq> SpuriousWakeup" "client_next w = Some (l, w') \<Longrightarrow> l \<noteq> SpuriousWakeup"
  by (auto simp: worker_next_def client_next_def split: worker_pc.splits client_pc.splits option.splits if_splits)

lemma delete_goes_on:
  assumes inv: "pool_inv p" and m: "mainpc p = MDelete"
  shows "\<exists>l p'. pool_step n p l p' \<and> \<not> spurious l"
proof (cases "workers p = []")
  case True
  then have "pool_step n p Silent (p\<lparr>mainpc := MGone\<rparr>)" using m by (intro p_del_done)
  then show ?thesis by (intro exI [of _ Silent]) auto
next
  case False
  define i where "i = length (workers p) - 1"
  define w where "w = workers p ! i"
  have i: "i < length (workers p)" "Suc i = length (workers p)" using False by (simp_all add: i_def)
  note ok = delete_idle [OF inv _ i(1), folded w_def]
  have e: "ending p" using m by (simp add: ending_def)
  note w = ok [OF e]
  consider (idle) "cpc w = CIdle" | (gone) "cpc w = DGone"
    | (client) l w' where "cpc w \<noteq> CIdle" "client_next w = Some (l, w')"
    | (worker) l w' where "worker_next w = Some (l, w')"
    using delete_worker_moves [OF w(1,2)] by fastforce
  then show ?thesis
  proof cases
    case idle
    have "pool_step n p Silent (set_worker p i (w\<lparr>cpc := DDisable\<rparr>))" by (rule p_del_call [OF m i(2) w_def idle])
    then show ?thesis by (intro exI [of _ Silent]) auto
  next
    case gone
    have "pool_step n p Silent (p\<lparr>workers := butlast (workers p)\<rparr>)" by (rule p_del_pop [OF m i(2) w_def gone])
    then show ?thesis by (intro exI [of _ Silent]) auto
  next
    case client
    have "pool_step n p (Event i l) (set_worker p i w')"
      by (rule p_del_step [OF m i(2) w_def client(1) client_next_sound [OF client(2)]])
    then show ?thesis using next_not_spurious(2) [OF client(2)] by (intro exI [of _ "Event i l"]) auto
  next
    case worker
    note step = worker_next_sound [OF worker]
    have "\<exists>p'. pool_step n p (Event i l) p'"
    proof (cases "is_notified l")
      case True
      then obtain ob where "l = Notified ob" by (auto simp: is_notified_iff)
      moreover from this have "ob = dispatcher_id" using worker_step_occupied(4) [OF step w(1,3)] by blast
      ultimately show ?thesis using thread_move_sound(1) [OF i(1)] worker by (auto simp: w_def)
    next
      case False
      then show ?thesis using thread_move_sound(2) [OF i(1)] worker by (auto simp: w_def)
    qed
    then show ?thesis using next_not_spurious(1) [OF worker] by (metis spurious.simps(1))
  qed
qed


section \<open>Concrete runs\<close>

definition pool_parked :: pool where
  "pool_parked = \<lparr>permits = \<lparr>sem_count = 0\<rparr>,
     workers = [\<lparr>mutex = None, enabled = True, slot = None, wpc = WSleep, cpc = CIdle\<rparr>],
     mainpc = MScan (SetObserver 0 (SocketTask_new 4 9)) 0\<rparr>"

lemma run_parked:
  "run (pool_step 1) TaskDispatcher_new
     ([Silent, Silent, Silent, Event 0 Internal, Event 0 Internal, Event 0 Internal,
       Accepted (SocketTask_new 4 9), Silent]) pool_parked"
  by (rule pool_moves_run [of _ "replicate 3 MainMoves @ replicate 3 (ThreadMoves 0) @
      [Connects 4 9, MainMoves]"]) code_simp

definition serving_moves :: "pool_choice list" where
  "serving_moves = replicate 3 MainMoves @ Connects 4 9 # replicate 7 MainMoves @
     replicate 8 (ThreadMoves 0) @ [Deletes]"

definition deleting_moves :: "pool_choice list" where
  "deleting_moves = [MainMoves, MainMoves] @ replicate 2 (ThreadMoves 0) @ replicate 7 MainMoves"

lemma served_then_deleted:
  "(case pool_moves 1 serving_moves TaskDispatcher_new of
      None \<Rightarrow> False
    | Some (ls, p) \<Rightarrow> mainpc p = MDelete \<and> (case pool_moves 1 deleting_moves p of
          None \<Rightarrow> False
        | Some (ks, q) \<Rightarrow> mainpc q = MGone \<and> total_of accepted_ids (ls @ ks) = {#4#}))"
  by code_simp

theorem dispatch_has_free_worker_witness:
  "\<exists>w \<in> set (workers pool_parked). \<not> occupied w"
  using dispatch_has_free_worker [OF run_parked]
  by (simp add: pool_parked_def looking_for_worker_def)

theorem dispatch_succeeds_with_parked_worker_witness:
  "main_next 1 pool_parked \<noteq> None"
  using dispatch_succeeds_with_parked_worker [OF run_parked _ _ _ run_nil, of _ 0]
  by (simp add: pool_parked_def parked_def)

theorem pool_conserves_clients_witness:
  "main_ids pool_parked = {#4#}"
  using pool_conserves_clients [OF run_parked]
  by (simp add: pool_parked_def worker_ids_def pending_def SocketTask_new_def)


end
