(* ===== verification/ServingPool.thy ===== *)
theory ServingPool
  imports Dispatcher DecodeWorker
begin

text \<open>
  The pool and the dialogues together: the threads of \<open>Dispatcher\<close>, where a worker thread that
  leaves \<open>Work\<close> (line 32 of \<open>Worker.cc\<close>) has held its whole dialogue with the client of its task.
  A dialogue uses the socket of its task, the normalisation of its own worker and models
  that are only read, so that it takes effect at once when it ends. It ends with an answer, or
  with a fault, which ends the process and with it all threads.
\<close>

section \<open>The server with its dialogues\<close>

record serving =
  sp_pool :: pool
  sp_cmvn :: "nat \<Rightarrow> cmn"
  sp_answers :: "(nat \<times> task \<times> answer) list"
  sp_stopped :: "fault option"

text \<open>The workers' normalisations, the answers given so far (worker, task, answer), and the
  fault that has ended the process.\<close>

definition serving_new :: "cmn \<Rightarrow> serving" where
  "serving_new c = \<lparr>sp_pool = TaskDispatcher_new, sp_cmvn = (\<lambda>i. c), sp_answers = [], sp_stopped = None\<rparr>"

fun busy :: "worker_pc \<Rightarrow> bool" where
  "busy (WBusy t) = True"
| "busy _ = False"

text \<open>A worker leaves \<open>Work\<close> between two states of the pool.\<close>

definition finishes :: "pool \<Rightarrow> pool \<Rightarrow> bool" where
  "finishes p p' \<longleftrightarrow>
     list_ex (\<lambda>i. busy (wpc (workers p ! i)) \<and> wpc (workers p' ! i) = WTake) [0..<length (workers p)]"

text \<open>
  \<open>work\<close> is the dialogue of a worker with its normalisation and the connection of its client,
  \<open>conn\<close> the connection of each accepted task. \<^const>\<open>None\<close> is a dialogue that goes on.
\<close>

inductive serving_step :: "int \<Rightarrow> (cmn \<times> 's \<Rightarrow> ((fault + answer) \<times> cmn \<times> 's) option) \<Rightarrow> (nat \<Rightarrow> 's)
    \<Rightarrow> serving \<Rightarrow> pool_label + fault \<Rightarrow> serving \<Rightarrow> bool" for num_threads work conn where
  s_pool: "sp_stopped S = None \<Longrightarrow> pool_step num_threads (sp_pool S) l p \<Longrightarrow> \<not> finishes (sp_pool S) p \<Longrightarrow>
    serving_step num_threads work conn S (Inl l) (S\<lparr>sp_pool := p\<rparr>)"
| s_answer: "sp_stopped S = None \<Longrightarrow> i < length (workers (sp_pool S)) \<Longrightarrow> w = workers (sp_pool S) ! i \<Longrightarrow>
    wpc w = WBusy t \<Longrightarrow> work (sp_cmvn S i, conn (task_id t)) = Some (Inr a, c, s) \<Longrightarrow>
    serving_step num_threads work conn S (Inl (Event i Internal))
      (S\<lparr>sp_pool := set_worker (sp_pool S) i (w\<lparr>wpc := WTake\<rparr>), sp_cmvn := (sp_cmvn S)(i := c),
         sp_answers := sp_answers S @ [(i, t, a)]\<rparr>)"
| s_fault: "sp_stopped S = None \<Longrightarrow> i < length (workers (sp_pool S)) \<Longrightarrow>
    wpc (workers (sp_pool S) ! i) = WBusy t \<Longrightarrow> work (sp_cmvn S i, conn (task_id t)) = Some (Inl e, c, s) \<Longrightarrow>
    serving_step num_threads work conn S (Inr e) (S\<lparr>sp_stopped := Some e\<rparr>)"

inductive_cases serving_stepE: "serving_step n work conn S l S'"

text \<open>The steps of the pool in a run of the server.\<close>

definition pool_labels :: "(pool_label + fault) list \<Rightarrow> pool_label list" where
  "pool_labels ls = concat (map (\<lambda>l. case l of Inl x \<Rightarrow> [x] | Inr e \<Rightarrow> []) ls)"

lemma pool_labels_simps [simp]:
  "pool_labels [] = []" "pool_labels (ls @ ms) = pool_labels ls @ pool_labels ms"
  "pool_labels [Inl x] = [x]" "pool_labels [Inr e] = []"
  by (simp_all add: pool_labels_def)

lemma answer_is_pool_step:
  assumes "i < length (workers p)" and "wpc (workers p ! i) = WBusy t"
  shows "pool_step n p (Event i Internal) (set_worker p i ((workers p ! i)\<lparr>wpc := WTake\<rparr>))"
  using p_worker [OF assms(1) refl w_finish [OF assms(2)]] by simp

text \<open>The dialogues do not add anything to the behaviour of the pool.\<close>

lemma serving_run_pool:
  assumes "run (serving_step n work conn) (serving_new c) ls S"
  shows "run (pool_step n) TaskDispatcher_new (pool_labels ls) (sp_pool S)"
  using assms
proof (induction "serving_new c" ls S rule: run.induct)
  case run_nil
  then show ?case by (simp add: serving_new_def run.run_nil)
next
  case (run_snoc ls S l S')
  from run_snoc.hyps(3) show ?case
  proof (cases rule: serving_step.cases)
    case (s_pool x p)
    with run.run_snoc [OF run_snoc.hyps(2)] show ?thesis by simp
  next
    case (s_answer i w t a c' s)
    then have "pool_step n (sp_pool S) (Event i Internal) (sp_pool S')" using answer_is_pool_step by simp
    with run.run_snoc [OF run_snoc.hyps(2)] s_answer(1) show ?thesis by simp
  next
    case (s_fault i t e c' s)
    with run_snoc.hyps(2) show ?thesis by simp
  qed
qed

section \<open>Each worker serves its clients one after the other\<close>

text \<open>The answers of one worker.\<close>

definition answers_of :: "nat \<Rightarrow> serving \<Rightarrow> (task \<times> answer) list" where
  "answers_of i S = map snd (filter (\<lambda>x. fst x = i) (sp_answers S))"

lemma serve_snoc:
  "serve fuel E best_path os b ss c = Inr (as, c') \<Longrightarrow>
     Work fuel E best_path os b (c', s) = Some (Inr a, c'', t) \<Longrightarrow>
     serve fuel E best_path os b (ss @ [s]) c = Inr (as @ [a], c'')"
proof (induction ss arbitrary: c as)
  case (Cons x ss)
  then obtain a1 c1 t1 as1 where "Work fuel E best_path os b (c, x) = Some (Inr a1, c1, t1)"
    "serve fuel E best_path os b ss c1 = Inr (as1, c')" "as = a1 # as1"
    by (cases "serve fuel E best_path os b ss (fst (snd (the (Work fuel E best_path os b (c, x)))))")
      (auto split: option.splits prod.splits sum.splits)
  with Cons.IH [OF this(2) Cons.prems(2)] show ?case by simp
qed simp

lemma serving_step_sequential:
  assumes "serving_step n (Work fuel E best_path os b) conn S l S'"
    and "serve fuel E best_path os b (map (\<lambda>(t, a). conn (task_id t)) (answers_of i S)) c
      = Inr (map snd (answers_of i S), sp_cmvn S i)"
  shows "serve fuel E best_path os b (map (\<lambda>(t, a). conn (task_id t)) (answers_of i S')) c
    = Inr (map snd (answers_of i S'), sp_cmvn S' i)"
  using assms(1)
proof (cases rule: serving_step.cases)
  case (s_answer j w t a c' s)
  show ?thesis
  proof (cases "j = i")
    case True
    then show ?thesis using serve_snoc [OF assms(2)] s_answer by (simp add: answers_of_def)
  next
    case False
    then show ?thesis using assms(2) s_answer by (simp add: answers_of_def)
  qed
qed (use assms(2) in \<open>simp_all add: answers_of_def\<close>)

lemma serving_run_sequential:
  assumes "run (serving_step n (Work fuel E best_path os b) conn) (serving_new c) ls S"
  shows "serve fuel E best_path os b (map (\<lambda>(t, a). conn (task_id t)) (answers_of i S)) c
    = Inr (map snd (answers_of i S), sp_cmvn S i)"
  using assms
proof (induction "serving_new c" ls S rule: run.induct)
  case run_nil
  then show ?case by (simp add: serving_new_def answers_of_def)
next
  case (run_snoc ls S l S')
  from serving_step_sequential [OF run_snoc.hyps(3,2)] show ?case .
qed

lemma serve_append:
  "serve fuel E best_path os b (xs @ ys) c = Inr (as, c') \<Longrightarrow>
     \<exists>as1 as2 c1. serve fuel E best_path os b xs c = Inr (as1, c1) \<and> serve fuel E best_path os b ys c1 = Inr (as2, c')
       \<and> as = as1 @ as2 \<and> length as1 = length xs"
proof (induction xs arbitrary: c as)
  case (Cons x xs)
  then obtain a1 c1 t1 as1 where x: "Work fuel E best_path os b (c, x) = Some (Inr a1, c1, t1)"
    "serve fuel E best_path os b (xs @ ys) c1 = Inr (as1, c')" "as = a1 # as1"
    by (cases "serve fuel E best_path os b (xs @ ys) (fst (snd (the (Work fuel E best_path os b (c, x)))))")
      (auto split: option.splits prod.splits sum.splits)
  from Cons.IH [OF x(2)] obtain as2 as3 c2 where "serve fuel E best_path os b xs c1 = Inr (as2, c2)"
    "serve fuel E best_path os b ys c2 = Inr (as3, c')" "as1 = as2 @ as3" "length as2 = length xs" by blast
  with x show ?case by (intro exI [of _ "a1 # as2"] exI [of _ as3] exI [of _ c2]) simp
qed simp

text \<open>The answer to a client in file mode, as a function of what the worker has heard before.\<close>

lemma Work_file_client:
  assumes os: "os_ok os inc out" "os_live os inc" "os_sends os"
    and K: "mfcc_ok (oe_kaldi E)" "0 < num_ceps (oe_kaldi E)" and len: "4 * length wave < 2 ^ 31"
    and ok: "cmn_ok c" "cdim c = num_ceps (oe_kaldi E)" "hist c = 600" "history c = last_n 600 h"
    and inc: "inc s = packet DECODE_REQUEST [bool_byte False] @ packet DATA_WAVE (float_bytes wave)"
    and W: "Work fuel E best_path os b (c, s) = Some (Inr a, c', t)"
  shows "\<exists>ys words. normalised (oe_kaldi E) (last_n 600 (h @ mfcc_rows (oe_kaldi E) wave)) (mfcc_rows (oe_kaldi E) wave) ys
    \<and> a = Recognised words
    \<and> SymbolsToWords (best_path (lda_spec (oe_lda E) (oe_left E) (oe_right E) ys)) (oe_table E) = Inr words"
proof -
  let ?fs = "mfcc_rows (oe_kaldi E) wave"
  obtain u where u: "Work_start os b s = (Inr False, u)" "inc u = packet DATA_WAVE (float_bytes wave) @ []"
    using Work_start_file [OF os, of s False "packet DATA_WAVE (float_bytes wave)"] inc by auto
  obtain hd v where hd: "ReceiveHeader os u = (Inr hd, v)" "inc v = float_bytes wave @ []"
    "packet_type hd = type_code DATA_WAVE" "payload_length hd = word_of_nat (4 * length wave)"
    using ReceiveHeader_append [OF os(1,2), of u] u(2) unfolding packet_append by fastforce
  obtain w where "Receive_wave os (payload_length hd) v = (Inr wave, w)"
    using Receive_wave_packet [OF os(1,2) len hd(2)] hd(4) by auto
  then obtain words where words: "Work_recognise E best_path wave c = (Inr words, c')" "a = Recognised words"
    using W u(1) hd(1,3) by (auto simp: Work_def Work_file_def split: prod.splits sum.splits)
  have "?fs \<noteq> []"
  proof
    assume "?fs = []"
    then show False using words(1) ok(2) K(2) by (simp add: Work_recognise_def mfcc_matrix_def ApplyCmvn2_def Let_def)
  qed
  from Work_recognise_outcome [OF ok(1,2) K(1) refl refl this, of best_path] obtain ys c1 where
    ys: "normalised (oe_kaldi E) (history c1) ?fs ys" "history c1 = last_n 600 (h @ ?fs)"
    "Work_recognise E best_path wave c =
       (if ys = [] \<or> length ys < oe_right E then Inl OutOfBounds
        else if length ys = oe_right E \<or> num_cols (oe_lda E) \<noteq> num_ceps (oe_kaldi E) * (oe_left E + oe_right E + 1) then Inl KaldiError
        else SymbolsToWords (best_path (lda_spec (oe_lda E) (oe_left E) (oe_right E) ys)) (oe_table E), c1)"
    using ok(3,4) by (auto simp: last_n_append)
  then show ?thesis using words by (auto split: if_splits)
qed

text \<open>
  C3. What a client in file mode gets from the concurrent server: if it gets an answer, it is the
  words of the decoder's best path for the transformed features of its own recording, normalised
  by the last 600 feature vectors of this recording and of the recordings that the same worker has
  recognised before, whatever the other workers do at the same time.
\<close>

theorem concurrent_recognition:
  assumes "os_ok os inc out" and "os_live os inc" and "os_sends os"
    and "mfcc_ok (oe_kaldi E)" and "0 < num_ceps (oe_kaldi E)" and "4 * length wave < 2 ^ 31"
    and "run (serving_step n (Work fuel E best_path os b) conn) (serving_new (DecodeWorker_new (oe_kaldi E))) ls S"
    and "answers_of i S = before @ (t, a) # after"
    and "inc (conn (task_id t)) = packet DECODE_REQUEST [bool_byte False] @ packet DATA_WAVE (float_bytes wave)"
    and "heard = concat (map (\<lambda>(u, x). contributes (oe_kaldi E) x (inc (conn (task_id u)))) before)"
  shows "\<exists>ys words. normalised (oe_kaldi E) (last_n 600 (heard @ mfcc_rows (oe_kaldi E) wave))
      (mfcc_rows (oe_kaldi E) wave) ys
    \<and> a = Recognised words
    \<and> SymbolsToWords (best_path (lda_spec (oe_lda E) (oe_left E) (oe_right E) ys)) (oe_table E) = Inr words"
proof -
  let ?conn = "\<lambda>(t, a). conn (task_id t)"
  have "serve fuel E best_path os b (map ?conn before @ map ?conn ((t, a) # after)) (DecodeWorker_new (oe_kaldi E))
      = Inr (map snd before @ a # map snd after, sp_cmvn S i)"
    using serving_run_sequential [OF assms(7), of i] unfolding assms(8) by simp
  from serve_append [OF this] obtain c1 where c1:
    "serve fuel E best_path os b (map ?conn before) (DecodeWorker_new (oe_kaldi E)) = Inr (map snd before, c1)"
    "serve fuel E best_path os b (map ?conn ((t, a) # after)) c1 = Inr (a # map snd after, sp_cmvn S i)"
    by (auto simp: append_eq_append_conv)
  have "map2 (\<lambda>x s. contributes (oe_kaldi E) x (inc s)) (map snd before) (map ?conn before)
      = map (\<lambda>(u, x). contributes (oe_kaldi E) x (inc (conn (task_id u)))) before"
    by (induction before) auto
  then have h: "cmn_ok c1" "cdim c1 = num_ceps (oe_kaldi E)" "hist c1 = 600" "history c1 = last_n 600 heard"
    using serve_history [OF assms(1,4,5) c1(1)] assms(10) by simp_all
  obtain c2 s where W: "Work fuel E best_path os b (c1, conn (task_id t)) = Some (Inr a, c2, s)"
    using c1(2) by (auto simp: map_sum_Inr split: option.splits prod.splits sum.splits)
  show ?thesis by (rule Work_file_client [OF assms(1-6) h assms(9) W])
qed

section \<open>Every client is answered at most once\<close>

text \<open>The program points behind \<open>Work\<close>; the tasks inside a worker whose dialogue is over, and those
  whose dialogue is not.\<close>

fun answered_pc :: "worker_pc \<Rightarrow> bool" where
  "answered_pc WTake = True"
| "answered_pc (WDone t) = True"
| "answered_pc (WDelete t) = True"
| "answered_pc _ = False"

definition done_ids :: "bworker \<Rightarrow> nat multiset" where
  "done_ids w = (if answered_pc (wpc w) then worker_ids w else {#})"

definition unanswered_ids :: "bworker \<Rightarrow> nat multiset" where
  "unanswered_ids w = (if answered_pc (wpc w) then {#} else worker_ids w)"

fun finished_ids :: "pool_label \<Rightarrow> nat multiset" where
  "finished_ids (Event i l) = image_mset task_id (freed l)"
| "finished_ids _ = {#}"

fun discarded_ids :: "pool_label \<Rightarrow> nat multiset" where
  "discarded_ids (Event i l) = image_mset task_id (discarded l)"
| "discarded_ids _ = {#}"

definition answered_ids :: "serving \<Rightarrow> nat multiset" where
  "answered_ids S = mset (map (\<lambda>(i, t, a). task_id t) (sp_answers S))"

lemma freed_ids_split: "freed_ids l = finished_ids l + discarded_ids l"
  by (cases l) simp_all


lemma worker_ids_split: "worker_ids w = done_ids w + unanswered_ids w"
  by (simp add: done_ids_def unanswered_ids_def)

lemma done_ids_cpc [simp]: "done_ids (w\<lparr>cpc := c\<rparr>) = done_ids w"
  by (simp add: done_ids_def)

lemma done_ids_new [simp]: "done_ids BackgroundWorker_new = {#}"
  by (simp add: done_ids_def)

lemma worker_step_done:
  assumes "worker_step w l w'" and "bw_inv w" and "\<not> (busy (wpc w) \<and> wpc w' = WTake)"
  shows "done_ids w = image_mset task_id (freed l) + done_ids w'"
  using assms
  by (cases rule: worker_step.cases)
    (auto simp: done_ids_def worker_ids_def pending_def bw_inv_def)

lemma client_step_done:
  assumes "client_step w l w'" and "bw_inv w"
  shows "done_ids w = image_mset task_id (freed l) + done_ids w'"
  using assms
  by (cases rule: client_step.cases; cases "wpc w")
    (auto simp: done_ids_def worker_ids_def pending_def wake_def bw_inv_def)

lemma busy_done: "bw_inv w \<Longrightarrow> wpc w = WBusy t \<Longrightarrow> done_ids (w\<lparr>wpc := WTake\<rparr>) = done_ids w + {#task_id t#}"
  by (simp add: done_ids_def worker_ids_def pending_def bw_inv_def)

definition pool_done :: "pool \<Rightarrow> nat multiset" where
  "pool_done p = sum_list (map done_ids (workers p))"

lemma sum_done_update:
  assumes "i < length ws" and "done_ids (ws ! i) = F + done_ids w"
  shows "sum_list (map done_ids ws) = F + sum_list (map done_ids (ws[i := w]))"
proof -
  have "sum_list (map done_ids (ws[i := w])) + done_ids (ws ! i) = sum_list (map done_ids ws) + done_ids w"
    by (rule sum_list_update_plus [OF assms(1)])
  then have "(F + sum_list (map done_ids (ws[i := w]))) + done_ids w = sum_list (map done_ids ws) + done_ids w"
    unfolding assms(2) by (simp add: ac_simps)
  then show ?thesis by simp
qed

lemma sum_done_cpc:
  "i < length ws \<Longrightarrow> sum_list (map done_ids (ws[i := (ws ! i)\<lparr>cpc := c\<rparr>])) = sum_list (map done_ids ws)"
  using sum_done_update [of i ws "{#}" "(ws ! i)\<lparr>cpc := c\<rparr>"] by simp

lemma not_finishes:
  "\<not> finishes p (set_worker p i w') \<Longrightarrow> i < length (workers p) \<Longrightarrow>
     \<not> (busy (wpc (workers p ! i)) \<and> wpc w' = WTake)"
  by (auto simp: finishes_def list_ex_iff)

lemma pool_step_done:
  assumes "pool_step n p l p'" and inv: "pool_inv p" and fin: "\<not> finishes p p'"
  shows "pool_done p = finished_ids l + pool_done p'"
proof -
  have wok: "workers_ok p" using inv by (simp add: pool_inv_def)
  show ?thesis
    using assms(1)
  proof (cases rule: pool_step.cases)
    case (p_try t i w l' w')
    then have "done_ids w = image_mset task_id (freed l') + done_ids w'"
      using client_step_done workers_ok_nth [OF wok, of i] by blast
    with p_try show ?thesis by (simp add: pool_done_def sum_done_update)
  next
    case (p_worker i w l' w')
    have "\<not> (busy (wpc w) \<and> wpc w' = WTake)" using not_finishes fin p_worker(2-4) by blast
    then have "done_ids w = image_mset task_id (freed l') + done_ids w'"
      using worker_step_done workers_ok_nth [OF wok, of i] p_worker by blast
    with p_worker show ?thesis by (simp add: pool_done_def sum_done_update)
  next
    case (p_notify i w w')
    have "done_ids w = image_mset task_id (freed (Notified dispatcher_id)) + done_ids w'"
      using p_notify(5) workers_ok_nth [OF wok, of i] p_notify(3,4)
      by (intro worker_step_done) (auto elim: worker_stepE)
    with p_notify show ?thesis using sum_done_update [of i "workers p" "{#}" w'] by (simp add: pool_done_def)
  next
    case (p_del_step i w l' w')
    then have i: "i < length (workers p)" by simp
    have "done_ids w = image_mset task_id (freed l') + done_ids w'"
      using client_step_done workers_ok_nth [OF wok i] p_del_step by blast
    with p_del_step i show ?thesis by (simp add: pool_done_def sum_done_update)
  next
    case (p_del_pop i w)
    then have ws: "workers p = butlast (workers p) @ [w]"
      by (metis append_butlast_last_id diff_Suc_1 last_conv_nth length_0_conv nat.distinct(1))
    have "done_ids w = {#}"
      using deleted_worker_empty workers_ok_nth [OF wok, of i] p_del_pop by (auto simp: done_ids_def)
    then have "sum_list (map done_ids (workers p)) = sum_list (map done_ids (butlast (workers p)))"
      by (subst ws) simp
    with p_del_pop show ?thesis by (simp add: pool_done_def)
  qed (simp_all add: pool_done_def sum_done_cpc)
qed

lemma answered_run:
  assumes "run (serving_step n work conn) (serving_new c) ls S"
  shows "answered_ids S = total_of finished_ids (pool_labels ls) + pool_done (sp_pool S)"
  using assms
proof (induction "serving_new c" ls S rule: run.induct)
  case run_nil
  then show ?case by (simp add: serving_new_def answered_ids_def pool_done_def TaskDispatcher_new_def)
next
  case (run_snoc ls S l S')
  have inv: "pool_inv (sp_pool S)" using pool_run_inv serving_run_pool [OF run_snoc.hyps(1)] by blast
  from run_snoc.hyps(3) show ?case
  proof (cases rule: serving_step.cases)
    case (s_pool x p)
    with run_snoc.hyps(2) pool_step_done [OF s_pool(4) inv s_pool(5)] show ?thesis
      by (simp add: answered_ids_def ac_simps)
  next
    case (s_answer i w t a c' s)
    have "bw_inv w" using inv s_answer(4,5) workers_ok_nth [of "sp_pool S" i] by (simp add: pool_inv_def)
    from busy_done [OF this s_answer(6)] s_answer(5)
    have "done_ids (w\<lparr>wpc := WTake\<rparr>) = {#task_id t#} + done_ids (workers (sp_pool S) ! i)" by simp
    then have "pool_done (set_worker (sp_pool S) i (w\<lparr>wpc := WTake\<rparr>)) = pool_done (sp_pool S) + {#task_id t#}"
      using sum_list_update_plus [OF s_answer(4), of done_ids "w\<lparr>wpc := WTake\<rparr>"] s_answer(4)
      by (simp add: pool_done_def)
    then show ?thesis using run_snoc.hyps(2) s_answer by (simp add: answered_ids_def)
  next
    case (s_fault i t e c' s)
    with run_snoc.hyps(2) show ?thesis by (simp add: answered_ids_def)
  qed
qed

text \<open>
  C2. No client is answered twice and none is forgotten: at every moment the accepted clients are
  those that have got their answer, those whose task the destructor has discarded, the one that
  the main thread is dispatching, and those that are inside a worker and not yet answered.
\<close>

theorem clients_are_answered_once:
  assumes "run (serving_step n work conn) (serving_new c) ls S"
  shows "total_of accepted_ids (pool_labels ls) =
    answered_ids S + total_of discarded_ids (pool_labels ls) + main_ids (sp_pool S)
      + sum_list (map unanswered_ids (workers (sp_pool S)))"
proof -
  let ?p = "sp_pool S"
  have freed: "total_of freed_ids ms = total_of finished_ids ms + total_of discarded_ids ms" for ms
    by (induction ms) (simp_all add: freed_ids_split ac_simps)
  have split: "sum_list (map worker_ids ws) = sum_list (map done_ids ws) + sum_list (map unanswered_ids ws)" for ws
    by (induction ws) (simp_all add: worker_ids_split ac_simps)
  show ?thesis
    using pool_run_ids [OF serving_run_pool [OF assms]] answered_run [OF assms]
    by (simp add: freed pool_ids_def split pool_done_def ac_simps)
qed

section \<open>One client can end the service for all\<close>

lemma stopped_is_final: "sp_stopped S \<noteq> None \<Longrightarrow> \<not> serving_step n work conn S l S'"
  by (auto elim: serving_stepE)

text \<open>Worker \<open>i\<close> is in its dialogue for task \<open>t\<close>, and has given the answers \<open>as\<close> before.\<close>

definition in_dialogue :: "nat \<Rightarrow> task \<Rightarrow> (task \<times> answer) list \<Rightarrow> serving \<Rightarrow> bool" where
  "in_dialogue i t as S \<longleftrightarrow> pool_inv (sp_pool S) \<and> i < length (workers (sp_pool S))
     \<and> wpc (workers (sp_pool S) ! i) = WBusy t \<and> answers_of i S = as"

lemma client_step_busy: "client_step w l w' \<Longrightarrow> wpc w = WBusy t \<Longrightarrow> wpc w' = WBusy t"
  by (erule client_stepE) (auto simp: wake_def)

lemma worker_step_busy: "worker_step w l w' \<Longrightarrow> wpc w = WBusy t \<Longrightarrow> wpc w' = WTake"
  by (erule worker_stepE) auto

lemma pool_step_busy:
  assumes "pool_step n p l p'" and "pool_inv p" and "\<not> finishes p p'"
    and "i < length (workers p)" and "wpc (workers p ! i) = WBusy t"
  shows "i < length (workers p') \<and> wpc (workers p' ! i) = WBusy t"
  using assms(1)
proof (cases rule: pool_step.cases)
  case (p_try u j w l' w')
  with assms(4,5) client_step_busy [of w l' w' t] show ?thesis by (cases "i = j") auto
next
  case (p_worker j w l' w')
  with assms(3-5) worker_step_busy [of w l' w' t] not_finishes [of p j w'] show ?thesis by (cases "i = j") auto
next
  case (p_notify j w w')
  with assms(4,5) show ?thesis by (cases "i = j") (auto elim: worker_stepE)
next
  case (p_del_step j w l' w')
  with assms(4,5) client_step_busy [of w l' w' t] show ?thesis by (cases "i = j") auto
next
  case (p_del_pop j w)
  have "bw_inv w" using assms(2) p_del_pop workers_ok_nth [of p j] by (simp add: pool_inv_def)
  then have "wpc w \<noteq> WBusy t" using p_del_pop(6) by (auto simp: bw_inv_def)
  with p_del_pop assms(4,5) have "i < j" by (cases "i = j") auto
  with p_del_pop assms(5) show ?thesis by (simp add: nth_butlast)
qed (use assms(4,5) in \<open>auto simp: nth_list_update nth_append\<close>)

lemma stuck_dialogue_step:
  assumes "serving_step n work conn S l S'" and "in_dialogue i t as S"
    and "\<And>c r c' s. work (c, conn (task_id t)) = Some (r, c', s) \<Longrightarrow> \<exists>e. r = Inl e"
  shows "in_dialogue i t as S'"
  using assms(1)
proof (cases rule: serving_step.cases)
  case (s_pool x p)
  with assms(2) pool_step_busy [OF s_pool(4) _ s_pool(5), of i t] pool_step_inv [OF s_pool(4)] show ?thesis
    by (simp add: in_dialogue_def answers_of_def)
next
  case (s_answer j w u a c' s)
  have "i \<noteq> j"
  proof
    assume "i = j"
    then have "u = t" using s_answer(5,6) assms(2) by (simp add: in_dialogue_def)
    then show False using assms(3) s_answer(7) by blast
  qed
  moreover have "pool_step n (sp_pool S) (Event j Internal) (sp_pool S')"
    using answer_is_pool_step [OF s_answer(4), of u n] s_answer(2,5,6) by simp
  then have "pool_inv (sp_pool S')" by (rule pool_step_inv) (use assms(2) in \<open>simp add: in_dialogue_def\<close>)
  ultimately show ?thesis using s_answer(2) assms(2) by (simp add: in_dialogue_def answers_of_def)
qed (use assms(2) in \<open>simp add: in_dialogue_def answers_of_def\<close>)

text \<open>
  C15. The service of all clients hangs on every single one: when a worker has taken a client whose
  first packet is no request, the process can exit at any moment, after which nothing happens any
  more, and until then this worker gives no further answer to anybody.
\<close>

theorem bad_client_ends_service:
  assumes "os_ok os inc out" and "os_live os inc"
    and "run (serving_step n (Work fuel E best_path os b) conn) (serving_new c) ls S"
    and "sp_stopped S = None" and "i < length (workers (sp_pool S))"
    and "wpc (workers (sp_pool S) ! i) = WBusy t"
    and "inc (conn (task_id t)) = header_bytes h @ rest" and "packet_type h \<noteq> type_code DECODE_REQUEST"
  shows "(\<exists>S'. serving_step n (Work fuel E best_path os b) conn S (Inr (Exit 1)) S'
      \<and> (\<forall>l S''. \<not> serving_step n (Work fuel E best_path os b) conn S' l S''))
    \<and> (\<forall>ms S'. run (serving_step n (Work fuel E best_path os b) conn) S ms S' \<longrightarrow>
        answers_of i S' = answers_of i S)"
proof -
  let ?step = "serving_step n (Work fuel E best_path os b) conn"
  note wrong = Work_wrong_packet [OF assms(1,2,7,8), of fuel E best_path b]
  have "\<exists>S'. ?step S (Inr (Exit 1)) S' \<and> (\<forall>l S''. \<not> ?step S' l S'')"
  proof -
    obtain s where "Work fuel E best_path os b (sp_cmvn S i, conn (task_id t)) = Some (Inl (Exit 1), sp_cmvn S i, s)"
      using wrong by blast
    then have "?step S (Inr (Exit 1)) (S\<lparr>sp_stopped := Some (Exit 1)\<rparr>)"
      by (rule s_fault [OF assms(4-6)])
    then show ?thesis by (intro exI [of _ "S\<lparr>sp_stopped := Some (Exit 1)\<rparr>"] conjI) (auto elim: serving_stepE)
  qed
  moreover have fails: "\<exists>e. r = Inl e"
    if "Work fuel E best_path os b (c0, conn (task_id t)) = Some (r, c', s)" for c0 r c' s
    using that wrong [of c0] by auto
  have "answers_of i S' = answers_of i S" if r: "run ?step S ms S'" for ms S'
  proof -
    have "in_dialogue i t (answers_of i S) S"
      using assms(5,6) pool_run_inv [OF serving_run_pool [OF assms(3)]] by (simp add: in_dialogue_def)
    with r have "in_dialogue i t (answers_of i S) S'"
      by (rule run_invariant) (rule stuck_dialogue_step [OF _ _ fails])
    then show ?thesis by (simp add: in_dialogue_def)
  qed
  ultimately show ?thesis by blast
qed

section \<open>Concrete runs\<close>

text \<open>Moves of the pool during which no dialogue ends.\<close>

fun calm_moves :: "int \<Rightarrow> pool_choice list \<Rightarrow> pool \<Rightarrow> (pool_label list \<times> pool) option" where
  "calm_moves n [] p = Some ([], p)"
| "calm_moves n (m # ms) p = (case pool_move n m p of
      None \<Rightarrow> None
    | Some (l, p') \<Rightarrow> if finishes p p' then None else (case calm_moves n ms p' of
          None \<Rightarrow> None
        | Some (ls, p'') \<Rightarrow> Some (l # ls, p'')))"

lemma calm_moves_run:
  "calm_moves n ms p = Some (ls, p') \<Longrightarrow> sp_stopped S = None \<Longrightarrow> sp_pool S = p \<Longrightarrow>
     run (serving_step n work conn) S (map Inl ls) (S\<lparr>sp_pool := p'\<rparr>)"
proof (induction ms arbitrary: p ls S)
  case Nil
  then have "S\<lparr>sp_pool := p'\<rparr> = S" by (cases S) simp
  with Nil show ?case by (auto intro: run_nil)
next
  case (Cons m ms)
  then obtain l u ls' where u: "pool_move n m p = Some (l, u)" "\<not> finishes p u" "calm_moves n ms u = Some (ls', p')"
    "ls = l # ls'"
    by (auto split: option.splits if_splits)
  have "serving_step n work conn S (Inl l) (S\<lparr>sp_pool := u\<rparr>)"
    using s_pool [OF Cons.prems(2)] pool_move_sound [OF u(1)] u(2) Cons.prems(3) by auto
  then have "run (serving_step n work conn) S [Inl l] (S\<lparr>sp_pool := u\<rparr>)" by (rule run_step)
  from run_append [OF Cons.IH [OF u(3), of "S\<lparr>sp_pool := u\<rparr>"] this] Cons.prems(2) u(4) show ?case by simp
qed

definition first_client :: task where
  "first_client = SetObserver 0 (SocketTask_new 4 9)"

text \<open>One worker, one client: the worker is in its dialogue.\<close>

lemma first_dialogue:
  "map_option (\<lambda>(ls, p). (map wpc (workers p), total_of accepted_ids ls, main_ids p, total_of discarded_ids ls))
     (calm_moves 1 (replicate 3 MainMoves @ replicate 3 (ThreadMoves 0) @
        Connects 4 9 # replicate 7 MainMoves @ replicate 2 (ThreadMoves 0)) TaskDispatcher_new) =
   Some ([WBusy first_client], {#4#}, {#}, {#})"
  by code_simp

lemma first_dialogue_run:
  "\<exists>ls p. run (serving_step 1 work conn) (serving_new c) (map Inl ls) ((serving_new c)\<lparr>sp_pool := p\<rparr>)
     \<and> map wpc (workers p) = [WBusy first_client] \<and> total_of accepted_ids ls = {#4#}"
proof -
  obtain ls p where m: "calm_moves 1 (replicate 3 MainMoves @ replicate 3 (ThreadMoves 0) @
        Connects 4 9 # replicate 7 MainMoves @ replicate 2 (ThreadMoves 0)) TaskDispatcher_new = Some (ls, p)"
    and p: "map wpc (workers p) = [WBusy first_client]" "total_of accepted_ids ls = {#4#}"
    using first_dialogue unfolding map_option_case by (auto split: option.splits)
  have "run (serving_step 1 work conn) (serving_new c) (map Inl ls) ((serving_new c)\<lparr>sp_pool := p\<rparr>)"
    by (rule calm_moves_run [OF m]) (simp_all add: serving_new_def)
  with p show ?thesis by (intro exI conjI)
qed

text \<open>The state behind an answer to this client.\<close>

lemma first_answer_run:
  assumes "work (c, conn 4) = Some (Inr a, c', s)"
  shows "\<exists>ls S. run (serving_step 1 work conn) (serving_new c) ls S \<and> sp_answers S = [(0, first_client, a)]
    \<and> sp_cmvn S 0 = c' \<and> total_of accepted_ids (pool_labels ls) = {#4#}"
proof -
  obtain ls p where r: "run (serving_step 1 work conn) (serving_new c) (map Inl ls) ((serving_new c)\<lparr>sp_pool := p\<rparr>)"
    "map wpc (workers p) = [WBusy first_client]" "total_of accepted_ids ls = {#4#}"
    using first_dialogue_run [of work conn c] by (elim exE conjE) (rule that)
  let ?S = "(serving_new c)\<lparr>sp_pool := p\<rparr>"
  let ?S' = "?S\<lparr>sp_pool := set_worker p 0 ((workers p ! 0)\<lparr>wpc := WTake\<rparr>), sp_cmvn := (sp_cmvn ?S)(0 := c'),
    sp_answers := sp_answers ?S @ [(0, first_client, a)]\<rparr>"
  have "workers p \<noteq> []" "wpc (workers p ! 0) = WBusy first_client" using r(2) by (auto simp: map_eq_Cons_conv)
  then have "serving_step 1 work conn ?S (Inl (Event 0 Internal)) ?S'"
    using s_answer [of ?S 0 _ first_client work conn a c' s 1] assms
    by (simp add: serving_new_def first_client_def SetObserver_def SocketTask_new_def)
  from run_snoc [OF r(1) this] have "run (serving_step 1 work conn) (serving_new c) (map Inl (ls @ [Event 0 Internal])) ?S'"
    by simp
  moreover have "pool_labels (map Inl ms) = ms" for ms
    by (induction ms) (simp_all add: pool_labels_def)
  ultimately show ?thesis
    using r(3) by (intro exI [of _ "map Inl (ls @ [Event 0 Internal])"] exI [of _ ?S'])
      (simp add: serving_new_def del: map_append)
qed

theorem concurrent_recognition_witness:
  "\<exists>ls S ys words. run (serving_step 1 (Work 0 tiny_env tiny_path conn_os 7) (\<lambda>k. \<lparr>inbox = [tiny_sent], outbox = []\<rparr>))
      (serving_new (DecodeWorker_new tiny_kaldi)) ls S
    \<and> answers_of 0 S = [(first_client, Recognised words)]
    \<and> normalised tiny_kaldi [[1]] [[1]] ys"
proof -
  let ?c = "DecodeWorker_new (oe_kaldi tiny_env)" and ?conn = "\<lambda>k :: nat. \<lparr>inbox = [tiny_sent], outbox = []\<rparr>"
  let ?work = "Work 0 tiny_env tiny_path conn_os 7"
  obtain words c y where w: "?work (?c, ?conn 4) = Some (Inr (Recognised words), c, y)"
    using tiny_work by auto
  obtain ls S where S: "run (serving_step 1 ?work ?conn) (serving_new ?c) ls S"
    "sp_answers S = [(0, first_client, Recognised words)]"
    using first_answer_run [where work = ?work and conn = ?conn, OF w] by blast
  have a: "answers_of 0 S = [] @ (first_client, Recognised words) # []" by (simp add: answers_of_def S(2))
  have K: "mfcc_ok (oe_kaldi tiny_env)" "0 < num_ceps (oe_kaldi tiny_env)" "4 * length [1 :: sample] < 2 ^ 31"
    using tiny_new by simp_all
  have sent: "incoming (?conn (task_id first_client)) = packet DECODE_REQUEST [bool_byte False] @ packet DATA_WAVE (float_bytes [1])"
    by (simp add: incoming_def tiny_sent_def)
  obtain ys where "normalised (oe_kaldi tiny_env) (last_n 600 ([] @ mfcc_rows (oe_kaldi tiny_env) [1]))
      (mfcc_rows (oe_kaldi tiny_env) [1]) ys"
    using concurrent_recognition [OF conn_os_ok conn_os_live conn_os_sends K S(1) a sent, of "[]"] by auto
  then have "normalised tiny_kaldi [[1]] [[1]] ys" by (simp add: last_n_def tiny_kaldi_def tiny_env_def)
  then show ?thesis using S(1) a by auto
qed

theorem clients_are_answered_once_witness:
  "\<exists>S ls. run (serving_step 1 (\<lambda>(c, s). Some (Inr Streamed, c, s)) (\<lambda>k. ())) (serving_new (DecodeWorker_new tiny_kaldi)) ls S
    \<and> answered_ids S = {#4#} \<and> main_ids (sp_pool S) = {#}"
proof -
  let ?work = "\<lambda>(c :: cmn, s :: unit). Some (Inr Streamed :: fault + answer, c, s)"
  let ?c = "DecodeWorker_new tiny_kaldi"
  have "?work (?c, ()) = Some (Inr Streamed, ?c, ())" by simp
  from first_answer_run [where work = ?work and conn = "\<lambda>k. ()", OF this]
  obtain ls S where S: "run (serving_step 1 ?work (\<lambda>k. ())) (serving_new ?c) ls S"
    "sp_answers S = [(0, first_client, Streamed)]" "total_of accepted_ids (pool_labels ls) = {#4#}" by blast
  have "answered_ids S = {#4#}"
    by (simp add: answered_ids_def S(2) first_client_def SetObserver_def SocketTask_new_def)
  moreover from this have "main_ids (sp_pool S) = {#}"
    using clients_are_answered_once [OF S(1)] unfolding S(3) by simp
  ultimately show ?thesis using S(1) by blast
qed

theorem bad_client_ends_service_witness:
  "\<exists>S ls. run (serving_step 1 (Work 0 tiny_env tiny_path conn_os 7)
        (\<lambda>k. \<lparr>inbox = [header_bytes \<lparr>payload_length = 0, packet_type = 9\<rparr>], outbox = []\<rparr>))
      (serving_new (DecodeWorker_new tiny_kaldi)) ls S \<and> sp_stopped S = Some (Exit 1)"
proof -
  let ?work = "Work 0 tiny_env tiny_path conn_os 7" and ?c = "DecodeWorker_new tiny_kaldi"
  let ?conn = "\<lambda>k :: nat. \<lparr>inbox = [header_bytes \<lparr>payload_length = 0, packet_type = 9\<rparr>], outbox = []\<rparr>"
  obtain ls p where r: "run (serving_step 1 ?work ?conn) (serving_new ?c) (map Inl ls) ((serving_new ?c)\<lparr>sp_pool := p\<rparr>)"
    "map wpc (workers p) = [WBusy first_client]"
    using first_dialogue_run [of ?work ?conn ?c] by (elim exE conjE) (rule that)
  let ?S = "(serving_new ?c)\<lparr>sp_pool := p\<rparr>"
  have S: "sp_stopped ?S = None" "0 < length (workers (sp_pool ?S))" "wpc (workers (sp_pool ?S) ! 0) = WBusy first_client"
    "incoming (?conn (task_id first_client)) = header_bytes \<lparr>payload_length = 0, packet_type = 9\<rparr> @ []"
    "packet_type \<lparr>payload_length = 0, packet_type = 9\<rparr> \<noteq> type_code DECODE_REQUEST"
    using r(2) by (auto simp: serving_new_def incoming_def map_eq_Cons_conv)
  from bad_client_ends_service [OF conn_os_ok conn_os_live r(1) S]
  obtain S' where s: "serving_step 1 ?work ?conn ?S (Inr (Exit 1)) S'" by blast
  then have "sp_stopped S' = Some (Exit 1)" by (auto elim: serving_stepE)
  with run_snoc [OF r(1) s] show ?thesis by blast
qed

end
