(* ===== verification/ClientLink.thy ===== *)
theory ClientLink
  imports OnlineSession
begin

text \<open>
  The server's online input with the client program at the other end of its socket. The
  network between the two is lossless: what one side sends the other receives, and the client
  of \<open>speechclient.cc\<close> runs as far as it can whenever the server waits for it. The section on
  the interface shows that \<open>RemoteAudioSource::Read\<close> is then a source that hands out the
  client's wave and breaks when the client has left; the theorems say what \<open>OnlineVadFeInput\<close>
  makes of it.
\<close>

section \<open>The two programs connected\<close>

text \<open>
  The client's side of the connection (\<open>inbox\<close>: sent by the server and not yet read,
  \<open>outbox\<close>: sent by the client and not yet received), the variables of its loop, and the fault
  that has ended it.
\<close>

record link =
  lconn :: conn
  lvars :: "int \<times> shown list"
  lfault :: "fault option"

definition client_left :: "sample list \<Rightarrow> link \<Rightarrow> bool" where
  "client_left wave l \<longleftrightarrow> lfault l \<noteq> None \<or> int (length wave) \<le> fst (lvars l)"

fun client_runs :: "nat \<Rightarrow> sample list \<Rightarrow> link \<Rightarrow> link" where
  "client_runs 0 wave l = l"
| "client_runs (Suc n) wave l =
     (if client_left wave l \<or> incoming (lconn l) = [] then l
      else (case Client_turn conn_os wave (lvars l) (lconn l) of
          (Inl e, c) \<Rightarrow> l\<lparr>lconn := c, lfault := Some e\<rparr>
        | (Inr v, c) \<Rightarrow> client_runs n wave (l\<lparr>lconn := c, lvars := v\<rparr>)))"

text \<open>
  The server's system calls. A turn of the client takes at least one byte, so that there is
  fuel for all its turns. What the network answers to a \<open>send\<close> to a client that has left is
  the parameter \<open>late\<close>, and what becomes of a \<open>recv\<close> while both sides wait is the parameter
  \<open>stuck\<close>; nothing below depends on them.
\<close>

definition link_recv :: "(link \<Rightarrow> nat \<Rightarrow> byte list option \<times> link) \<Rightarrow> sample list \<Rightarrow> link \<Rightarrow> nat
    \<Rightarrow> byte list option \<times> link" where
  "link_recv stuck wave l n =
     (let l' = client_runs (length (incoming (lconn l))) wave l; bs = outbox (lconn l') in
      if bs = [] \<and> \<not> client_left wave l' then stuck l' n
      else (Some (take n bs), l'\<lparr>lconn := (lconn l')\<lparr>outbox := drop n bs\<rparr>\<rparr>))"

definition link_send :: "(byte list \<Rightarrow> int) \<Rightarrow> sample list \<Rightarrow> link \<Rightarrow> byte list \<Rightarrow> int \<times> link" where
  "link_send late wave l d =
     (if client_left wave l then (late d, l)
      else (int (length d), l\<lparr>lconn := (lconn l)\<lparr>inbox := inbox (lconn l) @ [d]\<rparr>\<rparr>))"

definition link_os :: "(byte list \<Rightarrow> int) \<Rightarrow> (link \<Rightarrow> nat \<Rightarrow> byte list option \<times> link) \<Rightarrow> sample list \<Rightarrow> link os" where
  "link_os late stuck wave = \<lparr>os_recv = link_recv stuck wave, os_send = link_send late wave\<rparr>"

definition link_new :: link where
  "link_new = \<lparr>lconn = \<lparr>inbox = [], outbox = []\<rparr>, lvars = (0, []), lfault = None\<rparr>"

section \<open>The states between the server's operations\<close>

text \<open>
  The client is at \<open>p\<close> in its wave, there are only results on their way to it, and \<open>sh\<close> is
  what it will have shown after them; or the client has left and everything it sent has
  arrived.
\<close>

definition is_result :: "message \<Rightarrow> bool" where
  "is_result m \<longleftrightarrow> message_ok m \<and> (case m of Request n \<Rightarrow> False | Output e bs \<Rightarrow> True)"

definition link_at :: "sample list \<Rightarrow> nat \<Rightarrow> shown list \<Rightarrow> link \<Rightarrow> bool" where
  "link_at wave p sh l \<longleftrightarrow> 4 * length wave < 2 ^ 31 \<and> p < length wave \<and> lfault l = None
     \<and> outbox (lconn l) = []
     \<and> (\<exists>ms sh0. list_all is_result ms \<and> incoming (lconn l) = concat (map message_bytes ms)
         \<and> lvars l = (int p, sh0) \<and> sh = sh0 @ concat (map message_shown ms))"

definition link_lost :: "sample list \<Rightarrow> shown list \<Rightarrow> link \<Rightarrow> bool" where
  "link_lost wave sh l \<longleftrightarrow> int (length wave) \<le> fst (lvars l) \<and> outbox (lconn l) = [] \<and> snd (lvars l) = sh"

definition link_todo :: "sample list \<Rightarrow> link \<Rightarrow> sample list" where
  "link_todo wave l = drop (nat (fst (lvars l))) wave"

lemma link_at_todo: "link_at wave p sh l \<Longrightarrow> link_todo wave l = drop p wave \<and> link_todo wave l \<noteq> []"
  by (auto simp: link_at_def link_todo_def)

lemma link_new_at: "4 * length wave < 2 ^ 31 \<Longrightarrow> wave \<noteq> [] \<Longrightarrow> link_at wave 0 [] link_new"
  by (auto simp: link_at_def link_new_def incoming_def intro: exI [of _ "[]"])

lemma message_bytes_not_Nil: "message_bytes m \<noteq> []"
  by (cases m) (auto simp: packet_def header_bytes_def le32_def)

lemma client_runs_turn:
  assumes m: "message_ok m" and wave: "4 * length wave < 2 ^ 31" "pos < length wave"
    and pos: "pos + message_size m < 2 ^ 31"
    and inc: "incoming (lconn l) = message_bytes m @ rest" and l: "lvars l = (int pos, sh)" "lfault l = None"
  shows "\<exists>c. client_runs (Suc n) wave l = client_runs n wave
      (l\<lparr>lconn := c, lvars := (int (pos + message_size m), sh @ message_shown m)\<rparr>)
    \<and> incoming c = rest \<and> outbox c = outbox (lconn l) @ message_chunk (drop pos wave) m"
proof -
  obtain c where c: "Client_turn conn_os wave (int pos, sh) (lconn l)
      = (Inr (int (pos + message_size m), sh @ message_shown m), c)"
    "incoming c = rest" "outbox c = outbox (lconn l) @ message_chunk (drop pos wave) m"
    using Client_turn_message [OF conn_os_ok conn_os_live conn_os_sends m wave(1) _ pos inc, of sh] wave(2)
    by auto
  have "\<not> client_left wave l" "incoming (lconn l) \<noteq> []"
    using wave(2) l inc message_bytes_not_Nil [of m] by (auto simp: client_left_def)
  with c l show ?thesis by auto
qed

lemma client_runs_results:
  "list_all is_result ms \<Longrightarrow> 4 * length wave < 2 ^ 31 \<Longrightarrow> pos < length wave \<Longrightarrow>
     incoming (lconn l) = concat (map message_bytes ms) @ rest \<Longrightarrow> lvars l = (int pos, sh) \<Longrightarrow>
     lfault l = None \<Longrightarrow>
     \<exists>c. client_runs (length ms + n) wave l = client_runs n wave
         (l\<lparr>lconn := c, lvars := (int pos, sh @ concat (map message_shown ms))\<rparr>)
       \<and> incoming c = rest \<and> outbox c = outbox (lconn l)"
proof (induction ms arbitrary: l sh)
  case Nil
  then show ?case by (cases l) (auto intro!: exI [of _ "lconn l"])
next
  case (Cons m ms)
  have m: "message_ok m" "message_size m = 0" "message_chunk w m = []" for w
    using Cons.prems(1) by (auto simp: is_result_def split: message.splits)
  have inc: "incoming (lconn l) = message_bytes m @ (concat (map message_bytes ms) @ rest)"
    using Cons.prems(4) by simp
  have "pos + message_size m < 2 ^ 31" using m(2) Cons.prems(2,3) by simp
  from client_runs_turn [OF m(1) Cons.prems(2,3) this inc Cons.prems(5,6), of "length ms + n"] m(2,3)
  obtain c where c: "client_runs (Suc (length ms + n)) wave l = client_runs (length ms + n) wave
      (l\<lparr>lconn := c, lvars := (int pos, sh @ message_shown m)\<rparr>)"
    "incoming c = concat (map message_bytes ms) @ rest" "outbox c = outbox (lconn l)"
    by auto
  from Cons.IH [of "l\<lparr>lconn := c, lvars := (int pos, sh @ message_shown m)\<rparr>" "sh @ message_shown m"]
    Cons.prems(1-3,6) c show ?case by simp
qed

section \<open>One read over the link\<close>

lemma header_bytes_not_Nil [simp]: "header_bytes h \<noteq> []"
  by (metis length_header_bytes list.size(3) zero_neq_numeral)

lemma Receive_at_once:
  assumes "os_recv os s (nat len) = (Some bs, t)" and "int (length bs) = len" and "0 < len" and "len \<le> int cap"
  shows "Receive os cap len s = (Inr bs, t)"
  using assms by (auto simp: Receive_def Receive_loop.simps [of os cap len "[]" s]
      Receive_loop.simps [of os cap len bs t])

lemma Receive_nothing: "Receive os cap 0 s = (Inr [], s)"
  by (simp add: Receive_def Receive_loop.simps)

lemma link_recv_ready:
  assumes "incoming (lconn l) = []" and "outbox (lconn l) \<noteq> []"
  shows "link_recv stuck wave l n = (Some (take n (outbox (lconn l))),
    l\<lparr>lconn := (lconn l)\<lparr>outbox := drop n (outbox (lconn l))\<rparr>\<rparr>)"
  using assms by (simp add: link_recv_def Let_def)

lemma Receive_ready:
  assumes "incoming (lconn l) = []" and "outbox (lconn l) = bs @ rest" and "int (length bs) = len" and "len \<le> int cap"
  shows "Receive (link_os late stuck wave) cap len l = (Inr bs, l\<lparr>lconn := (lconn l)\<lparr>outbox := rest\<rparr>\<rparr>)"
proof (cases "bs = []")
  case True
  then show ?thesis using assms Receive_nothing by (cases l; cases "lconn l") auto
next
  case False
  have "nat len = length bs" using assms(3) by linarith
  then have recv: "os_recv (link_os late stuck wave) l (nat len) = (Some bs, l\<lparr>lconn := (lconn l)\<lparr>outbox := rest\<rparr>\<rparr>)"
    using assms(1,2) False link_recv_ready [of l stuck wave "nat len"] by (simp add: link_os_def)
  have "0 < len" using False assms(3) by (cases bs) auto
  from Receive_at_once [OF recv assms(3) this assms(4)] show ?thesis .
qed

lemma Send_link:
  assumes "\<not> client_left wave l" and "n = int (length d)"
  shows "Send (link_os late stuck wave) d n l
    = (Inr (), l\<lparr>lconn := (lconn l)\<lparr>inbox := inbox (lconn l) @ [d]\<rparr>\<rparr>)"
  using assms by (simp add: Send_def link_os_def link_send_def)

lemma SendPacket_link:
  assumes "\<not> client_left wave l" and "length pl < 2 ^ 31" and "len = word_of_nat (length pl)"
  shows "\<exists>c. SendPacket (link_os late stuck wave) ty len pl l = (Inr (), l\<lparr>lconn := c\<rparr>)
    \<and> incoming c = incoming (lconn l) @ packet ty pl \<and> outbox c = outbox (lconn l)"
proof -
  let ?h = "header_bytes \<lparr>payload_length = len, packet_type = type_code ty\<rparr>"
  let ?l = "l\<lparr>lconn := (lconn l)\<lparr>inbox := inbox (lconn l) @ [?h]\<rparr>\<rparr>"
  have 1: "Send (link_os late stuck wave) ?h 8 l = (Inr (), ?l)" by (rule Send_link) (use assms(1) in simp_all)
  have "\<not> client_left wave ?l" using assms(1) by (simp add: client_left_def)
  then have 2: "Send (link_os late stuck wave) pl (sint len) ?l
      = (Inr (), ?l\<lparr>lconn := (lconn ?l)\<lparr>inbox := inbox (lconn ?l) @ [pl]\<rparr>\<rparr>)"
    using assms(2,3) sint_small_length [of pl] by (intro Send_link) simp_all
  show ?thesis using 1 2 assms(3)
    by (intro exI [of _ "(lconn l)\<lparr>inbox := inbox (lconn l) @ [?h] @ [pl]\<rparr>"])
      (simp add: SendPacket_def andthen_Inr incoming_def packet_def)
qed

lemma incoming_enough: "length ms \<le> length (concat (map message_bytes ms))"
proof (induction ms)
  case (Cons m ms)
  have "0 < length (message_bytes m)" using message_bytes_not_Nil [of m] by simp
  with Cons show ?case by (simp del: length_greater_0_conv)
qed simp

text \<open>The client gets through what has been sent to it and answers the request.\<close>

lemma client_answers:
  assumes "link_at wave p sh l" and "n \<le> 2 ^ 30"
    and "incoming c = incoming (lconn l) @ message_bytes (Request n)" and "outbox c = []"
  shows "\<exists>c'. client_runs (length (incoming c)) wave (l\<lparr>lconn := c\<rparr>)
      = l\<lparr>lconn := c', lvars := (int (p + n), sh)\<rparr>
    \<and> incoming c' = [] \<and> outbox c' = packet DATA_WAVE (float_bytes (take n (drop p wave)))"
proof -
  obtain ms sh0 where l: "4 * length wave < 2 ^ 31" "p < length wave" "lfault l = None"
    "list_all is_result ms" "incoming (lconn l) = concat (map message_bytes ms)"
    "lvars l = (int p, sh0)" "sh = sh0 @ concat (map message_shown ms)"
    using assms(1) unfolding link_at_def by blast
  have inc: "incoming c = concat (map message_bytes ms) @ message_bytes (Request n)"
    using assms(3) l(5) by simp
  have "length ms + 1 \<le> length (incoming c)"
    using incoming_enough [of "ms @ [Request n]"] inc by (simp del: message_bytes.simps)
  then obtain f where f: "length (incoming c) = length ms + Suc f"
    by (metis Suc_eq_plus1 add.assoc add.commute le_iff_add)
  obtain c1 where c1: "client_runs (length ms + Suc f) wave (l\<lparr>lconn := c\<rparr>)
      = client_runs (Suc f) wave (l\<lparr>lconn := c1, lvars := (int p, sh)\<rparr>)"
    "incoming c1 = message_bytes (Request n)" "outbox c1 = []"
    using client_runs_results [OF l(4,1,2), of "l\<lparr>lconn := c\<rparr>" "message_bytes (Request n)" sh0 "Suc f"]
      inc l(3,6,7) assms(4) by auto
  let ?l1 = "l\<lparr>lconn := c1, lvars := (int p, sh)\<rparr>"
  have "message_ok (Request n)" "p + message_size (Request n) < 2 ^ 31"
    using assms(2) l(1,2) by simp_all
  from client_runs_turn [OF this(1) l(1,2) this(2), of ?l1 "[]" sh f] c1(2,3) l(3)
  obtain c2 where "client_runs (Suc f) wave ?l1
      = client_runs f wave (?l1\<lparr>lconn := c2, lvars := (int (p + n), sh)\<rparr>)"
    "incoming c2 = []" "outbox c2 = packet DATA_WAVE (float_bytes (take n (drop p wave)))"
    by auto
  moreover have "client_runs f wave x = x" if "incoming (lconn x) = []" for x
    using that by (cases f) simp_all
  ultimately show ?thesis using c1(1) by (auto simp: f simp del: client_runs.simps)
qed

lemma RemoteRead_link:
  assumes "link_at wave p sh l" and "length data \<le> 2 ^ 30"
  shows "\<exists>c. RemoteRead (link_os late stuck wave) data l =
      (Inr (int (min (length wave - p) (length data)), take (length data) (drop p wave) @ drop (length wave - p) data),
        l\<lparr>lconn := c, lvars := (int (p + length data), sh)\<rparr>)
    \<and> incoming c = [] \<and> outbox c = []"
proof -
  let ?os = "link_os late stuck wave" and ?n = "length data"
  let ?r = "wave_request_bytes \<lparr>num_samples = word_of_nat ?n, sample_size = 4\<rparr>"
  define ws where "ws = take ?n (drop p wave)"
  have l: "\<not> client_left wave l" "outbox (lconn l) = []" "4 * length wave < 2 ^ 31"
    using assms(1) by (auto simp: link_at_def client_left_def)
  obtain c where c: "SendPacket ?os DATA_WAVE_REQUEST 8 ?r l = (Inr (), l\<lparr>lconn := c\<rparr>)"
    "incoming c = incoming (lconn l) @ message_bytes (Request ?n)" "outbox c = []"
    using SendPacket_link [OF l(1), of ?r 8 late stuck DATA_WAVE_REQUEST] l(2) by auto
  obtain c1 where c1: "client_runs (length (incoming c)) wave (l\<lparr>lconn := c\<rparr>)
      = l\<lparr>lconn := c1, lvars := (int (p + ?n), sh)\<rparr>"
    "incoming c1 = []" "outbox c1 = packet DATA_WAVE (float_bytes ws)"
    using client_answers [OF assms c(2,3)] unfolding ws_def by blast
  let ?l1 = "l\<lparr>lconn := c1, lvars := (int (p + ?n), sh)\<rparr>"
  let ?h = "\<lparr>payload_length = word_of_nat (length (float_bytes ws)), packet_type = type_code DATA_WAVE\<rparr>"
  let ?l2 = "?l1\<lparr>lconn := c1\<lparr>outbox := float_bytes ws\<rparr>\<rparr>"
  have "outbox c1 = header_bytes ?h @ float_bytes ws" using c1(3) by (simp add: packet_def)
  then have "os_recv ?os (l\<lparr>lconn := c\<rparr>) (nat 8) = (Some (header_bytes ?h), ?l2)"
    using c1(1) by (simp add: link_os_def link_recv_def Let_def)
  then have h: "ReceiveHeader ?os (l\<lparr>lconn := c\<rparr>) = (Inr ?h, ?l2)"
    by (simp add: ReceiveHeader_def andthen_Inr [OF Receive_at_once])
  have ws: "length ws = min (length wave - p) ?n" "4 * length ws < 2 ^ 31"
    using l(3) by (auto simp: ws_def)
  have len: "sint (payload_length ?h) = int (4 * length ws)"
    using sint_small_length [of "float_bytes ws"] ws(2) by simp
  have b: "Receive ?os (4 * ?n) (int (4 * length ws)) ?l2
      = (Inr (float_bytes ws), ?l2\<lparr>lconn := (lconn ?l2)\<lparr>outbox := []\<rparr>\<rparr>)"
    using c1(2) ws(1) by (intro Receive_ready) (simp_all add: incoming_def)
  have n: "sint (word_of_int ((int (4 * length ws) mod 2 ^ 64) div 4) :: cint) = int (length ws)"
    using sint_small_length [of ws] ws(2) by simp
  have d: "floats_of (float_bytes ws @ drop (4 * length ws) (float_bytes data))
      = ws @ drop (length ws) data"
    by (simp add: drop_float_bytes float_bytes_simps(3) [symmetric] del: float_bytes_simps(3))
  have "drop (length ws) data = drop (length wave - p) data"
    using ws(1) by (simp add: min_def)
  then show ?thesis
    using c(1) h b n d len c1(2) ws(1)
    by (intro exI [of _ "c1\<lparr>outbox := []\<rparr>"])
      (simp add: RemoteRead_def andthen_Inr Let_def incoming_def ws_def [symmetric])
qed

lemma link_step:
  assumes "link_at wave p sh l" and "incoming c = []" and "outbox c = []"
    and "t = l\<lparr>lconn := c, lvars := (int (p + n), sh)\<rparr>"
  shows "if p + n < length wave then link_at wave (p + n) sh t else link_lost wave sh t"
  using assms by (auto simp: link_at_def link_lost_def client_left_def intro: exI [of _ "[]"])

section \<open>A client that has left\<close>

lemma client_runs_left: "client_left wave l \<Longrightarrow> client_runs n wave l = l"
  by (cases n) simp_all

lemma SendPacket_lost:
  assumes "client_left wave l" and "length pl < 2 ^ 31"
  shows "SendPacket (link_os late stuck wave) ty (word_of_nat (length pl)) pl l \<in> {(Inl (Exit 1), l), (Inr (), l)}"
  using assms(1) sint_small_length [OF assms(2)]
  by (auto simp: SendPacket_def andthen_def Send_def link_os_def link_send_def)

lemma Receive_lost:
  assumes "link_lost wave sh l" and "0 < len"
  shows "Receive (link_os late stuck wave) cap len l = (Inl (Exit 1), l)"
  using assms
  by (simp add: Receive_def Receive_loop.simps link_os_def link_recv_def Let_def link_lost_def client_left_def client_runs_left)

lemma RemoteRead_lost:
  assumes "link_lost wave sh l"
  shows "RemoteRead (link_os late stuck wave) data l = (Inl (Exit 1), l)"
proof -
  let ?r = "wave_request_bytes \<lparr>num_samples = word_of_nat (length data), sample_size = 4\<rparr>"
  have "client_left wave l" using assms by (simp add: link_lost_def client_left_def)
  from SendPacket_lost [OF this, of ?r late stuck DATA_WAVE_REQUEST]
  have "SendPacket (link_os late stuck wave) DATA_WAVE_REQUEST 8 ?r l \<in> {(Inl (Exit 1), l), (Inr (), l)}"
    by simp
  then show ?thesis
    using Receive_lost [OF assms, of 8 late stuck 8]
    by (auto simp: RemoteRead_def ReceiveHeader_def andthen_def)
qed

section \<open>The interface\<close>

text \<open>\<open>RemoteAudioSource\<close> on the link is a source that ends and then breaks with \<open>exit(1)\<close>.\<close>

interpretation link: ending_source "rd (socket_vad_env (link_os late stuck wave) K)" "link_todo wave"
    "\<lambda>l. \<exists>p. link_at wave p sh l" "link_lost wave sh" "Exit 1" "2 ^ 30"
  for late stuck wave K sh
proof
  fix l :: link and data :: "sample list" and k
  assume "\<exists>p. link_at wave p sh l" and len: "length data \<le> 2 ^ 30"
    and k: "k = min (length (link_todo wave l)) (length data)"
  then obtain p where l: "link_at wave p sh l" by blast
  note todo = conjunct1 [OF link_at_todo [OF l]]
  obtain c where c: "RemoteRead (link_os late stuck wave) data l =
      (Inr (int (min (length wave - p) (length data)), take (length data) (drop p wave) @ drop (length wave - p) data),
        l\<lparr>lconn := c, lvars := (int (p + length data), sh)\<rparr>)" "incoming c = []" "outbox c = []"
    using RemoteRead_link [OF l len, of late stuck] by blast
  define t where "t = l\<lparr>lconn := c, lvars := (int (p + length data), sh)\<rparr>"
  have "rd (socket_vad_env (link_os late stuck wave) K) data l
      = (Inr (k, take (length data) (drop p wave) @ drop (length wave - p) data), t)"
    using c(1) k by (simp add: socket_vad_env_def andthen_Inr todo t_def)
  moreover have "link_todo wave t = drop k (link_todo wave l)"
    unfolding todo k by (auto simp: link_todo_def t_def nat_add_distrib min_def add.commute)
  moreover have "(\<exists>p. link_at wave p sh t) \<or> link_lost wave sh t \<and> length (link_todo wave l) \<le> length data"
    using link_step [OF l c(2,3) t_def] unfolding todo by (auto split: if_splits)
  ultimately show "\<exists>data' t. rd (socket_vad_env (link_os late stuck wave) K) data l = (Inr (k, data'), t)
      \<and> take k data' = take k (link_todo wave l) \<and> length data' = length data
      \<and> link_todo wave t = drop k (link_todo wave l)
      \<and> ((\<exists>p. link_at wave p sh t) \<or> link_lost wave sh t \<and> length (link_todo wave l) \<le> length data)"
    unfolding todo k
    by (intro exI [of _ "take (length data) (drop p wave) @ drop (length wave - p) data"] exI [of _ t])
      (auto simp: min_def)
next
  fix l :: link and data :: "sample list"
  assume "link_lost wave sh l"
  from RemoteRead_lost [OF this, of late stuck data]
  show "\<exists>t. rd (socket_vad_env (link_os late stuck wave) K) data l = (Inl (Exit 1), t)"
    by (simp add: socket_vad_env_def andthen_Inl)
qed

text \<open>The results that the server sends in between do not disturb it, and the client shows them.\<close>

lemma SendOutput_link:
  assumes "link_at wave p sh l" and "length str < output_size"
  shows "\<exists>t. SendOutput (link_os late stuck wave) e str l = (Inr (), t)
    \<and> link_at wave p (sh @ message_shown (Output e (str_bytes str))) t"
proof -
  let ?os = "link_os late stuck wave" and ?m = "Output e (str_bytes str)"
  let ?h = "header_bytes \<lparr>payload_length = word_of_nat (1 + length str), packet_type = type_code DECODE_OUTPUT\<rparr>"
  define sent where "sent = (\<lambda>d (l :: link). l\<lparr>lconn := (lconn l)\<lparr>inbox := inbox (lconn l) @ [d]\<rparr>\<rparr>)"
  have left: "client_left wave (sent d x) = client_left wave x" for d x
    by (simp add: sent_def client_left_def)
  have send: "Send ?os d n x = (Inr (), sent d x)" if "\<not> client_left wave x" "n = int (length d)" for d n x
    using Send_link [OF that] by (simp add: sent_def)
  have l: "\<not> client_left wave l" using assms(1) by (auto simp: link_at_def client_left_def)
  have len: "sint (word_of_nat (length str) :: cint) = int (length str)"
    by (rule sint_small_length) (use assms(2) in \<open>simp add: output_size_def\<close>)
  let ?t = "sent (str_bytes str) (sent [bool_byte e] (sent ?h l))"
  have "SendOutput ?os e str l = (Inr (), ?t)"
    using l len by (simp add: SendOutput_def andthen_def send left)
  moreover obtain ms sh0 where ms: "4 * length wave < 2 ^ 31" "p < length wave" "lfault l = None"
    "outbox (lconn l) = []" "list_all is_result ms" "incoming (lconn l) = concat (map message_bytes ms)"
    "lvars l = (int p, sh0)" "sh = sh0 @ concat (map message_shown ms)"
    using assms(1) unfolding link_at_def by blast
  have "incoming (lconn ?t) = concat (map message_bytes (ms @ [?m]))"
    using ms(6) by (simp add: sent_def incoming_def packet_def)
  then have "link_at wave p (sh @ message_shown ?m) ?t"
    using ms assms(2) unfolding link_at_def
    by (intro conjI exI [of _ "ms @ [?m]"] exI [of _ sh0])
      (simp_all add: sent_def is_result_def del: message_shown.simps message_bytes.simps)
  ultimately show ?thesis by blast
qed

section \<open>What the input hears\<close>

text \<open>
  The queue is filled with the samples from \<open>a\<close> on, the client goes on with those that follow
  it, or has left behind them; \<open>sh\<close> is what it shows.
\<close>

definition hears :: "sample list \<Rightarrow> nat \<Rightarrow> shown list \<Rightarrow> (sample, simple_vad) vad_input \<Rightarrow> link \<Rightarrow> bool" where
  "hears wave a sh st l \<longleftrightarrow> buffer_init st \<and> nVadListeners st = 1 \<and> queue_at (link_todo wave) (drop a wave) st l
     \<and> ((\<exists>p. link_at wave p sh l) \<or> link_lost wave sh l)"

text \<open>
  The outcome of a call for \<open>nvec\<close> vectors, when \<open>n\<close> full requests are left behind the queue and
  the gate of \<open>Gating\<close> (\<open>energy_vad\<close> on the windows of each request) skips the next \<open>j\<close>: more
  data, with the features of the batch behind the skipped requests and the queue moved on; no
  more data; or the server ends. The last two only when none of the \<open>n\<close> passes.
\<close>

definition energy_vad :: "kaldi_env \<Rightarrow> simple_vad \<Rightarrow> sample list \<Rightarrow> bool \<times> simple_vad" where
  "energy_vad K v w = Process v (map (float_value K) w)"

definition call_outcome :: "kaldi_env \<Rightarrow> sample list \<Rightarrow> nat \<Rightarrow> shown list \<Rightarrow> nat \<Rightarrow> (sample, simple_vad) vad_input
    \<Rightarrow> fault + bool \<times> (sample, simple_vad) vad_input \<times> vec list option \<times> vad_event list \<Rightarrow> link \<Rightarrow> bool" where
  "call_outcome K wave a sh nvec st r t \<longleftrightarrow>
     (let batch = frame_size st + (nvec - 1) * frame_shift st; req = nvec * frame_shift st;
          L = buffer_length st; rest = length wave - (a + L); n = rest div req;
          j = skipped (gated (energy_vad K) (extract_windows K) req L (gate_of st) (Suc n) (drop a wave)) in
      case r of
        Inl e \<Rightarrow> e = Exit 1 \<and> req dvd rest \<and> n \<le> j
      | Inr (more_data, st', out, ev) \<Rightarrow>
          if more_data then same_queue st st' \<and> j < n \<and> hears wave (a + Suc j * req) sh st' t
            \<and> gate_of st' = gate_after (energy_vad K) (extract_windows K) req L (gate_of st) (Suc j) (drop a wave)
            \<and> out = Some (mfcc_rows K (take batch (drop (a + j * req) wave)))
          else \<not> req dvd rest \<and> n \<le> j)"

lemma socket_vad_env_simps [simp]: "extract_feats (socket_vad_env os K) = mfcc_rows K"
  "vad_timeout (socket_vad_env os K) = None" "windows_of (socket_vad_env os K) = extract_windows K"
  "vad_proc (socket_vad_env os K) = energy_vad K"
  by (simp_all add: socket_vad_env_def energy_vad_def fun_eq_iff)

lemma loop_outcome_lost:
  assumes "hears wave a sh st l" and "link_lost wave sh l" and "0 < fuel"
  shows "\<exists>t. vad_loop fuel (socket_vad_env (link_os late stuck wave) K) batch req (st, None, []) l
      = Some (Inl (Exit 1), t) \<and> call_outcome K wave a sh nvec st (Inl (Exit 1)) t"
proof -
  let ?E = "socket_vad_env (link_os late stuck wave) K"
  obtain f where f: "fuel = Suc f" using assms(3) by (cases fuel) auto
  obtain t where t: "vad_turn ?E batch req (st, None, []) l = (Inl (Exit 1), t)"
    using link.vad_turn_lost [where E = ?E and late = late and stuck = stuck and K = K, OF refl assms(2)]
    by blast
  have "link_todo wave l = drop (a + buffer_length st) wave"
    using assms(1) by (simp add: hears_def queue_at_def add.commute)
  moreover have "length wave \<le> nat (fst (lvars l))" using assms(2) unfolding link_lost_def by linarith
  then have "link_todo wave l = []" by (simp add: link_todo_def)
  ultimately have "length wave \<le> a + buffer_length st" by simp
  then show ?thesis using t by (simp add: call_outcome_def f)
qed

lemma call_outcome_same:
  assumes "same_queue st st1" and "gate_of st = gate_of st1"
  shows "call_outcome K wave a sh nvec st r t \<longleftrightarrow> call_outcome K wave a sh nvec st1 r t"
proof -
  have eq: "same_queue st = same_queue st1" using assms(1) by (auto simp: fun_eq_iff same_queue_def)
  have "frame_size st1 = frame_size st" "frame_shift st1 = frame_shift st" "buffer_length st1 = buffer_length st"
    using assms(1) by (simp_all add: same_queue_def)
  then show ?thesis by (simp only: call_outcome_def eq assms(2))
qed

text \<open>The two ways in which the loop returns.\<close>

lemma call_outcome_more:
  assumes "hears wave a sh st l" and "same_queue st st'"
    and gr: "gated_return (socket_vad_env os K) (link_todo wave) (frame_size st + (nvec - 1) * frame_shift st)
      (nvec * frame_shift st) (drop a wave) st ((length wave - (a + buffer_length st)) div (nvec * frame_shift st))
      None True st' out t"
    and "(\<exists>p. link_at wave p sh t) \<or> link_lost wave sh t"
  shows "call_outcome K wave a sh nvec st (Inr (True, st', out, ev)) t"
proof -
  let ?req = "nvec * frame_shift st"
  define j where "j = skipped (gated (energy_vad K) (extract_windows K) ?req (buffer_length st) (gate_of st)
    (Suc ((length wave - (a + buffer_length st)) div ?req)) (drop a wave))"
  have "j < (length wave - (a + buffer_length st)) div ?req
      \<and> batch_returned (socket_vad_env os K) (link_todo wave) (frame_size st + (nvec - 1) * frame_shift st)
        ?req (drop a wave) j st' out t
      \<and> gate_of st' = gate_after (energy_vad K) (extract_windows K) ?req (buffer_length st) (gate_of st) (Suc j)
        (drop a wave)"
    using gr unfolding gated_return_def Let_def socket_vad_env_simps j_def by simp
  moreover from this have "hears wave (a + Suc j * ?req) sh st' t \<and> out = Some (mfcc_rows K
      (take (frame_size st + (nvec - 1) * frame_shift st) (drop (a + j * ?req) wave)))"
    using assms(1,2,4) by (simp add: hears_def batch_returned_def same_queue_def add.commute [of a])
  ultimately show ?thesis using assms(2)
    unfolding call_outcome_def Let_def sum.case prod.case if_True j_def [symmetric] by blast
qed

lemma call_outcome_end:
  assumes "link_at wave p sh u"
    and "length (link_todo wave u) = (length wave - (a + buffer_length st)) mod (nvec * frame_shift st)"
    and gr: "gated_return (socket_vad_env os K) (link_todo wave) (frame_size st + (nvec - 1) * frame_shift st)
      (nvec * frame_shift st) (drop a wave) st ((length wave - (a + buffer_length st)) div (nvec * frame_shift st))
      None False st' out t"
  shows "call_outcome K wave a sh nvec st (Inr (False, st', out, ev)) t"
proof -
  have "length (link_todo wave u) \<noteq> 0" using link_at_todo [OF assms(1)] by (metis length_0_conv)
  then show ?thesis using assms(2) gr
    by (simp add: call_outcome_def gated_return_def Let_def dvd_eq_mod_eq_0)
qed

lemma loop_outcome:
  assumes h: "hears wave a sh st l" and n: "0 < nvec" "0 < frame_shift st" "frame_shift st \<le> frame_size st"
    "frame_size st + (nvec - 1) * frame_shift st \<le> buffer_length st" "buffer_length st \<le> 2 ^ 30"
    and fuel: "length wave < fuel"
  shows "\<exists>r t. vad_loop fuel (socket_vad_env (link_os late stuck wave) K)
      (frame_size st + (nvec - 1) * frame_shift st) (nvec * frame_shift st) (st, None, []) l = Some (r, t)
    \<and> call_outcome K wave a sh nvec st r t"
proof (cases "link_lost wave sh l")
  case True
  then show ?thesis using loop_outcome_lost [OF h True, of fuel] fuel by blast
next
  case False
  let ?E = "socket_vad_env (link_os late stuck wave) K"
  let ?batch = "frame_size st + (nvec - 1) * frame_shift st" and ?req = "nvec * frame_shift st"
  let ?rest = "length wave - (a + buffer_length st)"
  have q: "queue_at (link_todo wave) (drop a wave) st l" and live: "\<exists>p. link_at wave p sh l"
    and one: "nVadListeners st = 1"
    using h False by (simp_all add: hears_def)
  have rest: "length (link_todo wave l) = ?rest"
    using q by (simp add: queue_at_def add.commute)
  note sizes = vad_sizes(2,3) [OF n(1-4)]
  have lim: "?req \<le> 2 ^ 30" using sizes(1) n(5) by linarith
  have len: "length (link_todo wave l) < fuel" using fuel rest by simp
  obtain r t where r: "vad_loop fuel ?E ?batch ?req (st, None, []) l = Some (r, t)"
    and outcome: "case r of
        Inl e \<Rightarrow> e = Exit 1 \<and> (\<exists>u. link_lost wave sh u) \<and> ?rest mod ?req = 0
          \<and> ?rest div ?req \<le> skipped (gated (vad_proc ?E) (windows_of ?E) ?req (buffer_length st)
                (gate_of st) (Suc (?rest div ?req)) (drop a wave))
      | Inr (b, st', out', ev') \<Rightarrow>
          (if b then (\<exists>p. link_at wave p sh t) \<or> link_lost wave sh t \<and> ?rest mod ?req = 0
           else \<exists>u. (\<exists>p. link_at wave p sh u) \<and> length (link_todo wave u) = ?rest mod ?req)
          \<and> gated_return ?E (link_todo wave) ?batch ?req (drop a wave) st (?rest div ?req) None b st' out' t"
    using link.vad_loop_queue [where E = ?E and late = late and stuck = stuck and K = K,
        OF refl _ live q sizes(1) lim one n(4) sizes(2) len, of None "[]"] unfolding rest by (simp, blast)
  have "call_outcome K wave a sh nvec st r t"
  proof (cases r)
    case (Inl e)
    then show ?thesis using outcome by (simp add: call_outcome_def Let_def dvd_eq_mod_eq_0)
  next
    case (Inr x)
    obtain b st' out ev where x: "x = (b, st', out, ev)" by (rule prod_cases4)
    have same: "same_queue st st'" using r Inr x by (auto intro: vad_loop_same)
    show ?thesis
    proof (cases b)
      case True
      then have alive: "(\<exists>p. link_at wave p sh t) \<or> link_lost wave sh t"
        and "gated_return ?E (link_todo wave) ?batch ?req (drop a wave) st (?rest div ?req) None True st' out t"
        using outcome unfolding Inr x by auto
      from call_outcome_more [OF h same this(2) alive] True show ?thesis unfolding Inr x by simp
    next
      case False
      then obtain u p where "link_at wave p sh u" "length (link_todo wave u) = ?rest mod ?req"
        "gated_return ?E (link_todo wave) ?batch ?req (drop a wave) st (?rest div ?req) None False st' out t"
        using outcome unfolding Inr x by auto
      from call_outcome_end [OF this] False show ?thesis unfolding Inr x by simp
    qed
  qed
  with r show ?thesis by blast
qed

text \<open>The first call: the queue is filled from the client.\<close>

abbreviation online_input :: "simple_vad \<Rightarrow> (sample, simple_vad) vad_input" where
  "online_input v \<equiv> AddVadListener (OnlineVadFeInput_new frame_length_samples frame_shift_samples vad_buffer_samples v)"

definition queue_samples :: "nat \<Rightarrow> nat" where
  "queue_samples nvec = vad_buffer_samples + (frame_length_samples + (nvec - 1) * frame_shift_samples)"

lemma first_call_fills:
  assumes n: "0 < nvec" "nvec \<le> 2 ^ 20" and wave: "4 * length wave < 2 ^ 31" "wave \<noteq> []"
    and E: "E = socket_vad_env (link_os late stuck wave) K"
  shows "\<exists>data t. VadInput_Compute fuel E junk nvec (online_input v) link_new = vad_loop fuel E
      (frame_length_samples + (nvec - 1) * frame_shift_samples) (nvec * frame_shift_samples)
      ((online_input v)\<lparr>buffer_length := queue_samples nvec, buffer := data, buffer_init := True\<rparr>, None, []) t
    \<and> (if length wave \<le> queue_samples nvec then link_lost wave [] t
       else hears wave 0 [] ((online_input v)\<lparr>buffer_length := queue_samples nvec, buffer := data,
         buffer_init := True\<rparr>) t)"
proof -
  let ?L = "queue_samples nvec"
  let ?junk = "replicate ?L junk" and ?st = "online_input v"
  note input_defs = AddVadListener_def OnlineVadFeInput_new_def queue_samples_def
  have L: "?L \<le> 2 ^ 30" using n(2) by (simp add: queue_samples_def online_constants)
  have shift: "0 < frame_shift_samples" "frame_shift_samples \<le> frame_length_samples" by (simp_all add: online_constants)
  have start: "\<exists>p. link_at wave p [] link_new" using link_new_at [OF wave] by blast
  have todo: "link_todo wave link_new = wave" by (simp add: link_todo_def link_new_def)
  obtain data t where r: "rd E ?junk link_new = (Inr (min (length wave) ?L, data), t)"
    "take (min (length wave) ?L) data = take (min (length wave) ?L) wave" "length data = ?L"
    "link_todo wave t = drop (min (length wave) ?L) wave"
    "(\<exists>p. link_at wave p [] t) \<or> link_lost wave [] t \<and> length wave \<le> ?L"
    using link.read_live [of wave "[]" link_new ?junk, OF start _ refl, of late stuck K] L
    unfolding length_replicate todo E by blast
  have "VadInput_Compute fuel E junk nvec ?st link_new = vad_loop fuel E
      (frame_length_samples + (nvec - 1) * frame_shift_samples) (nvec * frame_shift_samples)
      (?st\<lparr>buffer_length := ?L, buffer := data, buffer_init := True\<rparr>, None, []) t"
    using VadInput_Compute_first [where st = ?st and nvec = nvec and L = ?L, OF _ _ _ _ _ r(1)] n(1) shift
    by (simp add: input_defs E socket_vad_env_def)
  moreover have "link_lost wave [] t" if "length wave \<le> ?L"
    using r(4,5) link_at_todo that by fastforce
  moreover have "hears wave 0 [] (?st\<lparr>buffer_length := ?L, buffer := data, buffer_init := True\<rparr>) t"
    if "\<not> length wave \<le> ?L"
    using r(2-5) that unfolding hears_def queue_at_def input_defs by auto
  ultimately show ?thesis by auto
qed

lemma first_call_outcome:
  assumes n: "0 < nvec" "nvec \<le> 2 ^ 20" and wave: "4 * length wave < 2 ^ 31" and fuel: "length wave < fuel"
  shows "\<exists>r t. VadInput_Compute fuel (socket_vad_env (link_os late stuck wave) K) junk nvec (online_input v) link_new
      = Some (r, t) \<and>
    (if length wave \<le> queue_samples nvec then r = Inl (Exit 1)
     else call_outcome K wave 0 [] nvec ((online_input v)\<lparr>buffer_length := queue_samples nvec, buffer_init := True\<rparr>) r t)"
proof (cases "wave = []")
  case True
  then have "link_lost wave [] link_new" by (simp add: link_lost_def link_new_def)
  from link.read_lost [OF this, of late stuck K "replicate (queue_samples nvec) junk"] True n show ?thesis
    by (auto simp: VadInput_Compute_def vad_fill_def Let_def andthen_Inl AddVadListener_def
        OnlineVadFeInput_new_def queue_samples_def)
next
  case False
  let ?E = "socket_vad_env (link_os late stuck wave) K" and ?L = "queue_samples nvec"
  let ?batch = "frame_length_samples + (nvec - 1) * frame_shift_samples" and ?req = "nvec * frame_shift_samples"
  obtain data t where C: "VadInput_Compute fuel ?E junk nvec (online_input v) link_new = vad_loop fuel ?E ?batch ?req
      ((online_input v)\<lparr>buffer_length := ?L, buffer := data, buffer_init := True\<rparr>, None, []) t"
    and t: "if length wave \<le> ?L then link_lost wave [] t
      else hears wave 0 [] ((online_input v)\<lparr>buffer_length := ?L, buffer := data, buffer_init := True\<rparr>) t"
    using first_call_fills [OF n wave False refl] by blast
  define st1 where "st1 = (online_input v)\<lparr>buffer_length := ?L, buffer := data, buffer_init := True\<rparr>"
  note C = C [folded st1_def] and t = t [folded st1_def]
  have fields: "frame_size st1 = frame_length_samples" "frame_shift st1 = frame_shift_samples" "buffer_length st1 = ?L"
    "same_queue ((online_input v)\<lparr>buffer_length := ?L, buffer_init := True\<rparr>) st1"
    "gate_of ((online_input v)\<lparr>buffer_length := ?L, buffer_init := True\<rparr>) = gate_of st1"
    by (simp_all add: st1_def AddVadListener_def OnlineVadFeInput_new_def same_queue_def gate_of_def)
  show ?thesis
  proof (cases "length wave \<le> ?L")
    case True
    with t have "link_lost wave [] t" by simp
    from link.vad_turn_lost [where E = ?E and late = late and stuck = stuck and K = K, OF refl this]
    obtain u where "vad_turn ?E ?batch ?req (st1, None, []) t = (Inl (Exit 1), u)" by blast
    with C True fuel show ?thesis by (cases fuel) simp_all
  next
    case False
    then have h: "hears wave 0 [] st1 t" using t by simp
    have sizes: "0 < frame_shift st1" "frame_shift st1 \<le> frame_size st1"
      "frame_size st1 + (nvec - 1) * frame_shift st1 \<le> buffer_length st1" "buffer_length st1 \<le> 2 ^ 30"
      unfolding fields using n(2) by (simp_all add: queue_samples_def online_constants)
    from loop_outcome [OF h n(1) sizes fuel, of late stuck K, unfolded fields(1,2)]
      C False call_outcome_same [OF fields(4,5)] show ?thesis by auto
  qed
qed

lemma hears_result:
  assumes "hears wave a sh st l" and "\<not> link_lost wave sh l" and "length str < output_size"
  shows "\<exists>t. SendOutput (link_os late stuck wave) e str l = (Inr (), t)
    \<and> hears wave a (sh @ message_shown (Output e (str_bytes str))) st t"
proof -
  obtain p where p: "link_at wave p sh l" using assms(1,2) by (auto simp: hears_def)
  obtain t where t: "SendOutput (link_os late stuck wave) e str l = (Inr (), t)"
    "link_at wave p (sh @ message_shown (Output e (str_bytes str))) t"
    using SendOutput_link [OF p assms(3)] by blast
  have "link_todo wave t = link_todo wave l" using link_at_todo [OF p] link_at_todo [OF t(2)] by simp
  then have "queue_at (link_todo wave) (drop a wave) st t"
    using assms(1) unfolding hears_def queue_at_def by metis
  with assms(1) t show ?thesis unfolding hears_def by blast
qed

text \<open>
  C6. The server's audio input and the client program, connected by the network: with the queue
  holding the samples from \<open>a\<close> on, a call for \<open>nvec\<close> feature vectors skips exactly the requests
  in which the energy detector hears no speech (fewer than three windows of ten, and the gate
  not open behind speech), returns the features of the batch at the front of the queue at the first
  request that passes, and leaves the queue and the gate as they are behind it, so that
  successive calls go on where the last one stopped; if none of the full requests left passes, it
  reports the end, when the wave does not end with a full request, or else the server
  process ends with status 1, for the client has left after the last full request. The result
  texts sent in between do not disturb the stream, and the client shows them.
\<close>

theorem online_input_hears_client:
  assumes "hears wave a sh st l" and "0 < nvec" and "0 < frame_shift st" and "frame_shift st \<le> frame_size st"
    and "frame_size st + (nvec - 1) * frame_shift st \<le> buffer_length st" and "buffer_length st \<le> 2 ^ 30"
    and "length wave < fuel"
  shows "(\<exists>r t. VadInput_Compute fuel (socket_vad_env (link_os late stuck wave) K) junk nvec st l = Some (r, t)
      \<and> call_outcome K wave a sh nvec st r t)
    \<and> (\<forall>e str. \<not> link_lost wave sh l \<and> length str < output_size \<longrightarrow>
      (\<exists>t. SendOutput (link_os late stuck wave) e str l = (Inr (), t)
        \<and> hears wave a (sh @ message_shown (Output e (str_bytes str))) st t))"
proof -
  have init: "buffer_init st" using assms(1) by (simp add: hears_def)
  note C = VadInput_Compute_filled [OF init assms(2-5),
      of fuel "socket_vad_env (link_os late stuck wave) K" junk l]
  from loop_outcome [OF assms, of late stuck K] hears_result [OF assms(1)] show ?thesis
    unfolding C by blast
qed

text \<open>
  C14. An online session with a wave that does not fill the queue (with the settings of
  \<open>OnlineDecode\<close>: at most 8400 samples and a frame shift for each further vector
  requested) ends the whole server process with status 1 at the first request for features: the
  client, whose position moves on by what was requested, leaves after its first packet,
  and the voice activity detector then waits for a second one. A longer wave is heard from its
  beginning.
\<close>

theorem short_wave_ends_server:
  assumes "0 < nvec" and "nvec \<le> 2 ^ 20" and "4 * length wave < 2 ^ 31" and "length wave < fuel"
    and "\<forall>n c. length (rows (junk_matrix K n c)) = n \<and> num_cols (junk_matrix K n c) = c"
  shows "(length wave \<le> queue_samples nvec \<longrightarrow>
      (\<exists>x. chain_compute fuel (link_os late stuck wave) K (length (rows T)) nvec
        (OnlineDecode_chain K T left_context right_context v link_new) = (Inl (Exit 1), x)))
    \<and> (queue_samples nvec < length wave \<longrightarrow>
      (\<exists>r t. VadInput_Compute fuel (socket_vad_env (link_os late stuck wave) K) junk nvec (online_input v) link_new
          = Some (r, t)
        \<and> call_outcome K wave 0 [] nvec
            ((online_input v)\<lparr>buffer_length := queue_samples nvec, buffer_init := True\<rparr>) r t))"
proof (intro conjI impI)
  assume "length wave \<le> queue_samples nvec"
  with first_call_outcome [OF assms(1-4), of late stuck K "junk_sample K" v] obtain t where
    "VadInput_Compute fuel (socket_vad_env (link_os late stuck wave) K) (junk_sample K) nvec (online_input v) link_new
      = Some (Inl (Exit 1), t)" by auto
  then show "\<exists>x. chain_compute fuel (link_os late stuck wave) K (length (rows T)) nvec
      (OnlineDecode_chain K T left_context right_context v link_new) = (Inl (Exit 1), x)"
    using assms(5) by (auto simp: chain_compute_def OnlineDecode_chain_def andthen_def LdaInput_Compute_def
        CmvnInput_Compute_def VadFeatures_def OnlineLdaInput_new_def intro: exI [of _ False])
next
  assume "queue_samples nvec < length wave"
  with first_call_outcome [OF assms(1-4), of late stuck K junk v]
  show "\<exists>r t. VadInput_Compute fuel (socket_vad_env (link_os late stuck wave) K) junk nvec (online_input v) link_new
      = Some (r, t) \<and> call_outcome K wave 0 [] nvec
        ((online_input v)\<lparr>buffer_length := queue_samples nvec, buffer_init := True\<rparr>) r t"
    by auto
qed

section \<open>Witnesses\<close>

text \<open>A wave of six samples, of which the queue holds three.\<close>

definition small_kaldi :: kaldi_env where
  "small_kaldi = \<lparr>mfcc_rows = map (\<lambda>w. [real (unat w)]), extract_windows = (\<lambda>w. []), float_value = (\<lambda>w. 0),
     num_ceps = 1, junk_matrix = (\<lambda>r c. \<lparr>num_cols = c, rows = replicate r []\<rparr>), junk_sample = 0,
     constant_rows = (\<lambda>rs. rs), score = (\<lambda>v i. 0), special_float = 0\<rparr>"

definition small_input :: "(sample, simple_vad) vad_input" where
  "small_input = \<lparr>frame_size = 2, frame_shift = 1, buffer_length = 3, buffer_init = True,
     buffer = [1, 2, 3], batchVad = True, hangoverCount = 0, nVadListeners = 1,
     vad = SimpleEnergyVad_new 9 3 5 0\<rparr>"

definition small_link :: link where
  "small_link = \<lparr>lconn = \<lparr>inbox = [], outbox = []\<rparr>, lvars = (3, []), lfault = None\<rparr>"

lemma small_hears: "hears [1, 2, 3, 4, 5, 6] 0 [] small_input small_link"
proof -
  have "link_at [1, 2, 3, 4, 5, 6] 3 [] small_link"
    by (auto simp: link_at_def small_link_def incoming_def intro: exI [of _ "[]"])
  then have "(\<exists>p. link_at [1, 2, 3, 4, 5, 6] p [] small_link) \<or> link_lost [1, 2, 3, 4, 5, 6] [] small_link"
    by blast
  then show ?thesis
    unfolding hears_def by (simp add: queue_at_def small_input_def link_todo_def small_link_def)
qed

theorem online_input_hears_client_witness:
  "\<exists>b st' out ev t. VadInput_Compute 7 (socket_vad_env (link_os (\<lambda>d. -1) (\<lambda>l n. (None, l)) [1, 2, 3, 4, 5, 6]) small_kaldi)
      0 2 small_input small_link = Some (Inr (b, st', out, ev), t)"
proof -
  let ?C = "VadInput_Compute 7 (socket_vad_env (link_os (\<lambda>d. -1) (\<lambda>l n. (None, l)) [1, 2, 3, 4, 5, 6]) small_kaldi)
      0 2 small_input small_link"
  have sizes: "0 < frame_shift small_input" "frame_shift small_input \<le> frame_size small_input"
    "frame_size small_input + (2 - 1) * frame_shift small_input \<le> buffer_length small_input"
    "buffer_length small_input \<le> 2 ^ 30"
    by (simp_all add: small_input_def)
  obtain r t where r: "?C = Some (r, t)" "call_outcome small_kaldi [1, 2, 3, 4, 5, 6] 0 [] 2 small_input r t"
    using online_input_hears_client [OF small_hears zero_less_numeral sizes, of 7
        "\<lambda>d. -1" "\<lambda>l n. (None, l)" small_kaldi 0] by auto
  have "\<nexists>e. r = Inl e" using r(2) by (auto simp: call_outcome_def small_input_def)
  then obtain b st' out ev where "r = Inr (b, st', out, ev)" by (metis prod.collapse sum.exhaust)
  with r(1) show ?thesis by blast
qed

theorem short_wave_ends_server_witness:
  "\<exists>x. chain_compute 4 (link_os (\<lambda>d. -1) (\<lambda>l n. (None, l)) [1, 2, 3]) small_kaldi (length (rows no_rows)) 27
      (OnlineDecode_chain small_kaldi no_rows 4 4 (SimpleEnergyVad_new 9 3 5 48) link_new) = (Inl (Exit 1), x)"
  using short_wave_ends_server [of 27 "[1, 2, 3]" 4 small_kaldi "\<lambda>d. -1" "\<lambda>l n. (None, l)" no_rows 4 4
      "SimpleEnergyVad_new 9 3 5 48"]
  by (auto simp: small_kaldi_def queue_samples_def online_constants)

end
