(* ===== verification/OnlineFeatures.thy ===== *)
theory OnlineFeatures
  imports ClientLink DecodeWorker
begin

text \<open>
  The whole path of the audio in an online session: from the wave file of the client program over
  the network, the voice activity detector, the feature extractor, the normalisation and the LDA
  to the feature vectors that the decodable asks for.
\<close>

section \<open>The specification\<close>

text \<open>
  The numbers of the requests, counted from position \<open>a\<close> of the wave, that a queue of \<open>L\<close>
  samples with the gate \<open>g\<close> lets through before the wave ends; and those of a session, which
  starts with the gate closed.
\<close>

definition heard_requests :: "kaldi_env \<Rightarrow> nat \<Rightarrow> nat \<Rightarrow> simple_vad gate \<Rightarrow> sample list \<Rightarrow> nat \<Rightarrow> nat list" where
  "heard_requests K req L g wave a =
     trues (gated (energy_vad K) (extract_windows K) req L g ((length wave - (a + L)) div req) (drop a wave))"

definition speech_requests :: "kaldi_env \<Rightarrow> simple_vad \<Rightarrow> nat \<Rightarrow> sample list \<Rightarrow> nat list" where
  "speech_requests K v nvec wave =
     heard_requests K (nvec * frame_shift_samples) (queue_samples nvec) (v, False, 0) wave 0"

lemma div_minus_steps: "(x - k * d) div d = x div d - k" for x k d :: nat
proof (induction k)
  case (Suc k)
  have "x - Suc k * d = x - k * d - d" by simp
  also have "\<dots> div d = (x - k * d) div d - 1"
    by (cases "d \<le> x - k * d"; cases "d = 0") (simp_all add: le_div_geq)
  finally show ?case using Suc by simp
qed simp

lemma heard_requests_step:
  assumes n: "n = (length wave - (a + L)) div req"
    and j: "j = skipped (gated (energy_vad K) (extract_windows K) req L g (Suc n) (drop a wave))" "j < n"
    and g: "g' = gate_after (energy_vad K) (extract_windows K) req L g (Suc j) (drop a wave)"
  shows "heard_requests K req L g wave a
    = j # map (\<lambda>m. Suc (j + m)) (heard_requests K req L g' wave (a + Suc j * req))"
proof -
  have j': "j = skipped (gated (energy_vad K) (extract_windows K) req L g n (drop a wave))"
    using skipped_gated_Suc [of "energy_vad K" "extract_windows K" req L g n "drop a wave"] j by simp
  have "(length wave - (a + Suc j * req + L)) div req = n - Suc j"
  proof -
    have "length wave - (a + Suc j * req + L) = length wave - (a + L) - Suc j * req" by (simp add: algebra_simps)
    then show ?thesis unfolding n by (simp only: div_minus_steps)
  qed
  moreover have "drop (Suc j * req) (drop a wave) = drop (a + Suc j * req) wave" by (simp add: ac_simps)
  ultimately show ?thesis
    unfolding heard_requests_def n [symmetric] gated_skipped [OF j' j(2)] trues_skip g by simp
qed

text \<open>Batches normalised one after the other: each by the last \<open>w\<close> vectors up to its own end.\<close>

fun normal_batches :: "kaldi_env \<Rightarrow> nat \<Rightarrow> vec list \<Rightarrow> vec list list \<Rightarrow> vec list list \<Rightarrow> bool" where
  "normal_batches K w h [] [] \<longleftrightarrow> True"
| "normal_batches K w h (fs # fss) (ys # yss) \<longleftrightarrow> normalised K (last_n w (h @ fs)) fs ys
     \<and> normal_batches K w (last_n w (h @ fs)) fss yss"
| "normal_batches K w h _ _ \<longleftrightarrow> False"

text \<open>
  What is assumed of Kaldi: matrices are allocated with the size asked for, a full batch gives
  as many feature vectors as were requested, of the right length, and a constant column does not
  change the shape of a batch.
\<close>

definition kaldi_ok :: "kaldi_env \<Rightarrow> nat \<Rightarrow> bool" where
  "kaldi_ok K nvec \<longleftrightarrow> mfcc_ok K
     \<and> (\<forall>n c. length (rows (junk_matrix K n c)) = n \<and> num_cols (junk_matrix K n c) = c)
     \<and> (\<forall>w. length w = frame_length_samples + (nvec - 1) * frame_shift_samples \<longrightarrow>
          length (mfcc_rows K w) = nvec)
     \<and> (\<forall>fs. length (constant_rows K fs) = length fs
          \<and> ((\<forall>r \<in> set fs. length r = num_ceps K) \<longrightarrow> (\<forall>r \<in> set (constant_rows K fs). length r = num_ceps K)))"

definition heard_rows :: "kaldi_env \<Rightarrow> sample list \<Rightarrow> nat \<Rightarrow> nat \<Rightarrow> vec list" where
  "heard_rows K wave nvec p =
     mfcc_rows K (take (frame_length_samples + (nvec - 1) * frame_shift_samples) (drop p wave))"

lemma heard_rows_ok:
  assumes "kaldi_ok K nvec" and "p + (frame_length_samples + (nvec - 1) * frame_shift_samples) \<le> length wave"
  shows "length (heard_rows K wave nvec p) = nvec" and "\<forall>r \<in> set (heard_rows K wave nvec p). length r = num_ceps K"
  using assms by (simp_all add: kaldi_ok_def heard_rows_def mfcc_ok_def)

lemma normalised_shape:
  assumes "kaldi_ok K nvec" and "normalised K h fs ys" and "\<forall>r \<in> set fs. length r = num_ceps K"
  shows "length ys = length fs \<and> (\<forall>y \<in> set ys. length y = num_ceps K)"
  using assms unfolding kaldi_ok_def normalised_def by blast

section \<open>One call\<close>

text \<open>The normalisation of a batch of MFCC vectors.\<close>

lemma CmvnInput_step:
  assumes ok: "cmn_ok c" "cdim c = num_ceps K" and fs: "fs \<noteq> []" "\<forall>r \<in> set fs. length r = num_ceps K"
    and input: "input (alloc (length (rows out)) (num_cols out)) s = (Inr (md, mfcc_matrix K fs), t)"
  shows "\<exists>ys c'. CmvnInput_Compute alloc (constant_rows K) input out (c, s)
      = (Inr (md, \<lparr>num_cols = num_ceps K, rows = ys\<rparr>), c', t)
    \<and> normalised K (history c') fs ys \<and> cmn_ok c' \<and> cdim c' = cdim c \<and> hist c' = hist c
    \<and> history c' = last_n (hist c) (history c @ fs)"
proof -
  let ?m = "mfcc_matrix K fs"
  have m: "num_cols ?m = cdim c" "\<forall>r \<in> set (rows ?m). length r = cdim c" "rows ?m = fs"
    using ok(2) fs by (auto simp: mfcc_matrix_def)
  obtain res c' where A: "ApplyCmvn2 c ?m = Inr (res, c')" "cmn_ok c'"
    "history c' = last_n (hist c) (history c @ fs)"
    and res: "case res of
        None \<Rightarrow> \<exists>d < cdim c. variance (column d (history c')) = 0
      | Some ys \<Rightarrow> matrix_ok (cdim c) \<lparr>num_cols = cdim c, rows = ys\<rparr> \<and> length ys = length fs \<and> (\<forall>i < length fs. \<forall>d < cdim c.
          ys ! i ! d = (fs ! i ! d - mean (column d (history c'))) / sqrt (variance (column d (history c'))))"
    using ApplyCmvn2_history [OF ok(1) m(1,2)] unfolding m(3) by blast
  define ys where "ys = (case res of Some ys \<Rightarrow> ys | None \<Rightarrow> constant_rows K fs)"
  have "normalised K (history c') fs ys"
    using res ok(2) by (cases res) (simp_all add: normalised_def ys_def matrix_ok_def)
  then show ?thesis
    using A input m ok(2) ApplyCmvn2_cdim [OF A(1)]
    by (auto simp: CmvnInput_Compute_def ys_def cong: option.case_cong)
qed

text \<open>The queue, the extractor and the normalisation, for a call that finds speech.\<close>

definition heard_input :: "nat \<Rightarrow> 's os \<Rightarrow> kaldi_env \<Rightarrow> (cmn \<times> vad_source \<times> 's) feat_input" where
  "heard_input fuel os K = CmvnInput_Compute (junk_matrix K) (constant_rows K) (VadFeatures fuel os K)"

definition online_queue :: "nat \<Rightarrow> (sample, simple_vad) vad_input \<Rightarrow> bool" where
  "online_queue nvec st \<longleftrightarrow> frame_size st = frame_length_samples \<and> frame_shift st = frame_shift_samples
     \<and> frame_length_samples + (nvec - 1) * frame_shift_samples \<le> buffer_length st \<and> buffer_length st \<le> 2 ^ 30"

lemma online_queue_same: "same_queue st st' \<Longrightarrow> online_queue nvec st \<Longrightarrow> online_queue nvec st'"
  by (simp add: same_queue_def online_queue_def)

lemma heard_step:
  assumes K: "kaldi_ok K nvec" "0 < nvec" and c: "cmn_ok c" "cdim c = num_ceps K"
    and nvec: "length (rows out) = nvec"
    and call: "VadInput_Compute fuel (socket_vad_env os K) (junk_sample K) nvec st l = Some (r, t)"
    and outcome: "call_outcome K wave a sh nvec stq r t" and q: "online_queue nvec stq"
    and step: "heard_input fuel os K out (c, (st, f), l) = (Inr (True, m), y)"
  shows "\<exists>j p ys c' st' f'. y = (c', (st', f'), t) \<and> p = a + j * (nvec * frame_shift_samples)
    \<and> heard_requests K (nvec * frame_shift_samples) (buffer_length stq) (gate_of stq) wave a
      = j # map (\<lambda>m. Suc (j + m)) (heard_requests K (nvec * frame_shift_samples) (buffer_length st') (gate_of st')
          wave (p + nvec * frame_shift_samples))
    \<and> p + (frame_length_samples + (nvec - 1) * frame_shift_samples) \<le> length wave
    \<and> m = \<lparr>num_cols = num_ceps K, rows = ys\<rparr> \<and> normalised K (history c') (heard_rows K wave nvec p) ys
    \<and> cmn_ok c' \<and> cdim c' = cdim c \<and> hist c' = hist c
    \<and> history c' = last_n (hist c) (history c @ heard_rows K wave nvec p)
    \<and> hears wave (p + nvec * frame_shift_samples) sh st' t \<and> online_queue nvec st'"
proof -
  let ?req = "nvec * frame_shift_samples" and ?batch = "frame_length_samples + (nvec - 1) * frame_shift_samples"
  let ?jm = "junk_matrix K nvec (num_cols out)"
  have jm: "length (rows ?jm) = nvec" using K(1) by (simp add: kaldi_ok_def)
  have V: "VadFeatures fuel os K ?jm ((st, f), l) = (case Some (r, t) of
      None \<Rightarrow> (Inl OutOfFuel, (st, f), l)
    | Some (Inl e, t) \<Rightarrow> (Inl e, (st, f), t)
    | Some (Inr (more_data, st', feats, events), t) \<Rightarrow>
        (Inr (more_data, case feats of None \<Rightarrow> ?jm | Some rs \<Rightarrow> mfcc_matrix K rs),
          (st', f \<or> list_ex ends_speech events), t))"
    unfolding VadFeatures_def prod.case jm call ..
  obtain st' feats ev where r: "r = Inr (True, st', feats, ev)"
  proof (cases r)
    case (Inl e)
    then show ?thesis using step V nvec by (simp add: heard_input_def CmvnInput_Compute_def)
  next
    case (Inr x)
    obtain b st' feats ev where "x = (b, st', feats, ev)" by (rule prod_cases4)
    with Inr that step V nvec show ?thesis
      by (cases b) (auto simp: heard_input_def CmvnInput_Compute_def split: sum.splits prod.splits)
  qed
  have sizes: "frame_size stq = frame_length_samples" "frame_shift stq = frame_shift_samples"
    "?batch \<le> buffer_length stq" using q by (simp_all add: online_queue_def)
  define n where "n = (length wave - (a + buffer_length stq)) div ?req"
  define j where "j = skipped (gated (energy_vad K) (extract_windows K) ?req (buffer_length stq) (gate_of stq)
    (Suc n) (drop a wave))"
  have j: "j < n" "hears wave (a + Suc j * ?req) sh st' t"
    "gate_of st' = gate_after (energy_vad K) (extract_windows K) ?req (buffer_length stq) (gate_of stq) (Suc j) (drop a wave)"
    "feats = Some (heard_rows K wave nvec (a + j * ?req))"
    and same: "same_queue stq st'"
    using outcome unfolding r call_outcome_def Let_def sizes(1,2) heard_rows_def sum.case prod.case if_True
      n_def [symmetric] j_def [symmetric] by blast+
  define p where "p = a + j * ?req"
  have L: "buffer_length st' = buffer_length stq" using same by (simp add: same_queue_def)
  have at: "a + Suc j * ?req = p + ?req" by (simp add: p_def)
  note heard = heard_requests_step [OF n_def j_def j(1,3), unfolded at]
  have "0 < ?req" using K(2) by (simp add: online_constants)
  moreover have "Suc j * ?req \<le> n * ?req" using j(1) by (intro mult_le_mono1) simp
  then have "Suc j * ?req \<le> length wave - (a + buffer_length stq)"
    using div_times_less_eq_dividend [of "length wave - (a + buffer_length stq)" ?req] unfolding n_def by linarith
  moreover have "Suc j * ?req = ?req + j * ?req" by simp
  ultimately have bound: "p + ?batch \<le> length wave" using sizes(3) unfolding p_def by linarith
  note fs = heard_rows_ok [OF K(1) bound]
  have ne: "heard_rows K wave nvec p \<noteq> []" using fs(1) K(2) by auto
  have "VadFeatures fuel os K ?jm ((st, f), l)
      = (Inr (True, mfcc_matrix K (heard_rows K wave nvec p)), (st', f \<or> list_ex ends_speech ev), t)"
    unfolding V r j(4) p_def by simp
  from CmvnInput_step [OF c ne fs(2), where alloc = "junk_matrix K" and out = out
      and input = "VadFeatures fuel os K", unfolded nvec, OF this]
  obtain ys c' where "heard_input fuel os K out (c, (st, f), l)
      = (Inr (True, \<lparr>num_cols = num_ceps K, rows = ys\<rparr>), c', (st', f \<or> list_ex ends_speech ev), t)"
    "normalised K (history c') (heard_rows K wave nvec p) ys" "cmn_ok c'" "cdim c' = cdim c" "hist c' = hist c"
    "history c' = last_n (hist c) (history c @ heard_rows K wave nvec p)"
    unfolding heard_input_def by blast
  moreover have "hears wave (p + ?req) sh st' t" using j(2) unfolding at .
  ultimately show ?thesis
    using step bound online_queue_same [OF same q] heard
    by - (rule exI [of _ j], rule exI [of _ p], intro exI [of _ ys] exI [of _ c'] exI [of _ st']
        exI [of _ "f \<or> list_ex ends_speech ev"], simp add: p_def L)
qed

section \<open>The calls of a session\<close>

text \<open>
  The batches that come out of the normalisation while there is more data: those of the wave at the
  requests from \<open>a\<close> on that pass the gate, normalised in turn.
\<close>

definition heard_batches :: "kaldi_env \<Rightarrow> sample list \<Rightarrow> nat \<Rightarrow> nat \<Rightarrow> vec list \<Rightarrow> nat \<Rightarrow> simple_vad gate \<Rightarrow> nat \<Rightarrow> nat list
    \<Rightarrow> vec list list \<Rightarrow> bool" where
  "heard_batches K wave nvec w h L g a ps yss \<longleftrightarrow>
     ps = map (\<lambda>m. a + m * (nvec * frame_shift_samples))
       (take (length ps) (heard_requests K (nvec * frame_shift_samples) L g wave a))
     \<and> (\<forall>p \<in> set ps. p + (frame_length_samples + (nvec - 1) * frame_shift_samples) \<le> length wave)
     \<and> normal_batches K w h (map (heard_rows K wave nvec) ps) yss"

definition batch_results :: "kaldi_env \<Rightarrow> vec list list \<Rightarrow> (bool \<times> matrix) list" where
  "batch_results K yss = map (\<lambda>ys. (True, \<lparr>num_cols = num_ceps K, rows = ys\<rparr>)) yss"

lemma heard_batches_length: "heard_batches K wave nvec w h L g a ps yss \<Longrightarrow> length ps = length yss"
proof -
  have "normal_batches K w h fss yss \<Longrightarrow> length fss = length yss" for h fss
    by (induction K w h fss yss rule: normal_batches.induct) auto
  then show "heard_batches K wave nvec w h L g a ps yss \<Longrightarrow> ?thesis" by (fastforce simp: heard_batches_def)
qed

lemma heard_batches_Cons:
  assumes p: "p = a + j * (nvec * frame_shift_samples)"
    and heard: "heard_requests K (nvec * frame_shift_samples) L g wave a
      = j # map (\<lambda>m. Suc (j + m)) (heard_requests K (nvec * frame_shift_samples) L' g' wave (p + nvec * frame_shift_samples))"
    and fits: "p + (frame_length_samples + (nvec - 1) * frame_shift_samples) \<le> length wave"
    and normal: "normalised K (last_n w (h @ heard_rows K wave nvec p)) (heard_rows K wave nvec p) ys"
    and rest: "heard_batches K wave nvec w (last_n w (h @ heard_rows K wave nvec p)) L' g'
      (p + nvec * frame_shift_samples) ps yss"
  shows "heard_batches K wave nvec w h L g a (p # ps) (ys # yss)"
proof -
  let ?req = "nvec * frame_shift_samples"
  let ?hs = "heard_requests K ?req L' g' wave (p + ?req)"
  have "ps = map (\<lambda>m. p + ?req + m * ?req) (take (length ps) ?hs)" using rest unfolding heard_batches_def by blast
  also have "\<dots> = map (\<lambda>m. a + m * ?req) (take (length ps) (map (\<lambda>m. Suc (j + m)) ?hs))"
    by (simp add: take_map p algebra_simps)
  finally have at: "p # ps = map (\<lambda>m. a + m * ?req) (take (length (p # ps)) (heard_requests K ?req L g wave a))"
    unfolding heard by (simp add: p)
  have ps: "\<forall>p \<in> set ps. p + (frame_length_samples + (nvec - 1) * frame_shift_samples) \<le> length wave"
    "normal_batches K w (last_n w (h @ heard_rows K wave nvec p)) (map (heard_rows K wave nvec) ps) yss"
    using rest unfolding heard_batches_def by blast+
  show ?thesis unfolding heard_batches_def
    by (intro conjI, rule at) (use fits normal ps in simp_all)
qed

text \<open>
  The first call of the run is given with its outcome; \<open>rest\<close> is what holds of the others.
\<close>

lemma heard_Cons:
  assumes K: "kaldi_ok K nvec" "0 < nvec" and c: "cmn_ok c" "cdim c = num_ceps K"
    and nvec: "length (rows out) = nvec"
    and call: "VadInput_Compute fuel (socket_vad_env os K) (junk_sample K) nvec st l = Some (r, t)"
    and outcome: "call_outcome K wave a sh nvec stq r t" and q: "online_queue nvec stq"
    and run: "repeats (heard_input fuel os K out) (Suc n) (c, (st, f), l) = (Inr ms, x)" "list_all fst ms"
    and rest: "\<And>c' b st' f' ms'. cmn_ok c' \<Longrightarrow> cdim c' = num_ceps K \<Longrightarrow> hears wave b sh st' t \<Longrightarrow>
      online_queue nvec st' \<Longrightarrow> repeats (heard_input fuel os K out) n (c', (st', f'), t) = (Inr ms', x) \<Longrightarrow>
      list_all fst ms' \<Longrightarrow>
      \<exists>ps yss. heard_batches K wave nvec (hist c') (history c') (buffer_length st') (gate_of st') b ps yss
        \<and> ms' = batch_results K yss"
  shows "\<exists>ps yss. heard_batches K wave nvec (hist c) (history c) (buffer_length stq) (gate_of stq) a ps yss
    \<and> ms = batch_results K yss"
proof -
  obtain m y ms' where m: "heard_input fuel os K out (c, (st, f), l) = (Inr m, y)"
    "repeats (heard_input fuel os K out) n y = (Inr ms', x)" "ms = m # ms'"
    using run(1) unfolding repeats_Suc by blast
  obtain mt where mt: "m = (True, mt)" using run(2) m(3) by (cases m) simp
  from heard_step [OF K c nvec call outcome q m(1) [unfolded mt]] obtain j p ys c' st' f' where
    y: "y = (c', (st', f'), t)" "p = a + j * (nvec * frame_shift_samples)"
    "heard_requests K (nvec * frame_shift_samples) (buffer_length stq) (gate_of stq) wave a
      = j # map (\<lambda>m. Suc (j + m)) (heard_requests K (nvec * frame_shift_samples) (buffer_length st') (gate_of st')
          wave (p + nvec * frame_shift_samples))"
    "p + (frame_length_samples + (nvec - 1) * frame_shift_samples) \<le> length wave"
    "mt = \<lparr>num_cols = num_ceps K, rows = ys\<rparr>" "normalised K (history c') (heard_rows K wave nvec p) ys"
    and c': "cmn_ok c'" "cdim c' = cdim c" "hist c' = hist c"
    "history c' = last_n (hist c) (history c @ heard_rows K wave nvec p)"
    and st': "hears wave (p + nvec * frame_shift_samples) sh st' t" "online_queue nvec st'"
    by blast
  have "cdim c' = num_ceps K" using c'(2) c(2) by simp
  from rest [OF c'(1) this st' m(2) [unfolded y(1)]] run(2) m(3) obtain ps yss where
    ps: "heard_batches K wave nvec (hist c') (history c') (buffer_length st') (gate_of st')
      (p + nvec * frame_shift_samples) ps yss"
    "ms' = batch_results K yss" by auto
  from heard_batches_Cons [OF y(2-4) y(6) [unfolded c'(4)] ps(1) [unfolded c'(3,4)]] ps(2) m(3) mt y(5)
  show ?thesis by (intro exI [of _ "p # ps"] exI [of _ "ys # yss"]) (simp add: batch_results_def)
qed

lemma repeats_heard:
  assumes K: "kaldi_ok K nvec" "0 < nvec" and nvec: "length (rows out) = nvec" and fuel: "length wave < fuel"
  shows "cmn_ok c \<Longrightarrow> cdim c = num_ceps K \<Longrightarrow> hears wave a sh st l \<Longrightarrow> online_queue nvec st \<Longrightarrow>
    repeats (heard_input fuel (link_os late stuck wave) K out) n (c, (st, f), l) = (Inr ms, x) \<Longrightarrow>
    list_all fst ms \<Longrightarrow>
    \<exists>ps yss. heard_batches K wave nvec (hist c) (history c) (buffer_length st) (gate_of st) a ps yss
      \<and> ms = batch_results K yss"
proof (induction n arbitrary: c a st l f ms)
  case 0
  then show ?case
    by (intro exI [of _ "[]"]) (simp add: heard_batches_def batch_results_def)
next
  case (Suc n)
  have "buffer_init st" using Suc.prems(3) by (simp add: hears_def)
  moreover have "0 < frame_shift st" "frame_shift st \<le> frame_size st"
    "frame_size st + (nvec - 1) * frame_shift st \<le> buffer_length st" "buffer_length st \<le> 2 ^ 30"
    using Suc.prems(4) by (simp_all add: online_queue_def) (simp_all add: online_constants)
  ultimately obtain r t where r:
    "VadInput_Compute fuel (socket_vad_env (link_os late stuck wave) K) (junk_sample K) nvec st l = Some (r, t)"
    "call_outcome K wave a sh nvec st r t"
    using VadInput_Compute_filled [of st nvec fuel] loop_outcome [OF Suc.prems(3) K(2) _ _ _ _ fuel]
    by (metis K(2))
  show ?case
    by (rule heard_Cons [OF K Suc.prems(1,2) nvec r Suc.prems(4-6)]) (rule Suc.IH)
qed

text \<open>The same from the beginning of a session.\<close>

lemma repeats_heard_new:
  assumes K: "kaldi_ok K nvec" "0 < nvec" "nvec \<le> 2 ^ 20" and nvec: "length (rows out) = nvec"
    and wave: "4 * length wave < 2 ^ 31" and fuel: "length wave < fuel"
    and c: "cmn_ok c" "cdim c = num_ceps K"
    and run: "repeats (heard_input fuel (link_os late stuck wave) K out) (Suc n) (c, (online_input v, False), link_new)
      = (Inr ms, x)" "list_all fst ms"
  shows "\<exists>ps yss. heard_batches K wave nvec (hist c) (history c) (queue_samples nvec) (v, False, 0) 0 ps yss
    \<and> ms = batch_results K yss"
proof -
  let ?stq = "(online_input v)\<lparr>buffer_length := queue_samples nvec, buffer_init := True\<rparr>"
  obtain r t where r:
    "VadInput_Compute fuel (socket_vad_env (link_os late stuck wave) K) (junk_sample K) nvec (online_input v) link_new
      = Some (r, t)"
    "if length wave \<le> queue_samples nvec then r = Inl (Exit 1) else call_outcome K wave 0 [] nvec ?stq r t"
    using first_call_outcome [OF K(2,3) wave fuel, of late stuck K "junk_sample K" v] by blast
  have "\<not> length wave \<le> queue_samples nvec"
  proof
    assume "length wave \<le> queue_samples nvec"
    then have "VadFeatures fuel (link_os late stuck wave) K (junk_matrix K nvec (num_cols out))
        ((online_input v, False), link_new) = (Inl (Exit 1), (online_input v, False), t)"
      using r K(1) by (simp add: VadFeatures_def kaldi_ok_def)
    then show False using run(1) nvec
      by (simp add: andthen_def heard_input_def CmvnInput_Compute_def)
  qed
  then have out: "call_outcome K wave 0 [] nvec ?stq r t" using r(2) by simp
  have q: "online_queue nvec ?stq"
    using K(3) by (simp add: online_queue_def queue_samples_def AddVadListener_def OnlineVadFeInput_new_def
        online_constants)
  have stq: "buffer_length ?stq = queue_samples nvec" "gate_of ?stq = (v, False, 0)"
    by (simp_all add: gate_of_def AddVadListener_def OnlineVadFeInput_new_def)
  have "\<exists>ps yss. heard_batches K wave nvec (hist c) (history c) (buffer_length ?stq) (gate_of ?stq) 0 ps yss
      \<and> ms = batch_results K yss"
    by (rule heard_Cons [OF K(1,2) c nvec r(1) out q run]) (rule repeats_heard [OF K(1,2) nvec fuel])
  then show ?thesis unfolding stq .
qed

section \<open>The LDA on top\<close>

lemma repeats_length: "repeats p n s = (Inr xs, t) \<Longrightarrow> length xs = n"
proof (induction n arbitrary: s xs)
  case (Suc n)
  then show ?case unfolding repeats_Suc by auto
qed simp

lemma repeats_map:
  "repeats (andthen p (\<lambda>x. ret (f x))) n s = (Inr ys, t) \<longleftrightarrow> (\<exists>xs. repeats p n s = (Inr xs, t) \<and> ys = map f xs)"
proof (induction n arbitrary: s ys)
  case (Suc n)
  show ?case unfolding repeats_Suc andthen_Inr_iff Suc.IH by (fastforce simp: Suc.IH)
qed auto

lemma lda_loop_dim: "lda_loop l xs = (rs, l') \<Longrightarrow> lfeat_dim l' = lfeat_dim l"
  by (induction xs arbitrary: l rs) (auto simp: lda_push_def Let_def split: prod.splits)

lemma LdaInput_inner:
  assumes "LdaInput_Compute alloc input out (l, s) = (Inr r, l', t)"
  shows "\<exists>m. input (alloc (length (rows out)) (lfeat_dim l)) s = (Inr m, t) \<and> fst m = fst r
    \<and> lfeat_dim l' = lfeat_dim l"
proof -
  have out: "lda_output m l = Inr (o', l') \<Longrightarrow> lfeat_dim l' = lfeat_dim l" for m o'
    by (auto simp: lda_output_def LdaInput_InitFeatWindow_def dest!: lda_loop_dim
        split: option.splits if_splits prod.splits)
  show ?thesis using assms out
    by (auto simp: LdaInput_Compute_def Let_def split: if_splits prod.splits sum.splits)
qed

lemma repeats_LdaInput_inner:
  "repeats (LdaInput_Compute alloc input out) n (l, s) = (Inr rs, l', t) \<Longrightarrow>
     \<exists>ms. repeats (input (alloc (length (rows out)) (lfeat_dim l))) n s = (Inr ms, t) \<and> map fst ms = map fst rs"
proof (induction n arbitrary: l s rs)
  case (Suc n)
  obtain r l1 s1 rs' where r: "LdaInput_Compute alloc input out (l, s) = (Inr r, l1, s1)"
    "repeats (LdaInput_Compute alloc input out) n (l1, s1) = (Inr rs', l', t)" "rs = r # rs'"
    using Suc.prems unfolding repeats_Suc by (metis prod.collapse)
  obtain m where m: "input (alloc (length (rows out)) (lfeat_dim l)) s = (Inr m, s1)" "fst m = fst r"
    "lfeat_dim l1 = lfeat_dim l"
    using LdaInput_inner [OF r(1)] by blast
  obtain ms where "repeats (input (alloc (length (rows out)) (lfeat_dim l))) n s1 = (Inr ms, t)"
    "map fst ms = map fst rs'"
    using Suc.IH [OF r(2)] m(3) by auto
  then show ?case using m r(3) by (intro exI [of _ "m # ms"]) (simp add: andthen_Inr)
qed simp

lemma all_rows_batch_results: "all_rows (batch_results K yss) = concat yss"
  by (simp add: all_rows_def batch_results_def comp_def)

lemma normal_batches_shape:
  assumes K: "kaldi_ok K nvec"
  shows "normal_batches K w h fss yss \<Longrightarrow>
    \<forall>fs \<in> set fss. length fs = nvec \<and> (\<forall>r \<in> set fs. length r = num_ceps K) \<Longrightarrow>
    \<forall>ys \<in> set yss. length ys = nvec \<and> (\<forall>y \<in> set ys. length y = num_ceps K)"
proof (induction fss arbitrary: h yss)
  case Nil
  then show ?case by (cases yss) simp_all
next
  case (Cons fs fss)
  then obtain ys yss' where ys: "yss = ys # yss'" "normalised K (last_n w (h @ fs)) fs ys"
    "normal_batches K w (last_n w (h @ fs)) fss yss'"
    by (cases yss) simp_all
  then show ?case using Cons.IH [OF ys(3)] Cons.prems(2) normalised_shape [OF K ys(2)] by auto
qed

lemma heard_batches_shape:
  assumes K: "kaldi_ok K nvec" and ps: "heard_batches K wave nvec w h L g a ps yss"
  shows "\<forall>ys \<in> set yss. length ys = nvec \<and> (\<forall>y \<in> set ys. length y = num_ceps K)"
proof (rule normal_batches_shape [OF K])
  show "normal_batches K w h (map (heard_rows K wave nvec) ps) yss" using ps by (simp add: heard_batches_def)
  show "\<forall>fs \<in> set (map (heard_rows K wave nvec) ps). length fs = nvec \<and> (\<forall>r \<in> set fs. length r = num_ceps K)"
  proof
    fix fs
    assume "fs \<in> set (map (heard_rows K wave nvec) ps)"
    then obtain p where p: "p \<in> set ps" "fs = heard_rows K wave nvec p" by auto
    then have "p + (frame_length_samples + (nvec - 1) * frame_shift_samples) \<le> length wave"
      using ps unfolding heard_batches_def by blast
    from heard_rows_ok [OF K this] p(2) show "length fs = nvec \<and> (\<forall>r \<in> set fs. length r = num_ceps K)" by blast
  qed
qed

lemma chain_compute_map:
  "chain_compute fuel os K d nvec = andthen (LdaInput_Compute (junk_matrix K) (heard_input fuel os K)
     (junk_matrix K nvec d)) (\<lambda>x. ret (rows (snd x), fst x))"
  by (simp add: chain_compute_def heard_input_def split_def)

lemma online_cmn_ok: "cmn_ok (OnlineCMN_new d cmn_window)" "cdim (OnlineCMN_new d cmn_window) = d"
  "hist (OnlineCMN_new d cmn_window) = cmn_window" "history (OnlineCMN_new d cmn_window) = []"
  by (simp_all add: OnlineCMN_new_def cmn_ok_def history_def online_constants)


section \<open>Witness\<close>

text \<open>A constant wave in which the detector hears speech at once, one vector per request.\<close>

definition loud_kaldi :: kaldi_env where
  "loud_kaldi = \<lparr>mfcc_rows = (\<lambda>w. if length w = 400 then [[1]] else []), extract_windows = (\<lambda>w. [[0]]),
     float_value = (\<lambda>w. 1), num_ceps = 1, junk_matrix = (\<lambda>r c. \<lparr>num_cols = c, rows = replicate r []\<rparr>),
     junk_sample = 0, constant_rows = (\<lambda>rs. rs), score = (\<lambda>v i. 0), special_float = 0\<rparr>"

definition loud_vad :: simple_vad where
  "loud_vad = SimpleEnergyVad_new 0 0 0 48"

definition loud_os :: "link os" where
  "loud_os = link_os (\<lambda>d. -1) (\<lambda>l n. (None, l)) (replicate 9000 0)"

definition unit_transform :: matrix where
  "unit_transform = \<lparr>num_cols = 1, rows = [[1]]\<rparr>"

lemma loud_simps [simp]:
  "num_ceps loud_kaldi = 1" "constant_rows loud_kaldi fs = fs"
  "junk_matrix loud_kaldi r c = \<lparr>num_cols = c, rows = replicate r []\<rparr>"
  "mfcc_rows loud_kaldi w = (if length w = 400 then [[1]] else [])"
  by (simp_all add: loud_kaldi_def)

lemma loud_ok: "kaldi_ok loud_kaldi 1"
  by (simp add: kaldi_ok_def mfcc_ok_def online_constants)

lemma loud_speech:
  assumes "E = socket_vad_env loud_os loud_kaldi"
  shows "fst (DoVad (vad_proc E) (windows_of E) loud_vad b)"
  by (simp add: assms socket_vad_env_def loud_kaldi_def DoVad_def Process_def vad_step_def frame_energy_def
      loud_vad_def SimpleEnergyVad_new_def)

lemma loud_call:
  "\<exists>st ev t. VadInput_Compute 9001 (socket_vad_env loud_os loud_kaldi) (junk_sample loud_kaldi) 1
      (online_input loud_vad) link_new = Some (Inr (True, st, Some [[1]], ev), t)"
proof -
  let ?E = "socket_vad_env loud_os loud_kaldi" and ?wave = "replicate 9000 0 :: sample list"
  have os: "loud_os = link_os (\<lambda>d. -1) (\<lambda>l n. (None, l)) ?wave" by (simp add: loud_os_def)
  have L: "queue_samples 1 = 8400" by (simp add: queue_samples_def online_constants)
  have big: "\<not> length ?wave \<le> queue_samples 1" by (simp only: L length_replicate)
  have "0 < (1 :: nat)" "1 \<le> (2 :: nat) ^ 20" "4 * length ?wave < 2 ^ 31" "?wave \<noteq> []"
    "?E = socket_vad_env (link_os (\<lambda>d. -1) (\<lambda>l n. (None, l)) ?wave) loud_kaldi" by (simp_all add: os)
  note fills = first_call_fills [OF this, of 9001 "junk_sample loud_kaldi" loud_vad, unfolded if_not_P [OF big]]
  obtain data t where C: "VadInput_Compute 9001 ?E (junk_sample loud_kaldi) 1 (online_input loud_vad) link_new
      = vad_loop 9001 ?E (frame_length_samples + (1 - 1) * frame_shift_samples) (1 * frame_shift_samples)
        ((online_input loud_vad)\<lparr>buffer_length := queue_samples 1, buffer := data, buffer_init := True\<rparr>, None, []) t"
    and h: "hears ?wave 0 [] ((online_input loud_vad)\<lparr>buffer_length := queue_samples 1, buffer := data,
      buffer_init := True\<rparr>) t"
    using fills by blast
  define st where "st = (online_input loud_vad)\<lparr>buffer_length := queue_samples 1, buffer := data, buffer_init := True\<rparr>"
  note C = C [folded st_def] and h = h [folded st_def]
  have st: "frame_size st = 400" "frame_shift st = 160" "buffer_length st = 8400" "vad st = loud_vad"
    "nVadListeners st = 1"
    by (simp_all add: st_def queue_samples_def AddVadListener_def OnlineVadFeInput_new_def online_constants)
  have q: "queue_at (link_todo ?wave) (drop 0 ?wave) st t" using h by (simp add: hears_def)
  then have todo: "length (link_todo ?wave t) = 600" by (simp add: queue_at_def st)
  have "\<not> link_lost ?wave [] t"
  proof
    assume "link_lost ?wave [] t"
    then have "length ?wave \<le> nat (fst (lvars t))" unfolding link_lost_def by linarith
    then show False using todo by (simp add: link_todo_def)
  qed
  then have live: "\<exists>p. link_at ?wave p [] t" using h by (simp add: hears_def)
  have "\<exists>st' out' ev' u. vad_loop (Suc 9000) ?E 400 160 (st, None, []) t = Some (Inr (True, st', out', ev'), u)"
    by (rule link.vad_loop_speech [where E = ?E and K = loud_kaldi and late = "\<lambda>d. -1"
          and stuck = "\<lambda>l n. (None, l)", OF _ live q])
      (simp_all only: st todo loud_speech os, simp_all)
  then obtain st' feats ev u where r: "vad_loop 9001 ?E 400 160 (st, None, []) t = Some (Inr (True, st', feats, ev), u)"
    by auto
  have "\<exists>w u. vad_loop 9001 ?E 400 160 (st, None, []) t = Some (w, u) \<and> call_outcome loud_kaldi ?wave 0 [] 1 st w u"
    using loop_outcome [OF h, of 1 9001 "\<lambda>d. -1" "\<lambda>l n. (None, l)" loud_kaldi] by (simp add: st os)
  with r have "call_outcome loud_kaldi ?wave 0 [] 1 st (Inr (True, st', feats, ev)) u" by simp
  then have "feats = Some [[1]]"
    by (auto simp: call_outcome_def st Let_def min_def split: if_splits)
  then show ?thesis using C r by (simp add: online_constants)
qed

lemma loud_chain:
  "\<exists>m x. chain_compute 9001 loud_os loud_kaldi (length (rows unit_transform)) 1
      (OnlineDecode_chain loud_kaldi unit_transform 0 0 loud_vad link_new) = (Inr (m, True), x)"
proof -
  let ?K = loud_kaldi and ?jm = "\<lambda>r c. junk_matrix loud_kaldi r c"
  obtain st ev t where V: "VadInput_Compute 9001 (socket_vad_env loud_os ?K) (junk_sample ?K) 1
      (online_input loud_vad) link_new = Some (Inr (True, st, Some [[1]], ev), t)"
    using loud_call by blast
  define y where "y = ((st, list_ex ends_speech ev), t)"
  have F: "VadFeatures 9001 loud_os ?K (?jm 1 1) ((online_input loud_vad, False), link_new)
      = (Inr (True, mfcc_matrix ?K [[1]]), y)"
    using V by (simp add: VadFeatures_def y_def)
  let ?c = "OnlineCMN_new 1 cmn_window"
  have F': "VadFeatures 9001 loud_os ?K (?jm (length (rows (?jm 1 1))) (num_cols (?jm 1 1)))
      ((online_input loud_vad, False), link_new) = (Inr (True, mfcc_matrix ?K [[1]]), y)"
    using F by simp
  have c: "cmn_ok ?c" "cdim ?c = num_ceps ?K" "[[1]] \<noteq> ([] :: vec list)" "\<forall>r \<in> set [[1]]. length (r :: vec) = num_ceps ?K"
    using online_cmn_ok [of 1] by simp_all
  obtain ys c' where C: "heard_input 9001 loud_os ?K (?jm 1 1) (?c, (online_input loud_vad, False), link_new)
      = (Inr (True, \<lparr>num_cols = num_ceps ?K, rows = ys\<rparr>), c', y)" "normalised ?K (history c') [[1]] ys"
    using CmvnInput_step [where alloc = "junk_matrix ?K" and out = "?jm 1 1" and K = ?K
        and input = "VadFeatures 9001 loud_os ?K", OF c F'] unfolding heard_input_def by blast
  have ys: "length ys = 1" "\<forall>r \<in> set ys. length r = 1"
    using normalised_shape [OF loud_ok C(2)] by simp_all
  let ?b = "(True, \<lparr>num_cols = num_ceps ?K, rows = ys\<rparr>)"
  have run: "heard_input 9001 loud_os ?K (junk_matrix ?K (length (rows (?jm 1 1))) 1)
      (?c, (online_input loud_vad, False), link_new) = (Inr ?b, c', y)"
    using C(1) by simp
  have "matrix_ok 1 (snd ?b)" "lda_long 1 unit_transform 0 0 (?jm 1 1) (rows (snd ?b))"
    using ys by (auto simp: matrix_ok_def lda_long_def unit_transform_def)
  from LdaInput_Compute_first [where input = "heard_input 9001 loud_os ?K" and alloc = "junk_matrix ?K"
        and out = "?jm 1 1", OF run this]
  have "\<exists>m' l. LdaInput_Compute (junk_matrix ?K) (heard_input 9001 loud_os ?K) (?jm 1 1)
      (OnlineLdaInput_new 1 unit_transform 0 0, ?c, (online_input loud_vad, False), link_new)
    = (Inr m', l, c', y) \<and> fst m' = True" by auto
  then show ?thesis
    by (auto simp: chain_compute_map OnlineDecode_chain_def unit_transform_def andthen_Inr y_def)
qed


end
