(* ===== verification/UdpInput.thy ===== *)
theory UdpInput
  imports Features Sockets
begin

text \<open>
  \<open>OnlineUdpInput\<close> (\<open>online-feat-input.cc\<close>): the constructor, which opens a datagram socket, and
  \<open>Compute\<close>, which takes one matrix from each datagram. The system calls are parameters, and so
  is Kaldi's parser for matrices, which throws on bytes that are no matrix.
\<close>

section \<open>The system calls\<close>

text \<open>
  The calls on datagram sockets; \<open>recvfrom\<close> with the size of the buffer returns the bytes of one
  datagram and its sender (\<^const>\<open>None\<close> is the return value -1).
\<close>

record 'n udp_net =
  udp_socket :: "'n \<Rightarrow> int \<times> 'n"
  udp_rcvbuf :: "int \<Rightarrow> int \<Rightarrow> 'n \<Rightarrow> int \<times> 'n"
  udp_bind :: "int \<Rightarrow> sockaddr \<Rightarrow> 'n \<Rightarrow> int \<times> 'n"
  udp_recvfrom :: "int \<Rightarrow> nat \<Rightarrow> 'n \<Rightarrow> (byte list \<times> sockaddr) option \<times> 'n"

record udp_input =
  sock_desc :: int
  server_addr :: sockaddr
  client_addr :: sockaddr

section \<open>OnlineUdpInput\<close>

text \<open>A call whose return value is compared with -1: an error is raised.\<close>

definition call_or_error :: "('n \<Rightarrow> int \<times> 'n) \<Rightarrow> ('n, int) prog" where
  "call_or_error f = (\<lambda>s. case f s of (r, t) \<Rightarrow> if r = -1 then (Inl KaldiError, t) else (Inr r, t))"

text \<open>\<open>junk\<close> is the address of a client before there is one.\<close>

definition OnlineUdpInput_new :: "'n udp_net \<Rightarrow> sockaddr \<Rightarrow> cint \<Rightarrow> ('n, udp_input) prog" where
  "OnlineUdpInput_new net junk port =
     andthen (call_or_error (udp_socket net)) (\<lambda>fd.
     andthen (call_or_error (udp_rcvbuf net fd 30000)) (\<lambda>_.
     andthen (call_or_error (udp_bind net fd (server_address port))) (\<lambda>_.
       ret \<lparr>sock_desc = fd, server_addr = server_address port, client_addr = junk\<rparr>)))"

definition udp_buffer :: nat where
  "udp_buffer = 65535"

text \<open>
  \<open>Compute\<close>: \<open>timeout\<close> tells whether one was passed. The stream that is parsed holds the bytes
  received, and what the parser leaves of them is dropped with it.
\<close>

definition UdpInput_Compute :: "'n udp_net \<Rightarrow> (byte list \<Rightarrow> matrix option) \<Rightarrow> bool
    \<Rightarrow> (udp_input \<times> 'n) feat_input" where
  "UdpInput_Compute net read_matrix timeout out = (\<lambda>(u, s).
     if timeout then (Inl KaldiError, u, s)
     else (case udp_recvfrom net (sock_desc u) udp_buffer s of
         (None, t) \<Rightarrow> (Inr (False, no_rows), u, t)
       | (Some (buf, from_addr), t) \<Rightarrow>
           (case read_matrix buf of
              None \<Rightarrow> (Inl KaldiError, u\<lparr>client_addr := from_addr\<rparr>, t)
            | Some m \<Rightarrow> (Inr (True, m), u\<lparr>client_addr := from_addr\<rparr>, t))))"

section \<open>The constructor\<close>

lemma call_or_error_Inr: "call_or_error f s = (Inr r, t) \<longleftrightarrow> f s = (r, t) \<and> r \<noteq> -1"
  by (auto simp: call_or_error_def split: prod.splits if_splits)

lemma call_or_error_Inl: "call_or_error f s = (Inl e, t) \<longleftrightarrow> e = KaldiError \<and> f s = (-1, t)"
  by (auto simp: call_or_error_def split: prod.splits if_splits)

theorem OnlineUdpInput_outcome:
  "(OnlineUdpInput_new net junk port s = (Inr u, t) \<longleftrightarrow>
     (\<exists>v w r q. udp_socket net s = (sock_desc u, v) \<and> sock_desc u \<noteq> -1
        \<and> udp_rcvbuf net (sock_desc u) 30000 v = (r, w) \<and> r \<noteq> -1
        \<and> udp_bind net (sock_desc u) (server_address port) w = (q, t) \<and> q \<noteq> -1)
     \<and> server_addr u = server_address port \<and> client_addr u = junk)
   \<and> (\<forall>e v. OnlineUdpInput_new net junk port s = (Inl e, v) \<longrightarrow> e = KaldiError)"
  by (cases u) (auto simp: OnlineUdpInput_new_def andthen_Inr_iff andthen_Inl_iff call_or_error_Inr
      call_or_error_Inl)

section \<open>A queue of datagrams\<close>

text \<open>
  What the code relies on: \<open>recvfrom\<close> with a buffer of \<open>n\<close> bytes takes the first of the datagrams
  that have arrived, cut off at \<open>n\<close> bytes, and does not fail while there is one.
\<close>

definition udp_ok :: "'n udp_net \<Rightarrow> int \<Rightarrow> ('n \<Rightarrow> (byte list \<times> sockaddr) list) \<Rightarrow> bool" where
  "udp_ok net fd arrived \<longleftrightarrow>
     (\<forall>s n d a ds. arrived s = (d, a) # ds \<longrightarrow>
        (\<exists>t. udp_recvfrom net fd n s = (Some (take n d, a), t) \<and> arrived t = ds))"

lemma UdpInput_Compute_datagram:
  assumes "udp_ok net (sock_desc u) arrived" and "arrived s = (d, a) # ds" and "length d \<le> udp_buffer"
  shows "\<exists>t. arrived t = ds \<and> UdpInput_Compute net read_matrix False out (u, s) =
    (case read_matrix d of None \<Rightarrow> Inl KaldiError | Some m \<Rightarrow> Inr (True, m), u\<lparr>client_addr := a\<rparr>, t)"
proof -
  obtain t where "udp_recvfrom net (sock_desc u) udp_buffer s = (Some (take udp_buffer d, a), t)" "arrived t = ds"
    using assms(1,2) unfolding udp_ok_def by blast
  then show ?thesis using assms(3) by (auto simp: UdpInput_Compute_def split: option.splits)
qed

text \<open>
  Datagrams are the batches: as long as every datagram that has arrived fits the buffer and
  holds a matrix, calls of \<open>OnlineUdpInput::Compute\<close> return these matrices, one per datagram and
  in the order of arrival, each with the answer that there is more; the address of the client
  is that of the last sender.
\<close>

theorem udp_batches_are_datagrams:
  assumes "udp_ok net (sock_desc u) arrived" and "arrived s = ds @ rest"
    and "\<forall>d \<in> set ds. length (fst d) \<le> udp_buffer" and "map read_matrix (map fst ds) = map Some ms"
  shows "\<exists>t. repeats (UdpInput_Compute net read_matrix False out) (length ds) (u, s) =
      (Inr (map (Pair True) ms), u\<lparr>client_addr := last (client_addr u # map snd ds)\<rparr>, t)
    \<and> arrived t = rest"
  using assms
proof (induction ds arbitrary: u s ms)
  case Nil
  then show ?case by (cases u) simp
next
  case (Cons d ds)
  obtain b a where d: "d = (b, a)" by fastforce
  obtain m ms' where ms: "ms = m # ms'" "read_matrix b = Some m" "map read_matrix (map fst ds) = map Some ms'"
    using Cons.prems(4) d by (cases ms) auto
  let ?u = "u\<lparr>client_addr := a\<rparr>"
  obtain t where t: "arrived t = ds @ rest"
    "UdpInput_Compute net read_matrix False out (u, s) = (Inr (True, m), ?u, t)"
    using UdpInput_Compute_datagram [OF Cons.prems(1), of s b a "ds @ rest" read_matrix out] Cons.prems(2,3) d ms(2)
    by auto
  have "udp_ok net (sock_desc ?u) arrived" using Cons.prems(1) by simp
  from Cons.IH [OF this t(1) _ ms(3)] Cons.prems(3) obtain t' where
    "repeats (UdpInput_Compute net read_matrix False out) (length ds) (?u, t) =
      (Inr (map (Pair True) ms'), ?u\<lparr>client_addr := last (client_addr ?u # map snd ds)\<rparr>, t')"
    "arrived t' = rest" by auto
  with t(2) show ?case
    by (intro exI [of _ t']) (simp add: andthen_Inr ms(1) d)
qed

text \<open>
  A datagram that holds no matrix, also one that was cut off, ends the series with an error; a
  failing \<open>recvfrom\<close> is an empty batch and the answer that there is no more.
\<close>

theorem udp_bad_datagram:
  assumes "udp_ok net (sock_desc u) arrived" and "arrived s = (d, a) # ds"
    and "read_matrix (take udp_buffer d) = None"
  shows "\<exists>t. UdpInput_Compute net read_matrix False out (u, s) = (Inl KaldiError, u\<lparr>client_addr := a\<rparr>, t)
    \<and> arrived t = ds"
proof -
  obtain t where "udp_recvfrom net (sock_desc u) udp_buffer s = (Some (take udp_buffer d, a), t)" "arrived t = ds"
    using assms(1,2) unfolding udp_ok_def by blast
  then show ?thesis using assms(3) by (auto simp: UdpInput_Compute_def)
qed

section \<open>A concrete queue\<close>

text \<open>Datagrams of one byte each hold a matrix of one element.\<close>

definition queue_net :: "(byte list \<times> sockaddr) list udp_net" where
  "queue_net = \<lparr>udp_socket = (\<lambda>s. (5, s)), udp_rcvbuf = (\<lambda>fd n s. (0, s)), udp_bind = (\<lambda>fd a s. (0, s)),
     udp_recvfrom = (\<lambda>fd n s. case s of [] \<Rightarrow> (None, []) | (d, a) # ds \<Rightarrow> (Some (take n d, a), ds))\<rparr>"

definition byte_matrix :: "byte list \<Rightarrow> matrix option" where
  "byte_matrix bs = (if length bs = 1 then Some \<lparr>num_cols = 1, rows = [[real (unat (hd bs))]]\<rparr> else None)"

definition queue_input :: udp_input where
  "queue_input = \<lparr>sock_desc = 5, server_addr = server_address 9000, client_addr = server_address 0\<rparr>"

lemma queue_net_ok: "udp_ok queue_net fd (\<lambda>s. s)"
  by (simp add: udp_ok_def queue_net_def)

theorem udp_batches_are_datagrams_witness:
  "\<exists>t. repeats (UdpInput_Compute queue_net byte_matrix False no_rows) 2
      (queue_input, [([3], server_address 1), ([4], server_address 2)])
    = (Inr [(True, \<lparr>num_cols = 1, rows = [[3]]\<rparr>), (True, \<lparr>num_cols = 1, rows = [[4]]\<rparr>)],
        queue_input\<lparr>client_addr := server_address 2\<rparr>, t)"
proof -
  let ?ds = "[([3], server_address 1), ([4], server_address 2)] :: (byte list \<times> sockaddr) list"
  let ?ms = "[\<lparr>num_cols = 1, rows = [[3]]\<rparr>, \<lparr>num_cols = 1, rows = [[4]]\<rparr>] :: matrix list"
  have "byte_matrix [3] = Some \<lparr>num_cols = 1, rows = [[3]]\<rparr>" "byte_matrix [4] = Some \<lparr>num_cols = 1, rows = [[4]]\<rparr>"
    by (simp_all add: byte_matrix_def)
  then have "map byte_matrix (map fst ?ds) = map Some ?ms" by simp
  moreover have "\<forall>d \<in> set ?ds. length (fst d) \<le> udp_buffer" by (simp add: udp_buffer_def)
  ultimately have "\<exists>t. repeats (UdpInput_Compute queue_net byte_matrix False no_rows) (length ?ds) (queue_input, ?ds) =
      (Inr (map (Pair True) ?ms), queue_input\<lparr>client_addr := last (client_addr queue_input # map snd ?ds)\<rparr>, t)"
    using udp_batches_are_datagrams [OF queue_net_ok, where u = queue_input and s = ?ds and ds = ?ds and rest = "[]"
        and read_matrix = byte_matrix and ms = ?ms and out = no_rows] by auto
  then show ?thesis by (simp add: numeral_2_eq_2 del: repeats.simps One_nat_def)
qed

theorem udp_bad_datagram_witness:
  "\<exists>t. UdpInput_Compute queue_net byte_matrix False no_rows (queue_input, [([3, 4], server_address 1)])
    = (Inl KaldiError, queue_input\<lparr>client_addr := server_address 1\<rparr>, t)"
  using udp_bad_datagram [OF queue_net_ok, where u = queue_input and s = "[([3, 4], server_address 1)]"
      and d = "[3, 4]" and a = "server_address 1" and ds = "[]" and read_matrix = byte_matrix and out = no_rows]
  by (simp add: byte_matrix_def udp_buffer_def)

end
