(* ===== verification/GraphReader.thy ===== *)
theory GraphReader
  imports Prelude
begin

text \<open>
  \<open>ReadDecodeGraph\<close> (\<open>onlinebin-util.cc\<close>): a graph file is opened, its header is checked, and the
  reader for its kind is called. Opening a file belongs to Kaldi, the header and the readers to
  OpenFst: they are parameters, functions on the stream of the file.
\<close>

text \<open>The two names that the header of a graph has.\<close>

record fst_header =
  ArcType :: string
  FstType :: string

text \<open>
  \<open>open_input\<close> is \<^const>\<open>None\<close> when the stream is not good; the readers return a null pointer
  when they fail. \<open>std_arc\<close> is the name of \<open>StdArc\<close>.
\<close>

record ('s, 'g) fst_io =
  open_input :: "string \<Rightarrow> 's option"
  read_header :: "'s \<Rightarrow> (fst_header \<times> 's) option"
  std_arc :: string
  read_vector_fst :: "fst_header \<Rightarrow> 's \<Rightarrow> 'g option"
  read_const_fst :: "fst_header \<Rightarrow> 's \<Rightarrow> 'g option"

text \<open>A graph is handed on as a pointer to the base class; what it is remains visible.\<close>

datatype 'g decode_fst = VectorFst 'g | ConstFst 'g

definition ReadDecodeGraph :: "('s, 'g) fst_io \<Rightarrow> string \<Rightarrow> fault + 'g decode_fst" where
  "ReadDecodeGraph io filename =
     (case open_input io filename of
        None \<Rightarrow> Inl KaldiError
      | Some ki \<Rightarrow> (case read_header io ki of
          None \<Rightarrow> Inl KaldiError
        | Some (hdr, ki') \<Rightarrow>
            if ArcType hdr \<noteq> std_arc io then Inl KaldiError
            else if FstType hdr = ''vector'' then
              (case read_vector_fst io hdr ki' of None \<Rightarrow> Inl KaldiError | Some g \<Rightarrow> Inr (VectorFst g))
            else if FstType hdr = ''const'' then
              (case read_const_fst io hdr ki' of None \<Rightarrow> Inl KaldiError | Some g \<Rightarrow> Inr (ConstFst g))
            else Inl KaldiError))"

text \<open>
  A graph is returned exactly for a file with a header of standard arcs that names one of the
  two kinds, read by the reader of this kind; everything else is an error, never a null pointer.
\<close>

theorem ReadDecodeGraph_outcome:
  "(ReadDecodeGraph io f = Inr r \<longleftrightarrow>
     (\<exists>ki hdr ki' g. open_input io f = Some ki \<and> read_header io ki = Some (hdr, ki') \<and> ArcType hdr = std_arc io
        \<and> (FstType hdr = ''vector'' \<and> read_vector_fst io hdr ki' = Some g \<and> r = VectorFst g
           \<or> FstType hdr = ''const'' \<and> read_const_fst io hdr ki' = Some g \<and> r = ConstFst g)))
   \<and> (\<forall>e. ReadDecodeGraph io f = Inl e \<longrightarrow> e = KaldiError)"
  by (auto simp: ReadDecodeGraph_def split: option.splits if_splits)

text \<open>Files that consist of their header, the graph being the name of the kind.\<close>

definition header_io :: "(fst_header, string) fst_io" where
  "header_io = \<lparr>open_input = (\<lambda>f. Some \<lparr>ArcType = ''standard'', FstType = f\<rparr>),
     read_header = (\<lambda>h. Some (h, h)), std_arc = ''standard'',
     read_vector_fst = (\<lambda>h s. Some (FstType h)), read_const_fst = (\<lambda>h s. None)\<rparr>"

lemma header_io_runs:
  "ReadDecodeGraph header_io ''vector'' = Inr (VectorFst ''vector'')"
  "ReadDecodeGraph header_io ''const'' = Inl KaldiError"
  "ReadDecodeGraph header_io ''edit'' = Inl KaldiError"
  by (simp_all add: ReadDecodeGraph_def header_io_def)

end
