(* ===== verification/Spec2Isabelle.thy ===== *)
theory Spec2Isabelle
  imports Phones Delta AudioInputs PaSource SpeechServer ServingPool OnlineFeatures UdpInput GraphReader
begin

text \<open>
  A verification of the multi-threaded speech recognition server: the thread pool in
  \<open>src/src\<close>, the protocol, the client and the server in \<open>src/speechsvr\<close>, and the online decoder
  in \<open>src/speechsvr/online-decoder\<close>. This theory imports all others and holds this overview.

  \<^bold>\<open>The program.\<close> \<open>speechsvr.cc\<close> reads \<open>server.conf\<close>, loads the models (\<open>SpeechServer\<close>), creates
  \<open>num_threads\<close> workers and listens. \<open>ThreadedServer\<close> hands every accepted socket as a task to
  \<open>TaskDispatcher\<close>, which waits on a semaphore for a free worker and assigns the task to it. A
  \<open>DecodeWorker\<close> holds the dialogue of \<open>protocol.h\<close> with \<open>speechclient.cc\<close>: in file mode it
  receives the whole recording, in online mode it asks for samples batch by batch
  (\<open>RemoteAudioSource\<close>), which run through the voice activity detector, the feature extractor,
  the normalisation and the LDA into the decoder, and sends each piece of the result as soon
  as it is final.

  \<^bold>\<open>Conventions\<close> (theory \<open>Prelude\<close>). A computation that may stop is a \<open>prog\<close>: from a state to a
  \<open>fault\<close> or a value, and the state reached. The faults are \<open>exit\<close>, failed assertions, thrown
  exceptions and the undefined behaviours that the code can run into, each at the statement
  where it happens; \<open>OutOfFuel\<close> is the one that is not of the code. Threads are inductive step
  relations, one rule per statement, and \<open>run\<close> is a sequence of steps with its labels. Lengths
  and types on the wire, counters and the client's position are 32-bit words or integers whose
  overflow is a fault; sizes of vectors and matrices are natural numbers. \<open>float\<close> arithmetic is
  exact real arithmetic: rounding is not modelled, a division by a zero variance is a result of
  its own, and samples on the wire are bit patterns.

  \<^bold>\<open>Threads.\<close>
  \<^item> \<open>Semaphores\<close> (\<open>Semaphore.cc\<close>): the statements of \<open>Wait\<close>, \<open>Signal\<close> and \<open>GetValue\<close> refine atomic
    operations on a counter; no lost wake-up, no deadlock. Locale \<open>counting_semaphore\<close> is the
    contract, interpreted on the atomic operations and used by \<open>Dispatcher\<close>.
  \<^item> \<open>Workers\<close> (\<open>Task.cc\<close>, \<open>Worker.cc\<close>): the worker thread and its client, with mutex, condition
    variable and spurious wake-ups; tasks are conserved, assigned tasks are started, the
    destructor joins.
  \<^item> \<open>Dispatcher\<close> (\<open>TaskDispatcher.cc\<close>, \<open>ThreadedServer.cc\<close>, the loop of \<open>Server.cc\<close>): the main
    thread with all workers; the semaphore counts the free workers, clients are conserved,
    the assertion of \<open>Dispatch\<close> can nevertheless fail, and deleting the dispatcher comes to its
    end within a number of steps that is given, with every task freed.

  \<^bold>\<open>Network.\<close>
  \<^item> \<open>Sockets\<close> (\<open>Socket.cc\<close>, \<open>Server.cc\<close>): \<open>Send\<close>, \<open>Receive\<close>, \<open>Connect\<close>, the set-up of \<open>Start\<close>; the
    system calls are a record with their documented contract (\<open>os_ok\<close>, \<open>os_live\<close>, \<open>os_sends\<close>).
  \<^item> \<open>Protocol\<close> (\<open>protocol.h\<close>, \<open>protocol.cc\<close>): the memory layout of the packets, \<open>SendPacket\<close>.
  \<^item> \<open>Config\<close> (\<open>Config.cc\<close>): the file format and the getters, which insert missing keys.
  \<^item> \<open>Streaming\<close> (\<open>speechclient.cc\<close>, \<open>RemoteAudioSource.cc\<close>, \<open>OnlineVectorSource\<close>): the client's
    loop, the server's reads, and that the two ends reproduce the wave. Locale \<open>audio_source\<close>
    is the interface of the sources, interpreted on \<open>OnlineVectorSource\<close>.
  \<^item> \<open>Results\<close> (\<open>DecodeWorker.cc\<close>, \<open>onlinebin-util.cc\<close>): the texts of results, \<open>SendOutput\<close> and what
    the client makes of it.

  \<^bold>\<open>Features.\<close>
  \<^item> \<open>Windows\<close>: locale \<open>sliding_window\<close>, the contract of everything that keeps the last vectors of
    a stream, and circular buffers. It is interpreted on the three windows below.
  \<^item> \<open>Cmn\<close> (\<open>online-cmn.cc\<close>): both normalisations compute mean and variance of the last vectors.
  \<^item> \<open>Features\<close> (\<open>online-feat-input.h\<close>): the interface of the inputs, \<open>OnlineCmvnInput\<close>, and locale
    \<open>windowed_input\<close>, which extends \<open>sliding_window\<close>: an input that works through such a window
    returns, batch by batch, what the whole stream gives.
  \<^item> \<open>Lda\<close>, \<open>Delta\<close> (\<open>online-feat-input.cc\<close>, \<open>LdaTransform\<close>): two interpretations of it; the online
    LDA agrees with the batch version, for what comes after the short batches at the beginning,
    which are thrown away.
  \<^item> \<open>AudioInputs\<close> (\<open>online-feat-input.cc\<close>): frames of a signal that arrives in batches, with an
    extractor that throws when it is given less than a frame.
  \<^item> \<open>UdpInput\<close> (\<open>OnlineUdpInput\<close> of \<open>online-feat-input.cc\<close>): one matrix per datagram, and every error.
  \<^item> \<open>Gating\<close>: which batches pass a voice activity detector (three windows of ten with speech, or
    less than a hangover of silence behind such a batch), stated without the code: the
    specification of \<open>OnlineVadFeInput\<close>.
  \<^item> \<open>Vad\<close> (\<open>online-vad.cc\<close>): the energy detector, the queue that delays the audio, the listeners;
    a call returns the next batch that passes, and fails to return one exactly when there is none.
  \<^item> \<open>PaSource\<close> (\<open>online-audio-source.cc\<close>): the microphone source is a queue of the capacity of its
    ring buffer that loses exactly what does not fit, and when its \<open>Read\<close> returns.

  \<^bold>\<open>Decoder.\<close>
  \<^item> \<open>Traceback\<close> (\<open>online-faster-decoder.cc\<close>): the search for the immortal token, the lattices, and
    that the pieces of an utterance are the words of its best path, that of the first token with
    the lowest cost.
  \<^item> \<open>Phones\<close>: the split of an alignment into phones and the end-of-utterance test.
  \<^item> \<open>DecodeLoop\<close>: \<open>Decode\<close>, the control of the beam, and the batching of the decodable
    (\<open>online-decodable.cc\<close>).
  \<^item> \<open>GraphReader\<close> (\<open>ReadDecodeGraph\<close> of \<open>onlinebin-util.cc\<close>): which graph files are accepted.

  \<^bold>\<open>Server.\<close>
  \<^item> \<open>OnlineSession\<close> (\<open>DecodeWorker::OnlineDecode\<close>): the objects wired together and the loop; the
    packets of an utterance are the words of its best path, each once, and reporting fails exactly
    when nothing is left to report.
  \<^item> \<open>DecodeWorker\<close> (\<open>DecodeWorker::Work\<close>): the dialogue; client and server fit together in file
    mode; the normalisation of a worker spans its clients; what a client can do to the server.
  \<^item> \<open>ClientLink\<close>: the client program and the server's online input as one system, with a lossless
    network in between. Locale \<open>ending_source\<close> of \<open>Vad\<close>, a source that ends and then breaks, is
    interpreted on it; which requests the server hears, and what a client that leaves does to the server.
  \<^item> \<open>OnlineFeatures\<close>: the whole path of the audio in an online session, from the client's wave to the
    vectors of the decodable, is the batch LDA of the batchwise normalised features of exactly the
    requests with speech.
  \<^item> \<open>SpeechServer\<close> (\<open>SpeechServer.cc\<close>, \<open>speechsvr.cc\<close>): every worker gets the settings of the file.
  \<^item> \<open>ServingPool\<close>: the threads of \<open>Dispatcher\<close>, each holding the dialogues of \<open>DecodeWorker\<close>. Every
    client is answered at most once, what a client in file mode gets is given as a function of its
    recording and the earlier ones of its worker, and one client can end the service of all.

  \<^bold>\<open>Parameters.\<close> Kaldi, OpenFst, PortAudio and the operating system are not in the repository.
  They are arguments of the definitions: the system calls on sockets (\<open>os\<close>, \<open>net\<close>), the token
  search and the timer of \<open>FasterDecoder\<close> (\<open>search\<close>, \<open>token_search\<close>), graphs, \<open>RemoveEpsLocal\<close> and
  \<open>GetLinearSymbolSequence\<close> (hypothesis \<open>fst_ok\<close>), the MFCC and delta computations, the acoustic
  scores, the transition model, PortAudio's ring buffer (\<open>ring_ok\<close>), loading of models, and the
  contents of uninitialised memory. Every hypothesis on them has a concrete instance in a
  witness.

  \<^bold>\<open>Fuel.\<close> Loops of the code that end are recursive functions with a termination proof. Four loops
  depend on their environment and have fuel: the client's loop (\<open>Client_loop\<close>; its theorems need
  two turns more than there are packets), the audio queue (\<open>VadInput_Compute\<close>; its theorem bounds
  the turns by the samples that are left, and inside a session a used-up bound is
  \<open>OutOfFuel\<close>; in \<open>ServingPool\<close> a dialogue that needs more turns than the fuel is one that is still
  going on), the online loop (\<open>OnlineDecode_loop\<close>; lemma \<open>OnlineDecode_loop_turns\<close> reads it as
  a number of turns), and the wait of \<open>OnlinePaSource\<close>, whose fuel is the schedule of the polls:
  it is proved exactly when it returns.

  \<^bold>\<open>Timeouts.\<close> The pointer to a timeout that the inputs are passed refers to a variable of the
  caller. Inputs that only hand it on need nothing for it: the variable is a part of the state of
  what they wrap. \<open>AudioInputs\<close> and \<open>PaSource\<close> read and set it, \<open>OnlineUdpInput\<close> refuses it, and
  \<open>OnlineVadFeInput\<close>, which only looks at it, has it as a field of its environment; the server
  passes a null pointer.

  \<^bold>\<open>Matrices.\<close> A matrix has its number of columns and its rows. Kaldi's \<open>Resize\<close> takes zero rows
  only together with zero columns, so that an LDA or delta output without rows is a \<open>KaldiError\<close>.

  \<^bold>\<open>Not modelled.\<close> Option registration, which nothing calls, debugging files and console messages;
  destructors that only free memory; more than 128 listeners of the voice activity detector; the
  test drivers. Undefined behaviour through data races
  outside the mutexes is not looked for.
\<close>

end
